(* ===== verification/Xtc_Prelude.thy ===== *)
theory Xtc_Prelude
  imports Main "HOL-Library.Word" "HOL-Library.Multiset"
begin

text \<open>
  Shared vocabulary of the development: the library's error codes, the machine-integer
  bounds the sources test against, the two's-complement wrap of a 64-bit counter, the
  fact collections the component theories feed, and the generic list lemmas that more
  than one component needs.

  Conventions used throughout. A pointer that may be NULL is an option value. Memory
  that an operation mutates is passed in and returned. Signed C integers are \<open>int\<close> values
  whose range is an invariant, so that the absence of overflow is a theorem and not an
  assumption; unsigned counters that may wrap are words. The outcome of an allocation is
  a boolean argument of the operation that allocates.
\<close>

section \<open>Fact collections\<close>

named_theorems xtc_defs \<open>unfolding equations of operations\<close>
named_theorems xtc_inv \<open>preservation of well-formedness\<close>

section \<open>Error codes\<close>

text \<open>The error enumeration of the public header, in its declaration order.\<close>

datatype xtc_err =
    XTC_OK
  | XTC_E_INVAL
  | XTC_E_NOMEM
  | XTC_E_NOSYS
  | XTC_E_RANGE
  | XTC_E_AGAIN
  | XTC_E_INTERNAL
  | XTC_E_RESOURCE
  | XTC_E_DEADLK
  | XTC_E_VERSION
  | XTC_E_ABORTED
  | XTC_E_NOTFOUND
  | XTC_E_IO

section \<open>Machine integers\<close>

definition INT64_MAX :: int where
  "INT64_MAX = 2 ^ 63 - 1"

definition INT_MAX :: int where
  "INT_MAX = 2 ^ 31 - 1"

definition SIZE_MAX :: nat where
  "SIZE_MAX = 2 ^ 64 - 1"

text \<open>A 64-bit signed atomic counter wraps in two's complement.\<close>

definition wrap64 :: "int \<Rightarrow> int" where
  "wrap64 x = (x + 2 ^ 63) mod 2 ^ 64 - 2 ^ 63"

lemma wrap64_id [simp]: "- (2 ^ 63) \<le> x \<Longrightarrow> x \<le> INT64_MAX \<Longrightarrow> wrap64 x = x"
  by (simp add: wrap64_def INT64_MAX_def)

lemma INT64_MAX_pos [simp]: "0 < INT64_MAX" "0 \<le> INT64_MAX"
  by (simp_all add: INT64_MAX_def)

section \<open>Lists\<close>

lemma nth_list_update_If:
  "i < length xs \<Longrightarrow> xs[i := x] ! j = (if i = j then x else xs ! j)"
  by (cases "i = j") simp_all

lemma sum_fun_upd:
  fixes f :: "'a \<Rightarrow> int"
  assumes "finite A" "x \<in> A"
  shows "sum (f(x := v)) A = sum f A - f x + v"
proof -
  have "sum (f(x := v)) A = v + sum (f(x := v)) (A - {x})"
    using assms by (simp add: sum.remove)
  also have "sum (f(x := v)) (A - {x}) = sum f (A - {x})"
    by (rule sum.cong) auto
  also have "sum f (A - {x}) = sum f A - f x"
    using assms by (simp add: sum_diff1)
  finally show ?thesis by simp
qed

section \<open>Runs of a step relation\<close>

lemma rtranclp_two: "P a b \<Longrightarrow> P b c \<Longrightarrow> P\<^sup>*\<^sup>* a c"
  by (rule converse_rtranclp_into_rtranclp [OF _ r_into_rtranclp])

lemma rtranclp_three: "P a b \<Longrightarrow> P b c \<Longrightarrow> P c d \<Longrightarrow> P\<^sup>*\<^sup>* a d"
  by (rule converse_rtranclp_into_rtranclp [OF _ rtranclp_two])

section \<open>Runs of a step function\<close>

text \<open>
  A component's interface as a partial step function over actions: \<open>None\<close> is an action its
  caller may not take. What every step keeps, every run keeps.
\<close>

fun run_steps :: "('a \<Rightarrow> 's \<Rightarrow> 's option) \<Rightarrow> 'a list \<Rightarrow> 's \<Rightarrow> 's option" where
  "run_steps step [] s = Some s"
| "run_steps step (a # as) s = (case step a s of None \<Rightarrow> None | Some s' \<Rightarrow> run_steps step as s')"

locale step_system =
  fixes step :: "'a \<Rightarrow> 's \<Rightarrow> 's option" and keeps :: "'s \<Rightarrow> bool"
  assumes step_keeps: "keeps s \<Longrightarrow> step a s = Some s' \<Longrightarrow> keeps s'"
begin

lemma run_keeps: "keeps s \<Longrightarrow> run_steps step as s = Some s' \<Longrightarrow> keeps s'"
proof (induction as arbitrary: s)
  case (Cons a as)
  then obtain s1 where "step a s = Some s1" "run_steps step as s1 = Some s'" by (auto split: option.splits)
  with Cons step_keeps show ?case by blast
qed simp

end

end
