(* ===== verification/Lock_Modes.thy ===== *)
theory Lock_Modes
  imports Xtc_Prelude
begin

text \<open>
  Lock modes and the conflict matrix of the lock manager
  (src/src/ptc/lock_mgr.c, src/src/inc/xtc_lockmgr.h). A mode is a number; the matrix is the
  row-major table of an \<open>n\<close>-mode manager, so that user-supplied matrices are covered.
  Strength is decided by the matrix (\<open>dominates\<close>), never by the numbers: the lemmas
  show that it is a preorder and that it moves along conflicts in both directions.
\<close>

unbundle bit_operations_syntax

abbreviation (input) XTC_LOCK_NL :: nat where "XTC_LOCK_NL \<equiv> 0"
abbreviation (input) XTC_LOCK_S :: nat where "XTC_LOCK_S \<equiv> 1"
abbreviation (input) XTC_LOCK_X :: nat where "XTC_LOCK_X \<equiv> 2"
abbreviation (input) XTC_LOCK_WAIT :: nat where "XTC_LOCK_WAIT \<equiv> 3"
abbreviation (input) XTC_LOCK_IX :: nat where "XTC_LOCK_IX \<equiv> 4"
abbreviation (input) XTC_LOCK_IS :: nat where "XTC_LOCK_IS \<equiv> 5"
abbreviation (input) XTC_LOCK_IWR :: nat where "XTC_LOCK_IWR \<equiv> 6"
abbreviation (input) XTC_LOCK_RU :: nat where "XTC_LOCK_RU \<equiv> 7"
abbreviation (input) XTC_LOCK_WW :: nat where "XTC_LOCK_WW \<equiv> 8"

record lock_matrix =
  mx_conflicts :: "bool list"
  mx_n_modes :: nat

definition XTC_DEFAULT_CONFLICTS_9 :: "bool list" where
  "XTC_DEFAULT_CONFLICTS_9 = map (\<lambda>c :: nat. c = 1)
    [0, 0, 0, 0, 0, 0, 0, 0, 0,
     0, 0, 1, 0, 1, 0, 1, 0, 1,
     0, 1, 1, 1, 1, 1, 1, 1, 1,
     0, 0, 0, 0, 0, 0, 0, 0, 0,
     0, 1, 1, 0, 0, 0, 0, 1, 1,
     0, 0, 1, 0, 0, 0, 0, 0, 1,
     0, 1, 1, 0, 0, 0, 0, 1, 1,
     0, 0, 1, 0, 1, 0, 1, 0, 0,
     0, 1, 1, 0, 1, 1, 1, 0, 1]"

definition default_matrix :: lock_matrix where
  "default_matrix = \<lparr>mx_conflicts = XTC_DEFAULT_CONFLICTS_9, mx_n_modes = 9\<rparr>"

definition conflicts :: "lock_matrix \<Rightarrow> nat \<Rightarrow> nat \<Rightarrow> bool" where
  "conflicts m held req =
     (let n = mx_n_modes m in
      if n \<le> held \<or> n \<le> req then True else mx_conflicts m ! (held * n + req))"

definition dominates :: "lock_matrix \<Rightarrow> nat \<Rightarrow> nat \<Rightarrow> bool" where
  "dominates m p q =
     (let n = mx_n_modes m; c = mx_conflicts m in
      if n \<le> p \<or> n \<le> q then False
      else list_all (\<lambda>k. \<not> (c ! (q * n + k) \<and> \<not> c ! (p * n + k)) \<and>
                         \<not> (c ! (k * n + q) \<and> \<not> c ! (k * n + p))) [0..<n])"

definition is_write_mode :: "nat \<Rightarrow> bool" where
  "is_write_mode mode = (mode = XTC_LOCK_X \<or> mode = XTC_LOCK_IX \<or> mode = XTC_LOCK_IWR \<or> mode = XTC_LOCK_WW)"

text \<open>The change of the write count when a lock goes from mode \<open>a\<close> to mode \<open>b\<close>.\<close>

definition write_delta :: "nat \<Rightarrow> nat \<Rightarrow> int" where
  "write_delta a b = of_bool (is_write_mode b) - of_bool (is_write_mode a)"

text \<open>FNV-1a over the bytes of the key, zero mapped to one.\<close>

definition lock_hash :: "8 word list \<Rightarrow> 32 word" where
  "lock_hash bs =
     (let h = fold (\<lambda>b h. (h XOR ucast b) * 16777619) bs (2166136261 :: 32 word) in
      if h \<noteq> 0 then h else 1)"

section \<open>Lemmas\<close>

lemma lock_hash_nonzero: "lock_hash bs \<noteq> 0"
  by (simp add: lock_hash_def Let_def)

lemma dominates_iff:
  "dominates m p q \<longleftrightarrow> p < mx_n_modes m \<and> q < mx_n_modes m \<and>
     (\<forall>k < mx_n_modes m. (conflicts m q k \<longrightarrow> conflicts m p k) \<and> (conflicts m k q \<longrightarrow> conflicts m k p))"
  by (auto simp: dominates_def conflicts_def Let_def list_all_iff not_le)

lemma dominates_refl: "p < mx_n_modes m \<Longrightarrow> dominates m p p"
  by (simp add: dominates_iff)

lemma dominates_trans: "dominates m p q \<Longrightarrow> dominates m q r \<Longrightarrow> dominates m p r"
  by (simp add: dominates_iff)

lemma dominates_bounds: "dominates m p q \<Longrightarrow> p < mx_n_modes m" "dominates m p q \<Longrightarrow> q < mx_n_modes m"
  by (simp_all add: dominates_iff)

text \<open>Weakening a mode keeps it compatible; the other side may be any mode, in range or not.\<close>

lemma dominates_compatible:
  assumes "dominates m p q"
  shows "\<not> conflicts m p k \<Longrightarrow> \<not> conflicts m q k" "\<not> conflicts m k p \<Longrightarrow> \<not> conflicts m k q"
  using assms unfolding dominates_iff by (auto simp: conflicts_def Let_def split: if_splits)

text \<open>
  The default matrix is symmetric on every mode a lock can be requested in (the wait
  placeholder apart), X conflicts with and dominates every mode, and dominance is not the
  numeric order: IX dominates IS but not S.
\<close>

lemma default_matrix_facts:
  "list_all (\<lambda>a. list_all (\<lambda>b. a = XTC_LOCK_WAIT \<or> b = XTC_LOCK_WAIT \<or>
      conflicts default_matrix a b = conflicts default_matrix b a) [0..<9]) [0..<9]"
  "list_all (\<lambda>b. conflicts default_matrix XTC_LOCK_X b \<and> dominates default_matrix XTC_LOCK_X b) [1..<9]"
  "\<not> dominates default_matrix XTC_LOCK_IX XTC_LOCK_S \<and> dominates default_matrix XTC_LOCK_IX XTC_LOCK_IS"
  by code_simp+

lemma default_symmetric:
  assumes "a \<noteq> XTC_LOCK_WAIT" "b \<noteq> XTC_LOCK_WAIT"
  shows "conflicts default_matrix a b = conflicts default_matrix b a"
proof (cases "a < 9 \<and> b < 9")
  case True
  then have "a \<in> set [0..<9]" "b \<in> set [0..<9]" by auto
  with default_matrix_facts(1) assms show ?thesis unfolding list_all_iff by blast
next
  case False
  then show ?thesis by (auto simp: conflicts_def default_matrix_def)
qed

end
