(* ===== verification/Lock_Queue.thy ===== *)
theory Lock_Queue
  imports Lock_Modes
begin

text \<open>
  One lockable object (\<open>struct lock_obj\<close> of src/src/ptc/lock_mgr.c): its granted list and its
  wait queue, the conflict test against the holders, the decision a request meets, and the
  promotion of waiters when a lock is given up or weakened. An entry's \<open>granted\<close> flag is the
  list it is on; its address is \<open>le_id\<close>.
\<close>

section \<open>Entries and objects\<close>

record lock_entry =
  le_id :: nat
  le_locker :: nat
  le_mode :: nat
  le_fiber :: bool
  le_aborted :: bool

type_synonym lock_key = "8 word list"

record lock_obj =
  lo_key :: lock_key
  lo_granted :: "lock_entry list"
  lo_waiting :: "lock_entry list"

definition has_conflict_granted :: "lock_matrix \<Rightarrow> lock_entry list \<Rightarrow> nat \<Rightarrow> nat \<Rightarrow> bool" where
  "has_conflict_granted m g locker mode =
     list_ex (\<lambda>e. le_locker e \<noteq> locker \<and> conflicts m (le_mode e) mode) g"

definition has_waiters :: "lock_obj \<Rightarrow> bool" where
  "has_waiters ob = (lo_waiting ob \<noteq> [])"

definition find_granted :: "lock_obj \<Rightarrow> nat \<Rightarrow> lock_entry option" where
  "find_granted ob locker = find (\<lambda>e. le_locker e = locker) (lo_granted ob)"

text \<open>The assignment to \<open>prior->mode\<close>: the newest granted entry of the locker changes.\<close>

fun set_first_mode :: "nat \<Rightarrow> nat \<Rightarrow> lock_entry list \<Rightarrow> lock_entry list" where
  "set_first_mode locker mode [] = []"
| "set_first_mode locker mode (e # es) =
     (if le_locker e = locker then e\<lparr>le_mode := mode\<rparr> # es else e # set_first_mode locker mode es)"

text \<open>Unlinking the entry with address \<open>i\<close> from a list.\<close>

fun unlink_entry :: "nat \<Rightarrow> lock_entry list \<Rightarrow> lock_entry list" where
  "unlink_entry i [] = []"
| "unlink_entry i (e # es) = (if le_id e = i then es else e # unlink_entry i es)"

definition entry_at :: "nat \<Rightarrow> lock_entry list \<Rightarrow> lock_entry option" where
  "entry_at i es = find (\<lambda>e. le_id e = i) es"

section \<open>A request\<close>

text \<open>
  What \<open>__do_acquire_locked\<close> decides under the partition lock: the held mode already covers
  the request, it is raised in place, a new entry is granted, or the request has to wait.
\<close>

datatype lock_decision = Covered | Raise nat | Grant | MustWait

definition lock_decide :: "lock_matrix \<Rightarrow> lock_obj \<Rightarrow> nat \<Rightarrow> nat \<Rightarrow> lock_decision" where
  "lock_decide m ob locker mode =
     (let prior = find_granted ob locker; hc = has_conflict_granted m (lo_granted ob) locker mode;
          rest = if \<not> hc \<and> (prior \<noteq> None \<or> \<not> has_waiters ob) then Grant else MustWait in
      case prior of
        None \<Rightarrow> rest
      | Some e \<Rightarrow>
          if \<not> conflicts m (le_mode e) mode then
            if dominates m (le_mode e) mode then Covered
            else if dominates m mode (le_mode e) \<and> \<not> hc then Raise (le_mode e)
            else rest
          else rest)"

definition obj_raise :: "nat \<Rightarrow> nat \<Rightarrow> lock_obj \<Rightarrow> lock_obj" where
  "obj_raise locker mode ob = ob\<lparr>lo_granted := set_first_mode locker mode (lo_granted ob)\<rparr>"

definition obj_grant :: "lock_entry \<Rightarrow> lock_obj \<Rightarrow> lock_obj" where
  "obj_grant e ob = ob\<lparr>lo_granted := e # lo_granted ob\<rparr>"

text \<open>A conversion goes to the head of the queue, a new request to its tail.\<close>

definition obj_enqueue :: "lock_entry \<Rightarrow> lock_obj \<Rightarrow> lock_obj" where
  "obj_enqueue e ob = ob\<lparr>lo_waiting :=
     if find_granted ob (le_locker e) \<noteq> None then e # lo_waiting ob else lo_waiting ob @ [e]\<rparr>"

section \<open>Promotion\<close>

text \<open>
  The loop over the wait queue after a release; \<open>kept\<close> are the waiters already passed over. The
  simulator's fault \<open>skip\<close> defers a waiter when a later one can be granted instead. The
  result is the queue left, the granted list and the entries woken, in order.
\<close>

fun promote :: "lock_matrix \<Rightarrow> (nat \<Rightarrow> bool) \<Rightarrow> lock_entry list \<Rightarrow> lock_entry list \<Rightarrow> lock_entry list \<Rightarrow>
    lock_entry list \<times> lock_entry list \<times> nat list" where
  "promote m skip kept [] g = (kept, g, [])"
| "promote m skip kept (w # ws) g =
     (if has_conflict_granted m g (le_locker w) (le_mode w) then (kept @ w # ws, g, [])
      else if skip (le_id w) \<and>
          list_ex (\<lambda>l. \<not> has_conflict_granted m g (le_locker l) (le_mode l)) ws
        then promote m skip (kept @ [w]) ws g
      else (case promote m skip kept ws (w # g) of (q, g', wk) \<Rightarrow> (q, g', le_id w # wk)))"

definition no_skip :: "nat \<Rightarrow> bool" where
  "no_skip i = False"

lemma not_no_skip: "\<not> no_skip i"
  by (simp add: no_skip_def)

definition obj_promote :: "lock_matrix \<Rightarrow> (nat \<Rightarrow> bool) \<Rightarrow> lock_obj \<Rightarrow> lock_obj \<times> nat list" where
  "obj_promote m skip ob =
     (case promote m skip [] (lo_waiting ob) (lo_granted ob) of (q, g, wk) \<Rightarrow>
        (ob\<lparr>lo_waiting := q, lo_granted := g\<rparr>, wk))"

text \<open>\<open>__release_entry_locked\<close>: unlink the entry from the list it is on, then promote.\<close>

definition obj_release :: "lock_matrix \<Rightarrow> (nat \<Rightarrow> bool) \<Rightarrow> nat \<Rightarrow> lock_obj \<Rightarrow> lock_obj \<times> nat list" where
  "obj_release m skip i ob =
     obj_promote m skip
       (if entry_at i (lo_granted ob) \<noteq> None
        then ob\<lparr>lo_granted := unlink_entry i (lo_granted ob)\<rparr>
        else ob\<lparr>lo_waiting := unlink_entry i (lo_waiting ob)\<rparr>)"

text \<open>The waiters of a locker are marked aborted and woken.\<close>

definition obj_abort :: "nat \<Rightarrow> lock_obj \<Rightarrow> lock_obj \<times> nat list" where
  "obj_abort locker ob =
     (ob\<lparr>lo_waiting := map (\<lambda>e. if le_locker e = locker then e\<lparr>le_aborted := True\<rparr> else e) (lo_waiting ob)\<rparr>,
      map le_id (filter (\<lambda>e. le_locker e = locker) (lo_waiting ob)))"

section \<open>Mutual exclusion on one object\<close>

text \<open>
  Two entries clash if they belong to different lockers and conflict in both directions; for
  a symmetric matrix that is to conflict.
\<close>

definition clash :: "lock_matrix \<Rightarrow> lock_entry \<Rightarrow> lock_entry \<Rightarrow> bool" where
  "clash m a b = (le_locker a \<noteq> le_locker b \<and> conflicts m (le_mode a) (le_mode b) \<and>
     conflicts m (le_mode b) (le_mode a))"

definition holders_ok :: "lock_matrix \<Rightarrow> lock_entry list \<Rightarrow> bool" where
  "holders_ok m g = (\<forall>a \<in> set g. \<forall>b \<in> set g. \<not> clash m a b)"

lemma clash_sym: "clash m a b = clash m b a"
  by (auto simp: clash_def)

lemma holders_ok_Cons:
  assumes "holders_ok m g" "\<not> has_conflict_granted m g (le_locker e) (le_mode e)"
  shows "holders_ok m (e # g)"
proof -
  have "\<not> clash m a e" if "a \<in> set g" for a
    using assms(2) that by (auto simp: clash_def has_conflict_granted_def list_ex_iff)
  moreover have "\<not> clash m e e" by (simp add: clash_def)
  ultimately show ?thesis using assms(1) clash_sym by (auto simp: holders_ok_def)
qed

lemma holders_ok_subset: "holders_ok m g \<Longrightarrow> set h \<subseteq> set g \<Longrightarrow> holders_ok m h"
  by (auto simp: holders_ok_def)

lemma unlink_subset: "set (unlink_entry i es) \<subseteq> set es"
  by (induction es) auto

lemma entry_at_simps [simp]:
  "entry_at i [] = None" "entry_at i (e # es) = (if le_id e = i then Some e else entry_at i es)"
  by (simp_all add: entry_at_def)

lemma entry_at_pos: "entry_at i es \<noteq> None \<Longrightarrow> 0 < length es"
  by (cases es) auto

lemma unlink_length:
  "length (unlink_entry i es) = (if entry_at i es = None then length es else length es - 1)"
  by (induction es) (use entry_at_pos in \<open>auto simp: Suc_diff_le\<close>)

text \<open>Changing the mode of the locker's newest entry to one no other holder conflicts with.\<close>

lemma set_first_mem:
  "x \<in> set (set_first_mode locker mode g) \<Longrightarrow> x \<in> set g \<or> (le_locker x = locker \<and> le_mode x = mode)"
  by (induction g) (auto split: if_splits)

lemma holders_ok_set_first:
  assumes "holders_ok m g"
    and "\<And>b. b \<in> set g \<Longrightarrow> le_locker b \<noteq> locker \<Longrightarrow> \<not> (conflicts m mode (le_mode b) \<and> conflicts m (le_mode b) mode)"
  shows "holders_ok m (set_first_mode locker mode g)"
  unfolding holders_ok_def
proof (intro ballI)
  fix a b assume ab: "a \<in> set (set_first_mode locker mode g)" "b \<in> set (set_first_mode locker mode g)"
  show "\<not> clash m a b"
  proof
    assume c: "clash m a b"
    then have d: "le_locker a \<noteq> le_locker b" by (simp add: clash_def)
    from set_first_mem [OF ab(1)] set_first_mem [OF ab(2)] d
    consider "a \<in> set g" "b \<in> set g" | "a \<in> set g" "le_locker a \<noteq> locker" "le_mode b = mode"
      | "b \<in> set g" "le_locker b \<noteq> locker" "le_mode a = mode" by auto
    then show False
    proof cases
      case 1
      with assms(1) c show False by (simp add: holders_ok_def)
    next
      case 2
      with assms(2) [OF 2(1,2)] c show False by (simp add: clash_def)
    next
      case 3
      with assms(2) [OF 3(1,2)] c show False by (simp add: clash_def)
    qed
  qed
qed

lemma promote_holders:
  "holders_ok m g \<Longrightarrow> promote m skip kept ws g = (q, g', wk) \<Longrightarrow> holders_ok m g'"
proof (induction m skip kept ws g arbitrary: q g' wk rule: promote.induct)
  case (2 m skip kept w ws g)
  then show ?case by (auto simp: holders_ok_Cons split: if_splits prod.splits)
qed simp

lemma promote_entries:
  "promote m skip kept ws g = (q, g', wk) \<Longrightarrow> mset q + mset g' = mset kept + mset ws + mset g"
proof (induction m skip kept ws g arbitrary: q g' wk rule: promote.induct)
  case (2 m skip kept w ws g)
  show ?case
  proof (cases "has_conflict_granted m g (le_locker w) (le_mode w)")
    case True
    with "2.prems" show ?thesis by auto
  next
    case False
    then show ?thesis using "2.prems" "2.IH"(1) [OF False] "2.IH"(2) [OF False]
      by (auto split: if_splits prod.splits)
  qed
qed simp

text \<open>Without the simulator's fault: the queue loses a prefix, granted in order, and is then blocked.\<close>

lemma promote_prefix:
  "promote m no_skip kept ws g = (q, g', wk) \<Longrightarrow>
    \<exists>k \<le> length ws. q = kept @ drop k ws \<and> g' = rev (take k ws) @ g \<and> wk = map le_id (take k ws) \<and>
      (k < length ws \<longrightarrow> has_conflict_granted m g' (le_locker (ws ! k)) (le_mode (ws ! k)))"
proof (induction ws arbitrary: g q g' wk)
  case (Cons w ws)
  show ?case
  proof (cases "has_conflict_granted m g (le_locker w) (le_mode w)")
    case True
    with Cons.prems show ?thesis by (intro exI [of _ 0]) auto
  next
    case False
    obtain q1 g1 wk' where r: "promote m no_skip kept ws (w # g) = (q1, g1, wk')" by (cases rule: prod_cases3)
    have "promote m no_skip kept (w # ws) g = (q1, g1, le_id w # wk')"
      by (subst promote.simps) (simp only: False not_no_skip r if_False simp_thms prod.case)
    with Cons.prems r have p: "promote m no_skip kept ws (w # g) = (q, g', wk')" "wk = le_id w # wk'" by simp_all
    from Cons.IH [OF p(1)] obtain k where "k \<le> length ws" "q = kept @ drop k ws" "g' = rev (take k ws) @ w # g"
      "wk' = map le_id (take k ws)"
      "k < length ws \<longrightarrow> has_conflict_granted m g' (le_locker (ws ! k)) (le_mode (ws ! k))" by blast
    with p(2) show ?thesis by (intro exI [of _ "Suc k"]) auto
  qed
qed simp

lemma obj_promote_sel [simp]: "lo_key (fst (obj_promote m skip ob)) = lo_key ob"
  by (simp add: obj_promote_def split: prod.split)

definition obj_entries :: "lock_obj \<Rightarrow> lock_entry multiset" where
  "obj_entries ob = mset (lo_granted ob) + mset (lo_waiting ob)"

lemma obj_promote_ok:
  "holders_ok m (lo_granted ob) \<Longrightarrow> holders_ok m (lo_granted (fst (obj_promote m skip ob)))"
  "obj_entries (fst (obj_promote m skip ob)) = obj_entries ob"
  using promote_entries [of m skip "[]" "lo_waiting ob" "lo_granted ob"]
  by (auto simp: obj_promote_def obj_entries_def ac_simps split: prod.split intro: promote_holders)

lemma obj_release_ok:
  assumes "holders_ok m (lo_granted ob)"
  shows "holders_ok m (lo_granted (fst (obj_release m skip i ob)))"
    "lo_key (fst (obj_release m skip i ob)) = lo_key ob"
  using assms unlink_subset [of i "lo_granted ob"]
  by (auto simp: obj_release_def intro!: obj_promote_ok(1) elim: holders_ok_subset)

lemma obj_release_size:
  assumes "entry_at i (lo_granted ob) \<noteq> None \<or> entry_at i (lo_waiting ob) \<noteq> None"
  shows "size (obj_entries (fst (obj_release m skip i ob))) + 1 = size (obj_entries ob)"
proof -
  from assms entry_at_pos [of i "lo_granted ob"] entry_at_pos [of i "lo_waiting ob"] show ?thesis
    by (auto simp: obj_release_def obj_promote_ok(2)) (auto simp: obj_entries_def unlink_length Suc_diff_le)
qed

lemma obj_raise_ok:
  assumes "holders_ok m (lo_granted ob)" "\<not> has_conflict_granted m (lo_granted ob) locker mode"
  shows "holders_ok m (lo_granted (obj_raise locker mode ob))"
  using assms by (auto simp: obj_raise_def has_conflict_granted_def list_ex_iff intro!: holders_ok_set_first)

lemma set_first_length [simp]: "length (set_first_mode locker mode g) = length g"
  by (induction g) auto

section \<open>Well-formed objects\<close>

definition obj_ids :: "lock_obj \<Rightarrow> nat list" where
  "obj_ids ob = map le_id (lo_granted ob @ lo_waiting ob)"

definition obj_ok :: "lock_matrix \<Rightarrow> lock_obj \<Rightarrow> bool" where
  "obj_ok m ob = (holders_ok m (lo_granted ob) \<and> distinct (obj_ids ob))"

lemma obj_ids_cong: "obj_entries a = obj_entries b \<Longrightarrow> distinct (obj_ids a) = distinct (obj_ids b) \<and> set (obj_ids a) = set (obj_ids b)"
proof -
  assume "obj_entries a = obj_entries b"
  then have "image_mset le_id (mset (lo_granted a @ lo_waiting a)) = image_mset le_id (mset (lo_granted b @ lo_waiting b))"
    by (simp only: obj_entries_def mset_append)
  then have "mset (obj_ids a) = mset (obj_ids b)" by (simp only: obj_ids_def mset_map)
  then show ?thesis by (metis mset_eq_imp_distinct_iff mset_eq_setD)
qed

lemma unlink_ids: "map le_id (unlink_entry i es) = remove1 i (map le_id es)"
  by (induction es) auto

lemma obj_ok_promote:
  assumes "obj_ok m ob"
  shows "obj_ok m (fst (obj_promote m skip ob))"
  using assms obj_promote_ok(1) [of m ob skip] obj_ids_cong [OF obj_promote_ok(2) [of m skip ob]]
  by (simp add: obj_ok_def)

lemma set_remove1_sub: "x \<in> set (remove1 i xs) \<Longrightarrow> x \<in> set xs"
  using set_remove1_subset by fast

lemma obj_ok_unlink_waiting: "obj_ok m ob \<Longrightarrow> obj_ok m (ob\<lparr>lo_waiting := unlink_entry i (lo_waiting ob)\<rparr>)"
  using set_remove1_sub [of _ i "map le_id (lo_waiting ob)"]
  by (auto simp: obj_ok_def obj_ids_def unlink_ids simp del: set_map)

lemma obj_ok_unlink_granted: "obj_ok m ob \<Longrightarrow> obj_ok m (ob\<lparr>lo_granted := unlink_entry i (lo_granted ob)\<rparr>)"
  using set_remove1_sub [of _ i "map le_id (lo_granted ob)"] holders_ok_subset [OF _ unlink_subset, of m "lo_granted ob" i]
  by (auto simp: obj_ok_def obj_ids_def unlink_ids simp del: set_map)

lemma obj_ok_release: "obj_ok m ob \<Longrightarrow> obj_ok m (fst (obj_release m skip i ob))"
  by (simp add: obj_release_def obj_ok_promote obj_ok_unlink_waiting obj_ok_unlink_granted)

lemma obj_release_key [simp]: "lo_key (fst (obj_release m skip i ob)) = lo_key ob"
  by (simp add: obj_release_def)

lemma set_first_ids [simp]: "map le_id (set_first_mode locker mode g) = map le_id g"
  by (induction g) auto

lemma obj_ok_raise:
  assumes "obj_ok m ob"
    and "\<And>b. b \<in> set (lo_granted ob) \<Longrightarrow> le_locker b \<noteq> locker \<Longrightarrow> \<not> (conflicts m mode (le_mode b) \<and> conflicts m (le_mode b) mode)"
  shows "obj_ok m (obj_raise locker mode ob)"
  using assms holders_ok_set_first [of m "lo_granted ob" locker mode] by (simp add: obj_ok_def obj_ids_def obj_raise_def)

lemma no_conflict_compatible:
  "\<not> has_conflict_granted m g locker mode \<Longrightarrow> b \<in> set g \<Longrightarrow> le_locker b \<noteq> locker \<Longrightarrow>
    \<not> (conflicts m mode (le_mode b) \<and> conflicts m (le_mode b) mode)"
  by (auto simp: has_conflict_granted_def list_ex_iff)

lemma obj_ok_grant:
  "obj_ok m ob \<Longrightarrow> \<not> has_conflict_granted m (lo_granted ob) (le_locker e) (le_mode e) \<Longrightarrow>
    le_id e \<notin> set (obj_ids ob) \<Longrightarrow> obj_ok m (obj_grant e ob)"
  by (simp add: obj_ok_def obj_grant_def holders_ok_Cons obj_ids_def)

lemma obj_ok_enqueue:
  "obj_ok m ob \<Longrightarrow> le_id e \<notin> set (obj_ids ob) \<Longrightarrow> obj_ok m (obj_enqueue e ob)"
  by (auto simp: obj_ok_def obj_enqueue_def obj_ids_def)

lemma abort_map_ids [simp]:
  "map le_id (map (\<lambda>e. if le_locker e = locker then e\<lparr>le_aborted := True\<rparr> else e) es) = map le_id es"
  by simp

lemma obj_ok_abort: "obj_ok m ob \<Longrightarrow> obj_ok m (fst (obj_abort locker ob))"
  by (simp add: obj_ok_def obj_abort_def obj_ids_def del: map_map)

lemma obj_abort_sel [simp]:
  "lo_key (fst (obj_abort locker ob)) = lo_key ob" "lo_granted (fst (obj_abort locker ob)) = lo_granted ob"
  "size (obj_entries (fst (obj_abort locker ob))) = size (obj_entries ob)"
  by (simp_all add: obj_abort_def obj_entries_def)

text \<open>A release keeps the other holders.\<close>

lemma promote_granted_mono: "promote m skip kept ws g = (q, g', wk) \<Longrightarrow> set g \<subseteq> set g'"
proof (induction m skip kept ws g arbitrary: q g' wk rule: promote.induct)
  case (2 m skip kept w ws g)
  show ?case
  proof (cases "has_conflict_granted m g (le_locker w) (le_mode w)")
    case True
    with "2.prems" show ?thesis by auto
  next
    case False
    then show ?thesis using "2.prems" "2.IH"(1) [OF False] "2.IH"(2) [OF False]
      by (auto split: if_splits prod.splits)
  qed
qed simp

lemma entry_at_iff: "entry_at i es \<noteq> None \<longleftrightarrow> i \<in> set (map le_id es)"
  by (induction es) auto

lemma obj_release_keeps:
  assumes "j \<noteq> i" "entry_at j (lo_granted ob) \<noteq> None"
  shows "entry_at j (lo_granted (fst (obj_release m skip i ob))) \<noteq> None"
proof -
  let ?o = "if entry_at i (lo_granted ob) \<noteq> None then ob\<lparr>lo_granted := unlink_entry i (lo_granted ob)\<rparr>
        else ob\<lparr>lo_waiting := unlink_entry i (lo_waiting ob)\<rparr>"
  have "j \<in> set (map le_id (lo_granted ?o))"
    using assms(1) assms(2) [unfolded entry_at_iff] by (simp add: unlink_ids del: set_map)
  moreover have "set (lo_granted ?o) \<subseteq> set (lo_granted (fst (obj_promote m skip ?o)))"
    using promote_granted_mono [of m skip "[]" "lo_waiting ?o" "lo_granted ?o"]
    by (auto simp: obj_promote_def split: prod.split)
  ultimately have "j \<in> set (map le_id (lo_granted (fst (obj_promote m skip ?o))))" by auto
  then show ?thesis by (simp only: entry_at_iff obj_release_def)
qed

end
