(* ===== verification/Lock_Mgr.thy ===== *)
theory Lock_Mgr
  imports Lock_Queue
begin

text \<open>
  The lock manager (src/src/ptc/lock_mgr.c): partitions of lockable objects, locker
  records, and the operations over them. Every operation runs under its partition's mutex
  and is one function here; a request that has to wait is split at the wait. \<open>do_acquire\<close>
  either finishes or leaves a queued entry behind (\<open>LWait\<close>), and \<open>lock_resume\<close> is one round of
  the wait loop when that waiter runs again. Allocation results, the clock and pending
  kills are arguments. An empty key stands for a null or empty object name.

  \<open>None\<close> as the result of a resume means that the code would unlink, through the wait queue's
  pointers, an entry that is not on that queue.
\<close>

section \<open>State\<close>

datatype victim_policy = VictimDefault | VictimRandom | VictimOldest | VictimYoungest | VictimMinLocks
  | VictimMaxLocks | VictimMinWrite | VictimMaxWrite | VictimExpire | VictimCustom

datatype detect_mode = DetectPeriodic | DetectOnBlock | DetectNone

record lockmgr_opts =
  op_n_partitions :: int
  op_detect_interval_ns :: int
  op_victim :: victim_policy
  op_detect_mode :: detect_mode
  op_victim_pick_fn :: "(nat list \<Rightarrow> int) option"
  op_conflicts :: "bool list option"
  op_n_modes :: int

definition LOCKMGR_OPTS_DEFAULT :: lockmgr_opts where
  "LOCKMGR_OPTS_DEFAULT = \<lparr>op_n_partitions = 64, op_detect_interval_ns = 100000000,
     op_victim = VictimDefault, op_detect_mode = DetectPeriodic, op_victim_pick_fn = None,
     op_conflicts = None, op_n_modes = 0\<rparr>"

record locker_rec =
  lr_id :: nat
  lr_ctime_ns :: int
  lr_timeout_ns :: int
  lr_deadline_ns :: int
  lr_n_held :: int
  lr_n_write_held :: int
  lr_failed :: bool

record lockmgr =
  lm_opts :: lockmgr_opts
  lm_matrix :: lock_matrix
  lm_parts :: "lock_obj list list"
  lm_lockers :: "nat \<Rightarrow> locker_rec list"
  lm_next_locker :: nat
  lm_n_lockers :: int
  lm_n_held :: int
  lm_n_waiting :: int
  lm_n_objects :: int
  lm_n_acquires :: int
  lm_n_releases :: int
  lm_n_deadlocks_found :: int
  lm_n_timeouts :: int
  lm_detector_running :: bool
  lm_woken :: "nat list"

section \<open>Lockers\<close>

definition locker_find :: "lockmgr \<Rightarrow> nat \<Rightarrow> locker_rec option" where
  "locker_find m i = find (\<lambda>r. lr_id r = i) (lm_lockers m (i mod 256))"

definition locker_update :: "lockmgr \<Rightarrow> nat \<Rightarrow> (locker_rec \<Rightarrow> locker_rec) \<Rightarrow> lockmgr" where
  "locker_update m i f = m\<lparr>lm_lockers := (lm_lockers m)(i mod 256 :=
     map (\<lambda>r. if lr_id r = i then f r else r) (lm_lockers m (i mod 256)))\<rparr>"

definition xtc_lockmgr_id :: "xtc_err \<Rightarrow> int \<Rightarrow> lockmgr \<Rightarrow> xtc_err \<times> nat option \<times> lockmgr" where
  "xtc_lockmgr_id calloc_rc now m =
     (if calloc_rc \<noteq> XTC_OK then (calloc_rc, None, m)
      else let i = lm_next_locker m + 1;
               r = \<lparr>lr_id = i, lr_ctime_ns = now, lr_timeout_ns = - 1, lr_deadline_ns = - 1,
                    lr_n_held = 0, lr_n_write_held = 0, lr_failed = False\<rparr> in
        (XTC_OK, Some i, m\<lparr>lm_next_locker := i,
           lm_lockers := (lm_lockers m)(i mod 256 := r # lm_lockers m (i mod 256)),
           lm_n_lockers := lm_n_lockers m + 1\<rparr>))"

definition xtc_lockmgr_id_set_timeout :: "nat \<Rightarrow> int \<Rightarrow> lockmgr \<Rightarrow> xtc_err \<times> lockmgr" where
  "xtc_lockmgr_id_set_timeout i timeout_ns m =
     (if locker_find m i = None then (XTC_E_INVAL, m)
      else (XTC_OK, locker_update m i (\<lambda>r. r\<lparr>lr_timeout_ns := timeout_ns,
        lr_deadline_ns := if timeout_ns < 0 then - 1 else lr_ctime_ns r + timeout_ns\<rparr>)))"

section \<open>Objects\<close>

definition part_of :: "lockmgr \<Rightarrow> lock_key \<Rightarrow> nat" where
  "part_of m key = unat (lock_hash key) mod length (lm_parts m)"

text \<open>Keys are compared by hash, length and bytes: equal keys have equal hashes.\<close>

definition obj_lookup :: "lockmgr \<Rightarrow> lock_key \<Rightarrow> lock_obj option" where
  "obj_lookup m key = find (\<lambda>ob. lo_key ob = key) (lm_parts m ! part_of m key)"

definition set_part :: "lockmgr \<Rightarrow> nat \<Rightarrow> lock_obj list \<Rightarrow> lockmgr" where
  "set_part m p t = m\<lparr>lm_parts := (lm_parts m)[p := t]\<rparr>"

definition set_obj :: "lockmgr \<Rightarrow> lock_obj \<Rightarrow> lockmgr" where
  "set_obj m ob = set_part m (part_of m (lo_key ob))
     (map (\<lambda>x. if lo_key x = lo_key ob then ob else x) (lm_parts m ! part_of m (lo_key ob)))"

definition obj_get :: "bool \<Rightarrow> lock_key \<Rightarrow> lockmgr \<Rightarrow> bool \<times> lockmgr" where
  "obj_get alloc key m =
     (if obj_lookup m key \<noteq> None then (True, m)
      else if \<not> alloc then (False, m)
      else let ob = \<lparr>lo_key = key, lo_granted = [], lo_waiting = []\<rparr>; p = part_of m key in
        (True, (set_part m p (ob # lm_parts m ! p))\<lparr>lm_n_objects := lm_n_objects m + 1\<rparr>))"

definition obj_maybe_free :: "lock_key \<Rightarrow> lockmgr \<Rightarrow> lockmgr" where
  "obj_maybe_free key m = (case obj_lookup m key of None \<Rightarrow> m | Some ob \<Rightarrow>
     if lo_granted ob \<noteq> [] \<or> lo_waiting ob \<noteq> [] then m
     else (set_part m (part_of m key) (filter (\<lambda>x. lo_key x \<noteq> key) (lm_parts m ! part_of m key)))
       \<lparr>lm_n_objects := lm_n_objects m - 1\<rparr>)"

section \<open>Creation\<close>

definition lockmgr_defaults :: "lockmgr_opts \<Rightarrow> lockmgr_opts" where
  "lockmgr_defaults o1 =
     (let o2 = if op_n_partitions o1 \<le> 0 then o1\<lparr>op_n_partitions := 64\<rparr> else o1 in
      if op_detect_interval_ns o2 \<le> 0 then o2\<lparr>op_detect_interval_ns := 100000000\<rparr> else o2)"

definition xtc_lockmgr_create ::
  "xtc_err \<Rightarrow> xtc_err \<Rightarrow> xtc_err \<Rightarrow> bool \<Rightarrow> lockmgr_opts option \<Rightarrow> bool \<Rightarrow> xtc_err \<times> lockmgr option" where
  "xtc_lockmgr_create calloc_rc slab_rc parts_rc thread_ok opts out =
     (if \<not> out then (XTC_E_INVAL, None)
      else if calloc_rc \<noteq> XTC_OK then (calloc_rc, None)
      else let op = lockmgr_defaults (case opts of None \<Rightarrow> LOCKMGR_OPTS_DEFAULT | Some o1 \<Rightarrow> o1);
               mx = (case op_conflicts op of
                       Some c \<Rightarrow> if 0 < op_n_modes op then \<lparr>mx_conflicts = c, mx_n_modes = nat (op_n_modes op)\<rparr>
                                 else default_matrix
                     | None \<Rightarrow> default_matrix) in
        if slab_rc \<noteq> XTC_OK then (slab_rc, None)
        else if parts_rc \<noteq> XTC_OK then (parts_rc, None)
        else (XTC_OK, Some \<lparr>lm_opts = op, lm_matrix = mx,
           lm_parts = replicate (nat (op_n_partitions op)) [], lm_lockers = (\<lambda>_. []),
           lm_next_locker = 0, lm_n_lockers = 0, lm_n_held = 0, lm_n_waiting = 0, lm_n_objects = 0,
           lm_n_acquires = 0, lm_n_releases = 0, lm_n_deadlocks_found = 0, lm_n_timeouts = 0,
           lm_detector_running = (op_detect_mode op = DetectPeriodic \<and> thread_ok), lm_woken = []\<rparr>))"

section \<open>Acquire\<close>

datatype lock_wait = LDone xtc_err | LWait nat

text \<open>Counters of a grant and of a release.\<close>

definition count_grant :: "nat \<Rightarrow> nat \<Rightarrow> lockmgr \<Rightarrow> lockmgr" where
  "count_grant locker mode m = locker_update
     (m\<lparr>lm_n_held := lm_n_held m + 1, lm_n_acquires := lm_n_acquires m + 1\<rparr>) locker
     (\<lambda>r. r\<lparr>lr_n_held := lr_n_held r + 1,
        lr_n_write_held := lr_n_write_held r + of_bool (is_write_mode mode)\<rparr>)"

definition count_release :: "nat \<Rightarrow> nat \<Rightarrow> lockmgr \<Rightarrow> lockmgr" where
  "count_release locker mode m = locker_update
     (m\<lparr>lm_n_held := lm_n_held m - 1, lm_n_releases := lm_n_releases m + 1\<rparr>) locker
     (\<lambda>r. r\<lparr>lr_n_held := lr_n_held r - 1,
        lr_n_write_held := lr_n_write_held r - of_bool (is_write_mode mode)\<rparr>)"

definition count_write :: "nat \<Rightarrow> int \<Rightarrow> lockmgr \<Rightarrow> lockmgr" where
  "count_write locker d m = (if d = 0 then m
     else locker_update m locker (\<lambda>r. r\<lparr>lr_n_write_held := lr_n_write_held r + d\<rparr>))"

definition do_acquire :: "nat option \<Rightarrow> bool \<Rightarrow> lock_obj \<Rightarrow> nat \<Rightarrow> nat \<Rightarrow> int \<Rightarrow> lockmgr \<Rightarrow> lock_wait \<times> lockmgr" where
  "do_acquire slab fiber ob locker mode timeout_ns m =
     (case lock_decide (lm_matrix m) ob locker mode of
        Covered \<Rightarrow> (LDone XTC_OK, m)
      | Raise old \<Rightarrow> (LDone XTC_OK, set_obj (count_write locker (write_delta old mode) m) (obj_raise locker mode ob))
      | Grant \<Rightarrow> (case slab of None \<Rightarrow> (LDone XTC_E_NOMEM, m) | Some i \<Rightarrow>
          (LDone XTC_OK, count_grant locker mode (set_obj m
             (obj_grant \<lparr>le_id = i, le_locker = locker, le_mode = mode, le_fiber = False, le_aborted = False\<rparr> ob))))
      | MustWait \<Rightarrow>
          if timeout_ns = 0 then (LDone XTC_E_AGAIN, m)
          else (case slab of None \<Rightarrow> (LDone XTC_E_NOMEM, m) | Some i \<Rightarrow>
            (LWait i, (set_obj m
               (obj_enqueue \<lparr>le_id = i, le_locker = locker, le_mode = mode, le_fiber = fiber, le_aborted = False\<rparr> ob))
               \<lparr>lm_n_waiting := lm_n_waiting m + 1\<rparr>)))"

definition xtc_lock_get ::
  "bool \<Rightarrow> nat option \<Rightarrow> bool \<Rightarrow> nat \<Rightarrow> lock_key \<Rightarrow> nat \<Rightarrow> int \<Rightarrow> lockmgr \<Rightarrow> lock_wait \<times> lockmgr" where
  "xtc_lock_get alloc slab fiber locker key mode timeout_ns m =
     (if key = [] then (LDone XTC_E_INVAL, m)
      else if mode \<le> XTC_LOCK_NL \<or> mx_n_modes (lm_matrix m) \<le> mode then (LDone XTC_E_INVAL, m)
      else if mode = XTC_LOCK_WAIT then (LDone XTC_E_INVAL, m)
      else case obj_get alloc key m of (ok, m1) \<Rightarrow>
        (case obj_lookup m1 key of None \<Rightarrow> (LDone XTC_E_NOMEM, m1)
         | Some ob \<Rightarrow> do_acquire slab fiber ob locker mode timeout_ns m1))"

section \<open>Release\<close>

definition release_entry :: "(nat \<Rightarrow> bool) \<Rightarrow> lock_key \<Rightarrow> nat \<Rightarrow> lockmgr \<Rightarrow> lockmgr" where
  "release_entry skip key i m = (case obj_lookup m key of None \<Rightarrow> m | Some ob \<Rightarrow>
     let m1 = (case entry_at i (lo_granted ob) of
                 Some e \<Rightarrow> count_release (le_locker e) (le_mode e) m
               | None \<Rightarrow> m\<lparr>lm_n_waiting := lm_n_waiting m - 1\<rparr>) in
     (case obj_release (lm_matrix m) skip i ob of (ob', wk) \<Rightarrow>
        obj_maybe_free key ((set_obj m1 ob')\<lparr>lm_woken := lm_woken m1 @ wk\<rparr>)))"

definition xtc_lock_put :: "(nat \<Rightarrow> bool) \<Rightarrow> nat \<Rightarrow> lock_key \<Rightarrow> lockmgr \<Rightarrow> xtc_err \<times> lockmgr" where
  "xtc_lock_put skip locker key m =
     (if key = [] then (XTC_E_INVAL, m)
      else case obj_lookup m key of None \<Rightarrow> (XTC_E_INVAL, m) | Some ob \<Rightarrow>
        (case find_granted ob locker of None \<Rightarrow> (XTC_E_INVAL, m)
         | Some e \<Rightarrow> (XTC_OK, release_entry skip key (le_id e) m)))"

text \<open>
  One round of the wait loop, and the code after it, for the waiter whose entry is \<open>i\<close>:
  \<open>killed\<close> says that a kill of the waiting process is pending, \<open>expired\<close> that its time is up.
\<close>

definition wait_verdict :: "bool \<Rightarrow> bool \<Rightarrow> bool \<Rightarrow> lock_entry \<Rightarrow> xtc_err option" where
  "wait_verdict killed expired granted e =
     (if killed \<and> le_fiber e then Some XTC_E_ABORTED
      else if le_aborted e then Some XTC_E_DEADLK
      else if granted then Some XTC_OK
      else if expired then Some XTC_E_AGAIN
      else None)"

definition lock_resume ::
  "(nat \<Rightarrow> bool) \<Rightarrow> bool \<Rightarrow> bool \<Rightarrow> lock_key \<Rightarrow> nat \<Rightarrow> lockmgr \<Rightarrow> (lock_wait \<times> lockmgr) option" where
  "lock_resume skip killed expired key i m = (case obj_lookup m key of None \<Rightarrow> None | Some ob \<Rightarrow>
     (case entry_at i (lo_granted ob) of
        Some e \<Rightarrow>
          (case wait_verdict killed expired True e of
             None \<Rightarrow> Some (LWait i, m)
           | Some rc \<Rightarrow>
               let m1 = count_grant (le_locker e) (le_mode e) (m\<lparr>lm_n_waiting := lm_n_waiting m - 1\<rparr>) in
               if rc = XTC_OK then Some (LDone XTC_OK, m1)
               else if rc = XTC_E_ABORTED then Some (LDone XTC_E_ABORTED, release_entry skip key i m1)
               else None)
      | None \<Rightarrow>
          (case entry_at i (lo_waiting ob) of None \<Rightarrow> None | Some e \<Rightarrow>
             (case wait_verdict killed expired False e of
                None \<Rightarrow> Some (LWait i, m)
              | Some rc \<Rightarrow>
                  let m1 = m\<lparr>lm_n_timeouts := lm_n_timeouts m + of_bool (rc = XTC_E_AGAIN),
                             lm_n_waiting := lm_n_waiting m - 1\<rparr> in
                  Some (LDone rc, obj_maybe_free key
                    (set_obj m1 (ob\<lparr>lo_waiting := unlink_entry i (lo_waiting ob)\<rparr>)))))))"

text \<open>
  Giving up everything of a locker on one object: its waiters are aborted first, then its
  granted entries released. The loop reads \<open>e->next\<close> before it releases \<open>e\<close>, and promotion
  pushes at the head, so it visits the entries granted when it started.
\<close>

definition release_locker_obj :: "(nat \<Rightarrow> bool) \<Rightarrow> nat \<Rightarrow> lock_key \<Rightarrow> lockmgr \<Rightarrow> nat \<times> lockmgr" where
  "release_locker_obj skip locker key m = (case obj_lookup m key of None \<Rightarrow> (0, m) | Some ob \<Rightarrow>
     (case obj_abort locker ob of (ob1, wk) \<Rightarrow>
        let ids = map le_id (filter (\<lambda>e. le_locker e = locker) (lo_granted ob)) in
        (length ids, fold (release_entry skip key) ids ((set_obj m ob1)\<lparr>lm_woken := lm_woken m @ wk\<rparr>))))"

fun release_keys :: "(nat \<Rightarrow> bool) \<Rightarrow> nat \<Rightarrow> lock_key list \<Rightarrow> lockmgr \<Rightarrow> nat \<times> lockmgr" where
  "release_keys skip locker [] m = (0, m)"
| "release_keys skip locker (k # ks) m =
     (case release_locker_obj skip locker k m of (n, m1) \<Rightarrow>
        (case release_keys skip locker ks m1 of (n', m2) \<Rightarrow> (n + n', m2)))"

definition release_part :: "(nat \<Rightarrow> bool) \<Rightarrow> nat \<Rightarrow> nat \<Rightarrow> lockmgr \<Rightarrow> nat \<times> lockmgr" where
  "release_part skip locker p m = release_keys skip locker (map lo_key (lm_parts m ! p)) m"

fun release_parts :: "(nat \<Rightarrow> bool) \<Rightarrow> nat \<Rightarrow> nat list \<Rightarrow> lockmgr \<Rightarrow> nat \<times> lockmgr" where
  "release_parts skip locker [] m = (0, m)"
| "release_parts skip locker (p # ps) m =
     (case release_part skip locker p m of (n, m1) \<Rightarrow>
        (case release_parts skip locker ps m1 of (n', m2) \<Rightarrow> (n + n', m2)))"

definition xtc_lock_release_all :: "(nat \<Rightarrow> bool) \<Rightarrow> nat \<Rightarrow> lockmgr \<Rightarrow> nat \<times> lockmgr" where
  "xtc_lock_release_all skip locker m = release_parts skip locker [0..<length (lm_parts m)] m"

definition locker_unlink :: "nat \<Rightarrow> lockmgr \<Rightarrow> xtc_err \<times> lockmgr" where
  "locker_unlink i m =
     (if locker_find m i = None then (XTC_E_INVAL, m)
      else (XTC_OK, m\<lparr>lm_lockers := (lm_lockers m)(i mod 256 :=
        filter (\<lambda>r. lr_id r \<noteq> i) (lm_lockers m (i mod 256))), lm_n_lockers := lm_n_lockers m - 1\<rparr>))"

definition xtc_lockmgr_id_free :: "(nat \<Rightarrow> bool) \<Rightarrow> nat \<Rightarrow> lockmgr \<Rightarrow> xtc_err \<times> lockmgr" where
  "xtc_lockmgr_id_free skip i m = locker_unlink i (snd (xtc_lock_release_all skip i m))"

definition xtc_lockmgr_failchk :: "(nat \<Rightarrow> bool) \<Rightarrow> nat \<Rightarrow> lockmgr \<Rightarrow> xtc_err \<times> lockmgr" where
  "xtc_lockmgr_failchk skip i m =
     (if locker_find m i = None then (XTC_E_INVAL, m)
      else (XTC_OK, snd (xtc_lock_release_all skip i (locker_update m i (\<lambda>r. r\<lparr>lr_failed := True\<rparr>)))))"

section \<open>Upgrade and downgrade\<close>

text \<open>After a granted wait: drop the locker's next-newest entry, the one that was upgraded.\<close>

definition upgrade_drop :: "(nat \<Rightarrow> bool) \<Rightarrow> nat \<Rightarrow> lock_key \<Rightarrow> lockmgr \<Rightarrow> lockmgr" where
  "upgrade_drop skip locker key m = (case obj_lookup m key of None \<Rightarrow> m | Some ob \<Rightarrow>
     (case filter (\<lambda>e. le_locker e = locker) (lo_granted ob) of
        ne # e # es \<Rightarrow> release_entry skip key (le_id e) m
      | es \<Rightarrow> m))"

definition upgrade_bound :: "int \<Rightarrow> nat \<Rightarrow> lockmgr \<Rightarrow> int" where
  "upgrade_bound now locker m = (case locker_find m locker of None \<Rightarrow> - 1 | Some r \<Rightarrow>
     if 0 \<le> lr_deadline_ns r then if lr_deadline_ns r > now then lr_deadline_ns r - now else 0 else - 1)"

definition xtc_lock_upgrade ::
  "(nat \<Rightarrow> bool) \<Rightarrow> nat option \<Rightarrow> bool \<Rightarrow> int \<Rightarrow> nat \<Rightarrow> lock_key \<Rightarrow> nat \<Rightarrow> lockmgr \<Rightarrow> lock_wait \<times> lockmgr" where
  "xtc_lock_upgrade skip slab fiber now locker key new_mode m =
     (if key = [] then (LDone XTC_E_INVAL, m)
      else if new_mode \<le> XTC_LOCK_NL \<or> mx_n_modes (lm_matrix m) \<le> new_mode then (LDone XTC_E_INVAL, m)
      else case obj_lookup m key of None \<Rightarrow> (LDone XTC_E_INVAL, m) | Some ob \<Rightarrow>
        (case find_granted ob locker of None \<Rightarrow> (LDone XTC_E_INVAL, m) | Some cur \<Rightarrow>
           if new_mode = le_mode cur \<or> \<not> dominates (lm_matrix m) new_mode (le_mode cur) then (LDone XTC_E_INVAL, m)
           else if has_conflict_granted (lm_matrix m) (lo_granted ob) locker new_mode then
             (case do_acquire slab fiber ob locker new_mode (upgrade_bound now locker m) m of
                (LDone rc, m1) \<Rightarrow> (LDone rc, if rc = XTC_OK then upgrade_drop skip locker key m1 else m1)
              | (LWait i, m1) \<Rightarrow> (LWait i, m1))
           else (LDone XTC_OK, set_obj (count_write locker (write_delta (le_mode cur) new_mode) m)
             (obj_raise locker new_mode ob))))"

definition upgrade_resume ::
  "(nat \<Rightarrow> bool) \<Rightarrow> bool \<Rightarrow> bool \<Rightarrow> nat \<Rightarrow> lock_key \<Rightarrow> nat \<Rightarrow> lockmgr \<Rightarrow> (lock_wait \<times> lockmgr) option" where
  "upgrade_resume skip killed expired locker key i m =
     map_option (\<lambda>(r, m1). (r, if r = LDone XTC_OK then upgrade_drop skip locker key m1 else m1))
       (lock_resume skip killed expired key i m)"

definition xtc_lock_downgrade :: "nat \<Rightarrow> lock_key \<Rightarrow> nat \<Rightarrow> lockmgr \<Rightarrow> xtc_err \<times> lockmgr" where
  "xtc_lock_downgrade locker key new_mode m =
     (if key = [] then (XTC_E_INVAL, m)
      else if mx_n_modes (lm_matrix m) \<le> new_mode then (XTC_E_INVAL, m)
      else case obj_lookup m key of None \<Rightarrow> (XTC_E_INVAL, m) | Some ob \<Rightarrow>
        (case find_granted ob locker of None \<Rightarrow> (XTC_E_INVAL, m) | Some cur \<Rightarrow>
           if \<not> dominates (lm_matrix m) (le_mode cur) new_mode then (XTC_E_INVAL, m)
           else let m1 = if is_write_mode (le_mode cur) \<and> \<not> is_write_mode new_mode then count_write locker (- 1) m else m in
             (case obj_promote (lm_matrix m) no_skip (obj_raise locker new_mode ob) of (ob', wk) \<Rightarrow>
                (XTC_OK, (set_obj m1 ob')\<lparr>lm_woken := lm_woken m1 @ wk\<rparr>))))"

section \<open>Statistics\<close>

definition xtc_lockmgr_stat :: "lockmgr \<Rightarrow> int list" where
  "xtc_lockmgr_stat m = [lm_n_held m, lm_n_waiting m, lm_n_objects m, lm_n_lockers m,
     lm_n_acquires m, lm_n_releases m, lm_n_deadlocks_found m, lm_n_timeouts m]"

section \<open>The object table\<close>

definition objs :: "lockmgr \<Rightarrow> lock_obj multiset" where
  "objs m = mset (concat (lm_parts m))"

text \<open>Every object sits in its key's partition, once.\<close>

definition keys_ok :: "lockmgr \<Rightarrow> bool" where
  "keys_ok m = (0 < length (lm_parts m) \<and> (\<forall>p < length (lm_parts m).
     distinct (map lo_key (lm_parts m ! p)) \<and> (\<forall>ob \<in> set (lm_parts m ! p). part_of m (lo_key ob) = p)))"

lemma part_of_less: "keys_ok m \<Longrightarrow> part_of m key < length (lm_parts m)"
  by (simp add: keys_ok_def part_of_def)

lemma mset_concat_update:
  "p < length ts \<Longrightarrow> mset (concat (ts[p := t])) + mset (ts ! p) = mset (concat ts) + mset t"
proof (induction ts arbitrary: p)
  case (Cons a ts)
  show ?case
  proof (cases p)
    case (Suc q)
    with Cons.IH [of q] Cons.prems show ?thesis by (simp add: add.assoc)
  qed (simp add: ac_simps)
qed simp

lemma mset_map_replace:
  assumes "distinct (map lo_key t)" "find (\<lambda>x. lo_key x = k) t = Some old"
  shows "add_mset old (mset (map (\<lambda>x. if lo_key x = k then ob else x) t)) = add_mset ob (mset t)"
  using assms
proof (induction t)
  case (Cons a t)
  show ?case
  proof (cases "lo_key a = k")
    case True
    with Cons.prems(1) have n: "k \<notin> lo_key ` set t" by simp
    have "map (\<lambda>x. if lo_key x = k then ob else x) t = t" by (intro map_idI) (use n in auto)
    with True Cons.prems show ?thesis by simp
  next
    case False
    with Cons show ?thesis by (simp add: add_mset_commute)
  qed
qed simp

lemma mset_filter_key:
  assumes "distinct (map lo_key t)" "find (\<lambda>x. lo_key x = k) t = Some old"
  shows "mset t = add_mset old (mset (filter (\<lambda>x. lo_key x \<noteq> k) t))"
  using assms
proof (induction t)
  case (Cons a t)
  show ?case
  proof (cases "lo_key a = k")
    case True
    with Cons.prems(1) have n: "k \<notin> lo_key ` set t" by simp
    have "filter (\<lambda>x. lo_key x \<noteq> k) t = t" by (intro filter_True) (use n in auto)
    with True Cons.prems show ?thesis by simp
  next
    case False
    with Cons show ?thesis by simp
  qed
qed simp

lemma set_part_sel [simp]:
  "length (lm_parts (set_part m p t)) = length (lm_parts m)" "part_of (set_part m p t) key = part_of m key"
  "lm_matrix (set_part m p t) = lm_matrix m"
  by (simp_all add: set_part_def part_of_def)

lemma set_part_keys:
  assumes "keys_ok m" "distinct (map lo_key t)" "\<forall>ob \<in> set t. part_of m (lo_key ob) = p"
  shows "keys_ok (set_part m p t)"
proof -
  have "distinct (map lo_key (lm_parts (set_part m p t) ! q)) \<and>
      (\<forall>ob \<in> set (lm_parts (set_part m p t) ! q). part_of m (lo_key ob) = q)"
    if "q < length (lm_parts m)" for q
    using assms that by (cases "q = p") (simp_all add: keys_ok_def set_part_def)
  with assms(1) show ?thesis by (simp add: keys_ok_def)
qed

lemma set_part_objs:
  assumes "p < length (lm_parts m)"
  shows "objs (set_part m p t) + mset (lm_parts m ! p) = objs m + mset t"
  using mset_concat_update [OF assms] by (simp add: objs_def set_part_def)

lemma lookup_key: "obj_lookup m key = Some ob \<Longrightarrow> lo_key ob = key"
  by (simp add: obj_lookup_def find_Some_iff) blast

lemma lookup_mem:
  assumes "keys_ok m" "obj_lookup m key = Some ob"
  shows "ob \<in># objs m"
proof -
  from assms(2) have "ob \<in> set (lm_parts m ! part_of m key)"
    by (auto simp: obj_lookup_def find_Some_iff)
  moreover have "lm_parts m ! part_of m key \<in> set (lm_parts m)" using part_of_less [OF assms(1)] by (rule nth_mem)
  ultimately show ?thesis by (auto simp: objs_def)
qed

lemma set_obj_ok:
  assumes k: "keys_ok m" and l: "obj_lookup m key = Some old" and o: "lo_key ob = key"
  shows "keys_ok (set_obj m ob)" "add_mset old (objs (set_obj m ob)) = add_mset ob (objs m)"
    "obj_lookup (set_obj m ob) key = Some ob" "lm_matrix (set_obj m ob) = lm_matrix m"
proof -
  let ?p = "part_of m key" and ?f = "\<lambda>x. if lo_key x = key then ob else x"
  note pl = part_of_less [OF k, of key]
  have d: "distinct (map lo_key (lm_parts m ! ?p))" "\<forall>x \<in> set (lm_parts m ! ?p). part_of m (lo_key x) = ?p"
    using k pl by (simp_all add: keys_ok_def)
  have s: "set_obj m ob = set_part m ?p (map ?f (lm_parts m ! ?p))" by (simp add: set_obj_def o)
  have mk: "map lo_key (map ?f (lm_parts m ! ?p)) = map lo_key (lm_parts m ! ?p)"
    using o by (auto simp: o_def)
  show "keys_ok (set_obj m ob)"
    unfolding s
  proof (rule set_part_keys [OF k])
    show "distinct (map lo_key (map ?f (lm_parts m ! ?p)))" unfolding mk by (rule d(1))
    show "\<forall>x \<in> set (map ?f (lm_parts m ! ?p)). part_of m (lo_key x) = ?p" using d(2) o by auto
  qed
  have f: "find (\<lambda>x. lo_key x = key) (lm_parts m ! ?p) = Some old" using l by (simp add: obj_lookup_def)
  have "objs (set_obj m ob) + mset (lm_parts m ! ?p) + {#old#} = objs m + (mset (map ?f (lm_parts m ! ?p)) + {#old#})"
    using set_part_objs [OF pl, of "map ?f (lm_parts m ! ?p)"] by (simp add: s ac_simps del: mset_map)
  also have "\<dots> = objs m + mset (lm_parts m ! ?p) + {#ob#}"
    using mset_map_replace [OF d(1) f, of ob] by (simp add: ac_simps del: mset_map)
  finally show "add_mset old (objs (set_obj m ob)) = add_mset ob (objs m)"
    by (simp add: ac_simps)
  have "find (\<lambda>x. lo_key x = key) (map ?f t) = Some ob" if "find (\<lambda>x. lo_key x = key) t = Some y" for t y
    using that o by (induction t) (auto split: if_splits)
  then show "obj_lookup (set_obj m ob) key = Some ob"
    using f pl by (simp add: obj_lookup_def s) (simp add: set_part_def)
  show "lm_matrix (set_obj m ob) = lm_matrix m" by (simp add: s)
qed

lemma table_cong:
  assumes "lm_parts m' = lm_parts m"
  shows "objs m' = objs m" "keys_ok m' = keys_ok m" "obj_lookup m' key = obj_lookup m key" "part_of m' key = part_of m key"
proof -
  show p: "part_of m' key = part_of m key" for key using assms by (simp add: part_of_def)
  show "objs m' = objs m" "keys_ok m' = keys_ok m" "obj_lookup m' key = obj_lookup m key"
    using assms by (simp_all add: objs_def keys_ok_def obj_lookup_def p)
qed

lemma locker_update_sel [simp]:
  "lm_parts (locker_update m i f) = lm_parts m" "lm_matrix (locker_update m i f) = lm_matrix m"
  "lm_n_held (locker_update m i f) = lm_n_held m" "lm_n_waiting (locker_update m i f) = lm_n_waiting m"
  "lm_n_objects (locker_update m i f) = lm_n_objects m" "lm_n_acquires (locker_update m i f) = lm_n_acquires m"
  "lm_n_releases (locker_update m i f) = lm_n_releases m" "lm_opts (locker_update m i f) = lm_opts m"
  by (simp_all add: locker_update_def)

lemma set_obj_sel [simp]:
  "lm_n_held (set_obj m ob) = lm_n_held m" "lm_n_waiting (set_obj m ob) = lm_n_waiting m"
  "lm_n_objects (set_obj m ob) = lm_n_objects m" "lm_n_acquires (set_obj m ob) = lm_n_acquires m"
  "lm_n_releases (set_obj m ob) = lm_n_releases m" "lm_opts (set_obj m ob) = lm_opts m"
  "lm_matrix (set_obj m ob) = lm_matrix m" "length (lm_parts (set_obj m ob)) = length (lm_parts m)"
  by (simp_all add: set_obj_def set_part_def)

lemma count_sel [simp]:
  "lm_parts (count_grant l k m) = lm_parts m" "lm_matrix (count_grant l k m) = lm_matrix m"
  "lm_n_held (count_grant l k m) = lm_n_held m + 1" "lm_n_waiting (count_grant l k m) = lm_n_waiting m"
  "lm_n_objects (count_grant l k m) = lm_n_objects m" "lm_n_acquires (count_grant l k m) = lm_n_acquires m + 1"
  "lm_n_releases (count_grant l k m) = lm_n_releases m"
  "lm_parts (count_release l k m) = lm_parts m" "lm_matrix (count_release l k m) = lm_matrix m"
  "lm_n_held (count_release l k m) = lm_n_held m - 1" "lm_n_waiting (count_release l k m) = lm_n_waiting m"
  "lm_n_objects (count_release l k m) = lm_n_objects m" "lm_n_acquires (count_release l k m) = lm_n_acquires m"
  "lm_n_releases (count_release l k m) = lm_n_releases m + 1"
  "lm_parts (count_write l d m) = lm_parts m" "lm_matrix (count_write l d m) = lm_matrix m"
  "lm_n_held (count_write l d m) = lm_n_held m" "lm_n_waiting (count_write l d m) = lm_n_waiting m"
  "lm_n_objects (count_write l d m) = lm_n_objects m" "lm_n_acquires (count_write l d m) = lm_n_acquires m"
  "lm_n_releases (count_write l d m) = lm_n_releases m"
  by (simp_all add: count_grant_def count_release_def count_write_def)

section \<open>The invariant\<close>

definition total_entries :: "lockmgr \<Rightarrow> nat" where
  "total_entries m = (\<Sum>ob \<in># objs m. size (obj_entries ob))"

definition lm_table :: "lockmgr \<Rightarrow> bool" where
  "lm_table m = (keys_ok m \<and> (\<forall>ob \<in># objs m. obj_ok (lm_matrix m) ob))"

text \<open>
  A granted waiter counts as waiting until it runs again, so the two counters together
  are the entries of all queues.
\<close>

definition lm_counts :: "lockmgr \<Rightarrow> bool" where
  "lm_counts m = (lm_n_held m + lm_n_waiting m = int (total_entries m) \<and>
     lm_n_objects m = int (size (objs m)) \<and> lm_n_held m = lm_n_acquires m - lm_n_releases m)"

definition lm_inv :: "lockmgr \<Rightarrow> bool" where
  "lm_inv m = (lm_table m \<and> lm_counts m)"

lemma table_inv_cong:
  assumes "lm_parts m' = lm_parts m" "lm_matrix m' = lm_matrix m"
  shows "lm_table m' = lm_table m" "total_entries m' = total_entries m"
  using assms table_cong [OF assms(1)] by (simp_all add: lm_table_def total_entries_def)

lemma set_obj_inv:
  assumes t: "lm_table m" and l: "obj_lookup m key = Some old" and k: "lo_key ob = key"
    and h: "obj_ok (lm_matrix m) ob"
  shows "lm_table (set_obj m ob)" "size (objs (set_obj m ob)) = size (objs m)"
    "total_entries (set_obj m ob) + size (obj_entries old) = total_entries m + size (obj_entries ob)"
    "obj_lookup (set_obj m ob) key = Some ob"
proof -
  from t have ko: "keys_ok m" by (simp add: lm_table_def)
  note s = set_obj_ok [OF ko l k]
  have "x \<in># add_mset ob (objs m)" if "x \<in># objs (set_obj m ob)" for x
    using that by (subst s(2) [symmetric]) simp
  with t h s(1) show "lm_table (set_obj m ob)" by (auto simp: lm_table_def)
  show "size (objs (set_obj m ob)) = size (objs m)" using arg_cong [OF s(2), of size] by simp
  show "total_entries (set_obj m ob) + size (obj_entries old) = total_entries m + size (obj_entries ob)"
    using arg_cong [OF s(2), of "\<lambda>M. \<Sum>x \<in># M. size (obj_entries x)"] by (simp add: total_entries_def)
  show "obj_lookup (set_obj m ob) key = Some ob" by (rule s(3))
qed

lemma lookup_ok:
  assumes "lm_table m" "obj_lookup m key = Some ob"
  shows "obj_ok (lm_matrix m) ob"
  using assms lookup_mem [of m key ob] by (simp add: lm_table_def)

lemma obj_get_ok:
  assumes "lm_inv m"
  shows "lm_inv (snd (obj_get alloc key m))" "lm_matrix (snd (obj_get alloc key m)) = lm_matrix m"
    "fst (obj_get alloc key m) = (obj_lookup (snd (obj_get alloc key m)) key \<noteq> None)"
proof -
  let ?ob = "\<lparr>lo_key = key, lo_granted = [], lo_waiting = []\<rparr> :: lock_obj"
  let ?p = "part_of m key"
  let ?s = "set_part m ?p (?ob # lm_parts m ! ?p)"
  let ?m = "?s\<lparr>lm_n_objects := lm_n_objects m + 1\<rparr>"
  from assms have k: "keys_ok m" by (simp add: lm_inv_def lm_table_def)
  note pl = part_of_less [OF k, of key]
  have new: "lm_inv ?m" "obj_lookup ?m key \<noteq> None" if "obj_lookup m key = None"
  proof -
    have d: "distinct (map lo_key (lm_parts m ! ?p))" "\<forall>x \<in> set (lm_parts m ! ?p). part_of m (lo_key x) = ?p"
      using k pl by (simp_all add: keys_ok_def)
    have "key \<notin> lo_key ` set (lm_parts m ! ?p)" using that by (auto simp: obj_lookup_def find_None_iff)
    then have ks: "keys_ok ?s" using d by (intro set_part_keys [OF k]) auto
    have ob: "objs ?s = add_mset ?ob (objs m)"
      using set_part_objs [OF pl, of "?ob # lm_parts m ! ?p"] by simp
    have pp: "lm_parts ?m = lm_parts ?s" by simp
    note c = table_cong [OF pp]
    have fl: "lm_matrix ?m = lm_matrix m" "lm_n_held ?m = lm_n_held m" "lm_n_waiting ?m = lm_n_waiting m"
      "lm_n_objects ?m = lm_n_objects m + 1" "lm_n_acquires ?m = lm_n_acquires m" "lm_n_releases ?m = lm_n_releases m"
      by (simp_all add: set_part_def)
    have ob': "objs ?m = add_mset ?ob (objs m)" using c(1) ob by simp
    have te: "total_entries ?m = total_entries m" unfolding total_entries_def ob' by (simp add: obj_entries_def)
    have "obj_ok (lm_matrix m) ?ob" by (simp add: obj_ok_def holders_ok_def obj_ids_def)
    then have "lm_table ?m" using assms ks unfolding lm_table_def c(2) ob' fl by (simp add: lm_inv_def lm_table_def)
    moreover have "lm_counts ?m" using assms unfolding lm_counts_def te ob' fl by (simp add: lm_inv_def lm_counts_def)
    ultimately show "lm_inv ?m" by (simp add: lm_inv_def)
    show "obj_lookup ?m key \<noteq> None" using pl unfolding c(3) by (simp add: obj_lookup_def) (simp add: set_part_def)
  qed
  show "lm_inv (snd (obj_get alloc key m))" "lm_matrix (snd (obj_get alloc key m)) = lm_matrix m"
    "fst (obj_get alloc key m) = (obj_lookup (snd (obj_get alloc key m)) key \<noteq> None)"
    using assms new by (simp_all add: obj_get_def Let_def)
qed

lemma obj_maybe_free_ok:
  assumes "lm_inv m"
  shows "lm_inv (obj_maybe_free key m)" "lm_matrix (obj_maybe_free key m) = lm_matrix m"
    "length (lm_parts (obj_maybe_free key m)) = length (lm_parts m)"
proof -
  let ?p = "part_of m key"
  let ?s = "set_part m ?p (filter (\<lambda>x. lo_key x \<noteq> key) (lm_parts m ! ?p))"
  let ?m = "?s\<lparr>lm_n_objects := lm_n_objects m - 1\<rparr>"
  from assms have k: "keys_ok m" by (simp add: lm_inv_def lm_table_def)
  note pl = part_of_less [OF k, of key]
  have free: "lm_inv ?m" if l: "obj_lookup m key = Some ob" and e: "lo_granted ob = []" "lo_waiting ob = []" for ob
  proof -
    have d: "distinct (map lo_key (lm_parts m ! ?p))" "\<forall>x \<in> set (lm_parts m ! ?p). part_of m (lo_key x) = ?p"
      using k pl by (simp_all add: keys_ok_def)
    have ks: "keys_ok ?s"
    proof (rule set_part_keys [OF k])
      show "distinct (map lo_key (filter (\<lambda>x. lo_key x \<noteq> key) (lm_parts m ! ?p)))"
        by (rule distinct_map_filter [OF d(1)])
      show "\<forall>ob \<in> set (filter (\<lambda>x. lo_key x \<noteq> key) (lm_parts m ! ?p)). part_of m (lo_key ob) = ?p"
        using d(2) by simp
    qed
    have f: "find (\<lambda>x. lo_key x = key) (lm_parts m ! ?p) = Some ob" using l by (simp add: obj_lookup_def)
    have ob: "objs m = add_mset ob (objs ?s)"
    proof -
      have cancel: "M = add_mset ob N" if "N + T = M + F" "T = add_mset ob F" for M N T F :: "lock_obj multiset"
        using that by simp
      show ?thesis by (rule cancel [OF set_part_objs [OF pl] mset_filter_key [OF d(1) f]])
    qed
    have pp: "lm_parts ?m = lm_parts ?s" by simp
    note c = table_cong [OF pp]
    have fl: "lm_matrix ?m = lm_matrix m" "lm_n_held ?m = lm_n_held m" "lm_n_waiting ?m = lm_n_waiting m"
      "lm_n_objects ?m = lm_n_objects m - 1" "lm_n_acquires ?m = lm_n_acquires m" "lm_n_releases ?m = lm_n_releases m"
      by (simp_all add: set_part_def)
    from e have z: "obj_entries ob = {#}" by (simp add: obj_entries_def)
    have te: "total_entries ?m = total_entries m" unfolding total_entries_def c(1) ob by (simp add: z)
    have "lm_table ?m" using assms ks unfolding lm_table_def c(1,2) fl by (simp add: lm_inv_def lm_table_def ob)
    moreover have "lm_counts ?m" using assms unfolding lm_counts_def te c(1) fl by (simp add: lm_inv_def lm_counts_def ob)
    ultimately show ?thesis by (simp add: lm_inv_def)
  qed
  show "lm_inv (obj_maybe_free key m)"
  proof (cases "obj_lookup m key")
    case (Some ob)
    then show ?thesis using assms free [OF Some]
      by (cases "lo_granted ob = [] \<and> lo_waiting ob = []") (simp_all add: obj_maybe_free_def)
  qed (use assms in \<open>simp add: obj_maybe_free_def\<close>)
  show "lm_matrix (obj_maybe_free key m) = lm_matrix m" "length (lm_parts (obj_maybe_free key m)) = length (lm_parts m)"
    by (simp_all add: obj_maybe_free_def split: option.split)
qed

section \<open>Every operation keeps the invariant\<close>

text \<open>One object is replaced and the counters move with its entries.\<close>

lemma inv_set_obj:
  assumes inv: "lm_inv m" and l: "obj_lookup m key = Some old" and k: "lo_key ob = key"
    and h: "obj_ok (lm_matrix m) ob"
    and p: "lm_parts m' = lm_parts (set_obj m ob)" "lm_matrix m' = lm_matrix m" "lm_n_objects m' = lm_n_objects m"
    and n: "lm_n_held m' + lm_n_waiting m' = lm_n_held m + lm_n_waiting m + int (size (obj_entries ob)) - int (size (obj_entries old))"
      "lm_n_held m' - lm_n_held m = (lm_n_acquires m' - lm_n_acquires m) - (lm_n_releases m' - lm_n_releases m)"
  shows "lm_inv m'"
proof -
  from inv have t: "lm_table m" by (simp add: lm_inv_def)
  note s = set_obj_inv [OF t l k h]
  have x: "lm_matrix m' = lm_matrix (set_obj m ob)" using p(2) by simp
  note c = table_inv_cong [OF p(1) x] table_cong(1) [OF p(1)]
  have "lm_table m'" using s(1) c(1) by simp
  moreover have "lm_counts m'"
    using inv n s(2,3) p(3) unfolding lm_inv_def lm_counts_def c(2,3) by linarith
  ultimately show ?thesis by (simp add: lm_inv_def)
qed

lemma inv_cong:
  assumes "lm_inv m" "lm_parts m' = lm_parts m" "lm_matrix m' = lm_matrix m" "lm_n_objects m' = lm_n_objects m"
    and "lm_n_held m' + lm_n_waiting m' = lm_n_held m + lm_n_waiting m"
    and "lm_n_held m' - lm_n_held m = (lm_n_acquires m' - lm_n_acquires m) - (lm_n_releases m' - lm_n_releases m)"
  shows "lm_inv m'"
  using assms table_inv_cong [OF assms(2,3)] table_cong(1) [OF assms(2)]
  by (simp add: lm_inv_def lm_counts_def)

lemma set_obj_parts: "lm_parts m' = lm_parts m \<Longrightarrow> lm_parts (set_obj m' ob) = lm_parts (set_obj m ob)"
  by (simp add: set_obj_def set_part_def part_of_def)

lemma obj_parts_length [simp]:
  "size (obj_entries (obj_raise l k ob)) = size (obj_entries ob)"
  "size (obj_entries (obj_grant e ob)) = Suc (size (obj_entries ob))"
  "size (obj_entries (obj_enqueue e ob)) = Suc (size (obj_entries ob))"
  "lo_key (obj_raise l k ob) = lo_key ob" "lo_key (obj_grant e ob) = lo_key ob" "lo_key (obj_enqueue e ob) = lo_key ob"
  "lo_granted (obj_enqueue e ob) = lo_granted ob" "lo_granted (obj_grant e ob) = e # lo_granted ob"
  by (simp_all add: obj_entries_def obj_raise_def obj_grant_def obj_enqueue_def)

lemma decide_free:
  assumes "lock_decide mx ob locker mode = Raise old \<or> lock_decide mx ob locker mode = Grant"
  shows "\<not> has_conflict_granted mx (lo_granted ob) locker mode"
  using assms by (auto simp: lock_decide_def Let_def split: option.splits if_splits)

text \<open>The slab hands out addresses that no entry of the manager has.\<close>

definition slab_fresh :: "nat option \<Rightarrow> lockmgr \<Rightarrow> bool" where
  "slab_fresh slab m = (case slab of None \<Rightarrow> True
     | Some i \<Rightarrow> list_all (list_all (\<lambda>ob. i \<notin> set (obj_ids ob))) (lm_parts m))"

lemma slab_fresh_obj:
  assumes "slab_fresh (Some i) m" "keys_ok m" "obj_lookup m key = Some ob"
  shows "i \<notin> set (obj_ids ob)"
  using assms lookup_mem [OF assms(2,3)] by (auto simp: slab_fresh_def objs_def list_all_iff)

lemma do_acquire_inv:
  assumes inv: "lm_inv m" and l: "obj_lookup m key = Some ob" and fresh: "slab_fresh slab m"
  shows "lm_inv (snd (do_acquire slab fiber ob locker mode timeout_ns m))"
proof -
  have t: "lm_table m" and ko: "keys_ok m" using inv by (simp_all add: lm_inv_def lm_table_def)
  note h = lookup_ok [OF t l] and k = lookup_key [OF l]
  show ?thesis
  proof (cases "lock_decide (lm_matrix m) ob locker mode")
    case Covered
    with inv show ?thesis by (simp add: do_acquire_def)
  next
    case (Raise old)
    then have "\<not> has_conflict_granted (lm_matrix m) (lo_granted ob) locker mode" using decide_free by blast
    from obj_ok_raise [OF h no_conflict_compatible [OF this]]
    have g: "obj_ok (lm_matrix m) (obj_raise locker mode ob)" by blast
    have "lm_parts (count_write locker (write_delta old mode) m) = lm_parts m" by simp
    note sp = set_obj_parts [OF this]
    show ?thesis using Raise k by (intro inv_set_obj [OF inv l _ g]) (simp_all add: do_acquire_def sp)
  next
    case Grant
    then have "\<not> has_conflict_granted (lm_matrix m) (lo_granted ob) locker mode" using decide_free by blast
    then have g: "i \<notin> set (obj_ids ob) \<Longrightarrow> obj_ok (lm_matrix m) (obj_grant
        \<lparr>le_id = i, le_locker = locker, le_mode = mode, le_fiber = False, le_aborted = False\<rparr> ob)" for i
      using h by (intro obj_ok_grant) simp_all
    show ?thesis
    proof (cases slab)
      case None
      with Grant inv show ?thesis by (simp add: do_acquire_def)
    next
      case (Some i)
      from fresh Some have "i \<notin> set (obj_ids ob)" using slab_fresh_obj [OF _ ko l] by simp
      note gi = g [OF this]
      show ?thesis using Grant Some k by (intro inv_set_obj [OF inv l _ gi]) (simp_all add: do_acquire_def)
    qed
  next
    case MustWait
    show ?thesis
    proof (cases "timeout_ns = 0 \<or> slab = None")
      case True
      with MustWait inv show ?thesis by (auto simp: do_acquire_def)
    next
      case False
      then obtain i where i: "slab = Some i" "timeout_ns \<noteq> 0" by auto
      let ?e = "\<lparr>le_id = i, le_locker = locker, le_mode = mode, le_fiber = fiber, le_aborted = False\<rparr>"
      from fresh i have "i \<notin> set (obj_ids ob)" using slab_fresh_obj [OF _ ko l] by simp
      then have g: "obj_ok (lm_matrix m) (obj_enqueue ?e ob)" using h by (intro obj_ok_enqueue) simp_all
      show ?thesis using MustWait i k by (intro inv_set_obj [OF inv l _ g]) (simp_all add: do_acquire_def)
    qed
  qed
qed

lemma obj_get_fresh:
  assumes "slab_fresh slab m"
  shows "slab_fresh slab (snd (obj_get alloc key m))"
proof (cases "slab = None \<or> obj_lookup m key \<noteq> None \<or> \<not> alloc")
  case True
  then consider "slab = None" | "snd (obj_get alloc key m) = m" by (auto simp: obj_get_def)
  then show ?thesis using assms by cases (simp_all add: slab_fresh_def)
next
  case False
  then obtain i where i: "slab = Some i" and c: "obj_lookup m key = None" alloc by auto
  let ?p = "part_of m key" and ?ob = "\<lparr>lo_key = key, lo_granted = [], lo_waiting = []\<rparr> :: lock_obj"
  have old: "i \<notin> set (obj_ids ob)" if "t \<in> set (lm_parts m)" "ob \<in> set t" for t ob
    using assms i that by (auto simp: slab_fresh_def list_all_iff)
  have "i \<notin> set (obj_ids ob)" if t: "t \<in> set ((lm_parts m)[?p := ?ob # lm_parts m ! ?p])" and ob: "ob \<in> set t" for t ob
  proof (cases "t \<in> set (lm_parts m)")
    case True
    with old ob show ?thesis by blast
  next
    case False
    with t have e: "t = ?ob # lm_parts m ! ?p" using set_update_subset_insert [of "lm_parts m" ?p] by blast
    have "lm_parts m \<noteq> []" using t by auto
    then have "lm_parts m ! ?p \<in> set (lm_parts m)" by (simp add: part_of_def)
    with old ob e show ?thesis by (auto simp: obj_ids_def)
  qed
  with c i show ?thesis by (simp add: obj_get_def Let_def slab_fresh_def set_part_def list_all_iff)
qed

lemma xtc_lock_get_inv:
  "lm_inv m \<Longrightarrow> slab_fresh slab m \<Longrightarrow> lm_inv (snd (xtc_lock_get alloc slab fiber locker key mode timeout_ns m))"
  using obj_get_ok(1) [of m alloc key] do_acquire_inv [of "snd (obj_get alloc key m)" key] obj_get_fresh [of slab m alloc key]
  by (simp add: xtc_lock_get_def split_beta split: option.split)

lemma release_entry_inv:
  assumes inv: "lm_inv m"
    and i: "\<And>ob. obj_lookup m key = Some ob \<Longrightarrow> entry_at i (lo_granted ob) \<noteq> None \<or> entry_at i (lo_waiting ob) \<noteq> None"
  shows "lm_inv (release_entry skip key i m)"
proof (cases "obj_lookup m key")
  case None
  with inv show ?thesis by (simp add: release_entry_def)
next
  case (Some ob)
  have t: "lm_table m" using inv by (simp add: lm_inv_def)
  note h = lookup_ok [OF t Some] and k = lookup_key [OF Some]
  note r = obj_ok_release [OF h, of skip i] obj_release_size [OF i [OF Some], of "lm_matrix m" skip]
  define m1 where "m1 = (case entry_at i (lo_granted ob) of
      Some e \<Rightarrow> count_release (le_locker e) (le_mode e) m | None \<Rightarrow> m\<lparr>lm_n_waiting := lm_n_waiting m - 1\<rparr>)"
  have m1: "lm_parts m1 = lm_parts m" "lm_matrix m1 = lm_matrix m" "lm_n_objects m1 = lm_n_objects m"
    "lm_n_held m1 + lm_n_waiting m1 = lm_n_held m + lm_n_waiting m - 1"
    "lm_n_held m1 - lm_n_held m = (lm_n_acquires m1 - lm_n_acquires m) - (lm_n_releases m1 - lm_n_releases m)"
    by (simp_all add: m1_def split: option.split)
  obtain ob' wk where o': "obj_release (lm_matrix m) skip i ob = (ob', wk)" by fastforce
  have e: "release_entry skip key i m = obj_maybe_free key ((set_obj m1 ob')\<lparr>lm_woken := lm_woken m1 @ wk\<rparr>)"
    using Some by (simp add: release_entry_def o' m1_def Let_def)
  have "lm_inv ((set_obj m1 ob')\<lparr>lm_woken := lm_woken m1 @ wk\<rparr>)"
    using r o' k m1 obj_release_key [of "lm_matrix m" skip i ob]
    by (intro inv_set_obj [OF inv Some, of ob']) (simp_all add: set_obj_parts [OF m1(1)])
  then show ?thesis unfolding e by (rule obj_maybe_free_ok(1))
qed

lemma xtc_lock_put_inv: "lm_inv m \<Longrightarrow> lm_inv (snd (xtc_lock_put skip locker key m))"
proof (cases "obj_lookup m key")
  case (Some ob)
  assume inv: "lm_inv m"
  show ?thesis
  proof (cases "find_granted ob locker")
    case None
    with inv Some show ?thesis by (simp add: xtc_lock_put_def)
  next
    case (Some e)
    then have "e \<in> set (lo_granted ob)" by (auto simp: find_granted_def find_Some_iff)
    then have "entry_at (le_id e) (lo_granted ob) \<noteq> None" by (subst entry_at_iff) simp
    then have "lm_inv (release_entry skip key (le_id e) m)"
      using \<open>obj_lookup m key = Some ob\<close> by (intro release_entry_inv [OF inv]) simp
    with inv Some \<open>obj_lookup m key = Some ob\<close> show ?thesis by (simp add: xtc_lock_put_def)
  qed
qed (simp add: xtc_lock_put_def)

lemma lock_resume_inv:
  assumes inv: "lm_inv m" and r: "lock_resume skip killed expired key i m = Some (w, m')"
  shows "lm_inv m'"
proof -
  from r obtain ob where l: "obj_lookup m key = Some ob" by (auto simp: lock_resume_def split: option.splits)
  have t: "lm_table m" using inv by (simp add: lm_inv_def)
  note h = lookup_ok [OF t l] and k = lookup_key [OF l]
  show ?thesis
  proof (cases "entry_at i (lo_granted ob)")
    case (Some e)
    let ?m = "count_grant (le_locker e) (le_mode e) (m\<lparr>lm_n_waiting := lm_n_waiting m - 1\<rparr>)"
    have "lm_inv ?m" by (rule inv_cong [OF inv]) simp_all
    moreover have "obj_lookup ?m key = obj_lookup m key" by (rule table_cong(3)) simp
    ultimately have "lm_inv ?m" "lm_inv (release_entry skip key i ?m)"
      using l Some by (auto intro: release_entry_inv)
    with r l Some inv show ?thesis
      by (auto simp: lock_resume_def Let_def split: option.splits if_splits)
  next
    case None
    with r l obtain e where e: "entry_at i (lo_waiting ob) = Some e"
      by (auto simp: lock_resume_def split: option.splits)
    let ?ob = "ob\<lparr>lo_waiting := unlink_entry i (lo_waiting ob)\<rparr>"
    have "Suc 0 \<le> length (lo_waiting ob)" using entry_at_pos [of i "lo_waiting ob"] e by (simp add: Suc_le_eq)
    then have sz: "int (size (obj_entries ?ob)) = int (size (obj_entries ob)) - 1"
      using e by (simp add: obj_entries_def unlink_length of_nat_diff)
    have "lm_inv (set_obj (m\<lparr>lm_n_timeouts := n, lm_n_waiting := lm_n_waiting m - 1\<rparr>) ?ob)" for n
    proof -
      have "lm_parts (m\<lparr>lm_n_timeouts := n, lm_n_waiting := lm_n_waiting m - 1\<rparr>) = lm_parts m" by simp
      note sp = set_obj_parts [OF this]
      show ?thesis using k sz obj_ok_unlink_waiting [OF h, of i]
        by (intro inv_set_obj [OF inv l, of ?ob]) (simp_all add: sp)
    qed
    from obj_maybe_free_ok(1) [OF this] r l None e inv show ?thesis
      by (auto simp: lock_resume_def Let_def split: option.splits)
  qed
qed

text \<open>Releasing a locker's entries one after the other: each is still there when its turn comes.\<close>

lemma maybe_free_keeps:
  assumes "obj_lookup m key = Some ob" "lo_granted ob \<noteq> []"
  shows "obj_maybe_free key m = m"
  using assms by (simp add: obj_maybe_free_def)

lemma release_entry_keeps:
  assumes inv: "lm_inv m" and l: "obj_lookup m key = Some ob"
    and j: "j \<noteq> i" "entry_at j (lo_granted ob) \<noteq> None"
  shows "\<exists>ob'. obj_lookup (release_entry skip key i m) key = Some ob' \<and> entry_at j (lo_granted ob') \<noteq> None"
proof -
  define m1 where "m1 = (case entry_at i (lo_granted ob) of
      Some e \<Rightarrow> count_release (le_locker e) (le_mode e) m | None \<Rightarrow> m\<lparr>lm_n_waiting := lm_n_waiting m - 1\<rparr>)"
  have m1: "lm_parts m1 = lm_parts m" by (simp add: m1_def split: option.split)
  obtain ob' wk where o': "obj_release (lm_matrix m) skip i ob = (ob', wk)" by fastforce
  let ?n = "(set_obj m1 ob')\<lparr>lm_woken := lm_woken m1 @ wk\<rparr>"
  have e: "release_entry skip key i m = obj_maybe_free key ?n"
    using l by (simp add: release_entry_def o' m1_def Let_def)
  have ej: "entry_at j (lo_granted ob') \<noteq> None" using obj_release_keeps [OF j, of "lm_matrix m" skip] o' by simp
  have ko: "keys_ok m" using inv by (simp add: lm_inv_def lm_table_def)
  have k: "lo_key ob' = key" using lookup_key [OF l] obj_release_key [of "lm_matrix m" skip i ob] o' by simp
  have "obj_lookup ?n key = obj_lookup (set_obj m ob') key"
    by (rule table_cong(3)) (simp add: set_obj_parts [OF m1])
  then have n: "obj_lookup ?n key = Some ob'" using set_obj_ok(3) [OF ko l k] by simp
  have "lo_granted ob' \<noteq> []" using entry_at_pos [OF ej] by simp
  from maybe_free_keeps [OF n this] e n ej show ?thesis by auto
qed

lemma release_fold_inv:
  "lm_inv m \<Longrightarrow> distinct ids \<Longrightarrow>
    (\<forall>i \<in> set ids. \<exists>ob. obj_lookup m key = Some ob \<and> entry_at i (lo_granted ob) \<noteq> None) \<Longrightarrow>
    lm_inv (fold (release_entry skip key) ids m)"
proof (induction ids arbitrary: m)
  case (Cons i ids)
  from Cons.prems(3) obtain ob where l: "obj_lookup m key = Some ob" "entry_at i (lo_granted ob) \<noteq> None" by auto
  then have "lm_inv (release_entry skip key i m)" by (intro release_entry_inv [OF Cons.prems(1)]) auto
  moreover have "\<exists>ob'. obj_lookup (release_entry skip key i m) key = Some ob' \<and> entry_at j (lo_granted ob') \<noteq> None"
    if "j \<in> set ids" for j
    using that Cons.prems(2,3) l(1) by (intro release_entry_keeps [OF Cons.prems(1) l(1)]) auto
  ultimately show ?case using Cons.IH Cons.prems(2) by simp
qed simp

lemma release_locker_obj_inv:
  assumes inv: "lm_inv m"
  shows "lm_inv (snd (release_locker_obj skip locker key m))"
proof (cases "obj_lookup m key")
  case None
  with inv show ?thesis by (simp add: release_locker_obj_def)
next
  case (Some ob)
  have t: "lm_table m" and ko: "keys_ok m" using inv by (simp_all add: lm_inv_def lm_table_def)
  note h = lookup_ok [OF t Some] and k = lookup_key [OF Some]
  obtain ob1 wk where a: "obj_abort locker ob = (ob1, wk)" by fastforce
  have ob1: "lo_key ob1 = key" "lo_granted ob1 = lo_granted ob" "obj_ok (lm_matrix m) ob1"
    "size (obj_entries ob1) = size (obj_entries ob)"
    using obj_abort_sel [of locker ob] obj_ok_abort [OF h, of locker] k by (simp_all add: a)
  let ?n = "(set_obj m ob1)\<lparr>lm_woken := lm_woken m @ wk\<rparr>"
  let ?ids = "map le_id (filter (\<lambda>e. le_locker e = locker) (lo_granted ob))"
  have n: "lm_inv ?n" using ob1 by (intro inv_set_obj [OF inv Some, of ob1]) simp_all
  have "obj_lookup ?n key = obj_lookup (set_obj m ob1) key" by (rule table_cong(3)) simp
  then have ln: "obj_lookup ?n key = Some ob1" using set_obj_ok(3) [OF ko Some ob1(1)] by simp
  have "distinct (map le_id (lo_granted ob))" using h by (simp add: obj_ok_def obj_ids_def)
  then have "distinct ?ids" by (rule distinct_map_filter)
  moreover have "entry_at i (lo_granted ob1) \<noteq> None" if "i \<in> set ?ids" for i
    using that ob1(2) by (auto simp: entry_at_iff simp del: not_None_eq)
  ultimately have "lm_inv (fold (release_entry skip key) ?ids ?n)" using n ln by (intro release_fold_inv) auto
  then show ?thesis using Some by (simp add: release_locker_obj_def a Let_def)
qed

lemma release_keys_inv: "lm_inv m \<Longrightarrow> lm_inv (snd (release_keys skip locker ks m))"
proof (induction ks arbitrary: m)
  case (Cons k ks)
  from Cons.IH [OF release_locker_obj_inv [OF Cons.prems, of skip locker k]] show ?case by (simp add: split_beta)
qed simp

lemma release_part_inv: "lm_inv m \<Longrightarrow> lm_inv (snd (release_part skip locker p m))"
  by (simp add: release_part_def release_keys_inv)

lemma release_parts_inv: "lm_inv m \<Longrightarrow> lm_inv (snd (release_parts skip locker ps m))"
proof (induction ps arbitrary: m)
  case (Cons p ps)
  from Cons.IH [OF release_part_inv [OF Cons.prems, of skip locker p]] show ?case by (simp add: split_beta)
qed simp

lemma release_all_inv: "lm_inv m \<Longrightarrow> lm_inv (snd (xtc_lock_release_all skip locker m))"
  by (simp add: xtc_lock_release_all_def release_parts_inv)

lemma locker_ops_inv:
  assumes "lm_inv m"
  shows "lm_inv (locker_update m i f)" "lm_inv (snd (snd (xtc_lockmgr_id rc now m)))"
    "lm_inv (snd (xtc_lockmgr_id_set_timeout i timeout_ns m))" "lm_inv (snd (locker_unlink i m))"
proof -
  show u: "lm_inv (locker_update m i f)" for f by (rule inv_cong [OF assms]) simp_all
  show "lm_inv (snd (snd (xtc_lockmgr_id rc now m)))"
    by (rule inv_cong [OF assms]) (simp_all add: xtc_lockmgr_id_def Let_def)
  show "lm_inv (snd (xtc_lockmgr_id_set_timeout i timeout_ns m))"
    using assms u by (simp add: xtc_lockmgr_id_set_timeout_def)
  show "lm_inv (snd (locker_unlink i m))"
    by (rule inv_cong [OF assms]) (simp_all add: locker_unlink_def)
qed

lemma id_free_inv: "lm_inv m \<Longrightarrow> lm_inv (snd (xtc_lockmgr_id_free skip i m))"
  by (simp add: xtc_lockmgr_id_free_def locker_ops_inv(4) release_all_inv)

lemma failchk_inv: "lm_inv m \<Longrightarrow> lm_inv (snd (xtc_lockmgr_failchk skip i m))"
  by (simp add: xtc_lockmgr_failchk_def locker_ops_inv(1) release_all_inv)

lemma upgrade_drop_inv:
  assumes inv: "lm_inv m"
  shows "lm_inv (upgrade_drop skip locker key m)"
proof (cases "obj_lookup m key")
  case None
  with inv show ?thesis by (simp add: upgrade_drop_def)
next
  case (Some ob)
  show ?thesis
  proof (cases "\<exists>ne e es. filter (\<lambda>e. le_locker e = locker) (lo_granted ob) = ne # e # es")
    case True
    then obtain ne e es where f: "filter (\<lambda>e. le_locker e = locker) (lo_granted ob) = ne # e # es" by blast
    then have "e \<in> set (filter (\<lambda>e. le_locker e = locker) (lo_granted ob))" by simp
    then have "entry_at (le_id e) (lo_granted ob) \<noteq> None" by (subst entry_at_iff) simp
    then have "lm_inv (release_entry skip key (le_id e) m)" using Some by (intro release_entry_inv [OF inv]) simp
    with Some f show ?thesis by (simp add: upgrade_drop_def)
  next
    case False
    then have "upgrade_drop skip locker key m = m" using Some by (auto simp: upgrade_drop_def split: list.split)
    with inv show ?thesis by simp
  qed
qed

lemma raise_inv:
  assumes inv: "lm_inv m" and l: "obj_lookup m key = Some ob" and h: "obj_ok (lm_matrix m) (obj_raise locker mode ob)"
  shows "lm_inv (set_obj (count_write locker d m) (obj_raise locker mode ob))"
proof -
  have "lm_parts (count_write locker d m) = lm_parts m" by simp
  note sp = set_obj_parts [OF this]
  show ?thesis using lookup_key [OF l] by (intro inv_set_obj [OF inv l _ h]) (simp_all add: sp)
qed

lemma upgrade_inv:
  assumes inv: "lm_inv m" and fresh: "slab_fresh slab m"
  shows "lm_inv (snd (xtc_lock_upgrade skip slab fiber now locker key mode m))"
proof (cases "obj_lookup m key")
  case None
  with inv show ?thesis by (simp add: xtc_lock_upgrade_def)
next
  case (Some ob)
  have t: "lm_table m" using inv by (simp add: lm_inv_def)
  note h = lookup_ok [OF t Some]
  let ?b = "upgrade_bound now locker m"
  note da = do_acquire_inv [OF inv Some fresh, of fiber locker mode ?b]
  have r: "lm_inv (set_obj (count_write locker d m) (obj_raise locker mode ob))"
    if "\<not> has_conflict_granted (lm_matrix m) (lo_granted ob) locker mode" for d
    using obj_ok_raise [OF h no_conflict_compatible [OF that]] by (intro raise_inv [OF inv Some]) blast
  obtain w m1 where d: "do_acquire slab fiber ob locker mode ?b m = (w, m1)" by fastforce
  with da have "lm_inv m1" by simp
  with upgrade_drop_inv [OF this, of skip locker key] r inv Some d show ?thesis
    by (cases w) (auto simp: xtc_lock_upgrade_def split: option.split)
qed

lemma upgrade_resume_inv:
  assumes inv: "lm_inv m" and r: "upgrade_resume skip killed expired locker key i m = Some (w, m')"
  shows "lm_inv m'"
proof -
  from r obtain w1 m1 where l: "lock_resume skip killed expired key i m = Some (w1, m1)"
    and m': "m' = (if w1 = LDone XTC_OK then upgrade_drop skip locker key m1 else m1)"
    by (auto simp: upgrade_resume_def)
  from lock_resume_inv [OF inv l] upgrade_drop_inv [of m1 skip locker key] m' show ?thesis by simp
qed

text \<open>A dominated mode stays compatible with whatever the held mode was compatible with.\<close>

lemma weaken_ok:
  assumes ok: "obj_ok mx ob" and f: "find_granted ob locker = Some cur" and d: "dominates mx (le_mode cur) mode"
  shows "obj_ok mx (obj_raise locker mode ob)"
proof (rule obj_ok_raise [OF ok])
  fix b assume b: "b \<in> set (lo_granted ob)" "le_locker b \<noteq> locker"
  from f have c: "cur \<in> set (lo_granted ob)" "le_locker cur = locker"
    by (auto simp: find_granted_def find_Some_iff)
  with ok b have "\<not> clash mx cur b" by (simp add: obj_ok_def holders_ok_def)
  with b c(2) dominates_compatible [OF d, of "le_mode b"]
  show "\<not> (conflicts mx mode (le_mode b) \<and> conflicts mx (le_mode b) mode)" by (auto simp: clash_def)
qed

lemma downgrade_inv:
  assumes inv: "lm_inv m"
  shows "lm_inv (snd (xtc_lock_downgrade locker key mode m))"
proof (cases "\<exists>ob cur. obj_lookup m key = Some ob \<and> find_granted ob locker = Some cur \<and> dominates (lm_matrix m) (le_mode cur) mode")
  case False
  then have "snd (xtc_lock_downgrade locker key mode m) = m"
    by (auto simp: xtc_lock_downgrade_def split: option.split)
  with inv show ?thesis by simp
next
  case True
  then obtain ob cur where l: "obj_lookup m key = Some ob" and f: "find_granted ob locker = Some cur"
    and d: "dominates (lm_matrix m) (le_mode cur) mode" by blast
  have t: "lm_table m" using inv by (simp add: lm_inv_def)
  note h = weaken_ok [OF lookup_ok [OF t l] f d]
  let ?r = "obj_raise locker mode ob"
  obtain ob' wk where p: "obj_promote (lm_matrix m) no_skip ?r = (ob', wk)" by fastforce
  have o': "obj_ok (lm_matrix m) ob'" "lo_key ob' = key" "size (obj_entries ob') = size (obj_entries ob)"
    using obj_ok_promote [OF h, of no_skip] obj_promote_sel [of "lm_matrix m" no_skip ?r]
      obj_promote_ok(2) [of "lm_matrix m" no_skip ?r] lookup_key [OF l] by (simp_all add: p)
  let ?m1 = "if is_write_mode (le_mode cur) \<and> \<not> is_write_mode mode then count_write locker (- 1) m else m"
  have "lm_parts ?m1 = lm_parts m" by simp
  note sp = set_obj_parts [OF this]
  have "lm_inv ((set_obj ?m1 ob')\<lparr>lm_woken := lm_woken ?m1 @ wk\<rparr>)"
    using o' by (intro inv_set_obj [OF inv l _ o'(1)]) (simp_all add: sp)
  with l f d inv p show ?thesis by (simp add: xtc_lock_downgrade_def Let_def)
qed

lemma concat_replicate_Nil [simp]: "concat (replicate n []) = []"
  by (induction n) simp_all

lemma create_inv:
  assumes "xtc_lockmgr_create c1 c2 c3 th opts out = (XTC_OK, Some m)"
  shows "lm_inv m"
proof -
  define op where "op = lockmgr_defaults (case opts of None \<Rightarrow> LOCKMGR_OPTS_DEFAULT | Some o1 \<Rightarrow> o1)"
  have "0 < op_n_partitions op" by (simp add: op_def lockmgr_defaults_def Let_def)
  moreover have p: "lm_parts m = replicate (nat (op_n_partitions op)) []" and
    n: "lm_n_held m = 0" "lm_n_waiting m = 0" "lm_n_objects m = 0" "lm_n_acquires m = 0" "lm_n_releases m = 0"
    using assms by (auto simp: xtc_lockmgr_create_def Let_def op_def split: if_splits)
  ultimately show ?thesis
    by (simp add: lm_inv_def lm_table_def lm_counts_def keys_ok_def objs_def total_entries_def)
qed

end
