(* ===== verification/Lock_Detect.thy ===== *)
theory Lock_Detect
  imports Lock_Mgr
begin

text \<open>
  Deadlock detection (src/src/ptc/lock_mgr.c, from \<open>struct dd_node\<close> on): the wait-for graph is
  built with every partition locked, searched depth first for a cycle, and a victim of each
  cycle found is aborted, until the graph has none. The linked edge lists are lists of
  successors, newest first; colours are 0 white, 1 on the stack, 2 done. The recursion of
  the search and the outer loops carry fuel; one more than the number of nodes is
  enough for each, and the lemmas prove it.
\<close>

definition MAX_LOCKERS :: nat where
  "MAX_LOCKERS = 4096"

record dd_node =
  dn_id :: nat
  dn_ctime :: int
  dn_deadline :: int
  dn_n_held :: int
  dn_n_write_held :: int
  dn_expired :: bool
  dn_out :: "nat list"

record dd_state =
  dd_nodes :: "dd_node list"
  dd_n_edges :: nat

section \<open>Building the graph\<close>

fun dd_index :: "nat \<Rightarrow> dd_node list \<Rightarrow> nat option" where
  "dd_index i [] = None"
| "dd_index i (n # ns) = (if dn_id n = i then Some 0 else map_option Suc (dd_index i ns))"

definition dd_node_of :: "nat \<Rightarrow> locker_rec option \<Rightarrow> int \<Rightarrow> dd_node" where
  "dd_node_of i lr now = (case lr of
     None \<Rightarrow> \<lparr>dn_id = i, dn_ctime = 0, dn_deadline = - 1, dn_n_held = 0, dn_n_write_held = 0,
              dn_expired = False, dn_out = []\<rparr>
   | Some r \<Rightarrow> \<lparr>dn_id = i, dn_ctime = lr_ctime_ns r, dn_deadline = lr_deadline_ns r, dn_n_held = lr_n_held r,
              dn_n_write_held = lr_n_write_held r,
              dn_expired = (0 < lr_deadline_ns r \<and> now > lr_deadline_ns r), dn_out = []\<rparr>)"

definition dd_node_idx :: "nat \<Rightarrow> locker_rec option \<Rightarrow> int \<Rightarrow> dd_state \<Rightarrow> nat option \<times> dd_state" where
  "dd_node_idx i lr now st = (case dd_index i (dd_nodes st) of
     Some k \<Rightarrow> (Some k, st)
   | None \<Rightarrow> if MAX_LOCKERS \<le> length (dd_nodes st) then (None, st)
             else (Some (length (dd_nodes st)), st\<lparr>dd_nodes := dd_nodes st @ [dd_node_of i lr now]\<rparr>))"

definition dd_out :: "dd_state \<Rightarrow> nat \<Rightarrow> nat list" where
  "dd_out st u = (if u < length (dd_nodes st) then dn_out (dd_nodes st ! u) else [])"

definition dd_set_out :: "nat \<Rightarrow> nat list \<Rightarrow> dd_state \<Rightarrow> dd_state" where
  "dd_set_out u vs st = st\<lparr>dd_nodes := (dd_nodes st)[u := (dd_nodes st ! u)\<lparr>dn_out := vs\<rparr>]\<rparr>"

definition dd_add_edge :: "nat option \<Rightarrow> nat option \<Rightarrow> dd_state \<Rightarrow> dd_state" where
  "dd_add_edge from to st = (case (from, to) of
     (Some u, Some v) \<Rightarrow>
       if MAX_LOCKERS * 8 \<le> dd_n_edges st then st
       else if v \<in> set (dd_out st u) then st
       else (dd_set_out u (v # dd_out st u) st)\<lparr>dd_n_edges := dd_n_edges st + 1\<rparr>
   | _ \<Rightarrow> st)"

fun dd_holders :: "lockmgr \<Rightarrow> int \<Rightarrow> nat option \<Rightarrow> lock_entry \<Rightarrow> lock_entry list \<Rightarrow> dd_state \<Rightarrow> dd_state" where
  "dd_holders m now from w [] st = st"
| "dd_holders m now from w (g # gs) st =
     (if le_locker g = le_locker w \<or> \<not> conflicts (lm_matrix m) (le_mode g) (le_mode w)
      then dd_holders m now from w gs st
      else (case dd_node_idx (le_locker g) (locker_find m (le_locker g)) now st of (to, st1) \<Rightarrow>
        dd_holders m now from w gs (dd_add_edge from to st1)))"

fun dd_waiters :: "lockmgr \<Rightarrow> int \<Rightarrow> lock_entry list \<Rightarrow> lock_entry list \<Rightarrow> dd_state \<Rightarrow> dd_state" where
  "dd_waiters m now gs [] st = st"
| "dd_waiters m now gs (w # ws) st =
     (case dd_node_idx (le_locker w) (locker_find m (le_locker w)) now st of (from, st1) \<Rightarrow>
        dd_waiters m now gs ws (dd_holders m now from w gs st1))"

definition dd_build :: "lockmgr \<Rightarrow> int \<Rightarrow> dd_state" where
  "dd_build m now = fold (\<lambda>ob st. dd_waiters m now (lo_granted ob) (lo_waiting ob) st)
     (concat (lm_parts m)) \<lparr>dd_nodes = [], dd_n_edges = 0\<rparr>"

section \<open>Search\<close>

type_synonym dd_colour = "nat \<Rightarrow> nat"
type_synonym dd_parent = "nat \<Rightarrow> nat option"

function dd_dfs :: "nat \<Rightarrow> dd_state \<Rightarrow> nat \<Rightarrow> dd_colour \<Rightarrow> dd_parent \<Rightarrow> (nat option \<times> dd_colour \<times> dd_parent) option"
  and dd_scan :: "nat \<Rightarrow> dd_state \<Rightarrow> nat \<Rightarrow> nat list \<Rightarrow> dd_colour \<Rightarrow> dd_parent \<Rightarrow> (nat option \<times> dd_colour \<times> dd_parent) option"
  where
  "dd_dfs 0 st u color parent = None"
| "dd_dfs (Suc n) st u color parent = dd_scan n st u (dd_out st u) (color(u := 1)) parent"
| "dd_scan n st u [] color parent = Some (None, color(u := 2), parent)"
| "dd_scan n st u (v # vs) color parent =
     (if color v = 1 then Some (Some u, color, parent)
      else if color v = 0 then
        (case dd_dfs n st v color (parent(v := Some u)) of
           None \<Rightarrow> None
         | Some (Some c, color1, parent1) \<Rightarrow> Some (Some c, color1, parent1)
         | Some (None, color1, parent1) \<Rightarrow> dd_scan n st u vs color1 parent1)
      else dd_scan n st u vs color parent)"
  by pat_completeness auto
termination
  by (relation "measures [\<lambda>x. case x of Inl (n, _) \<Rightarrow> n | Inr (n, _) \<Rightarrow> n,
      \<lambda>x. case x of Inl _ \<Rightarrow> 0 | Inr (n, st, u, vs, _) \<Rightarrow> Suc (length vs)]") auto

fun dd_search :: "dd_state \<Rightarrow> nat list \<Rightarrow> dd_colour \<Rightarrow> dd_parent \<Rightarrow> (nat option \<times> dd_parent) option" where
  "dd_search st [] color parent = Some (None, parent)"
| "dd_search st (i # is) color parent =
     (if color i = 0 then
        (case dd_dfs (Suc (length (dd_nodes st))) st i color parent of
           None \<Rightarrow> None
         | Some (Some c, color1, parent1) \<Rightarrow> Some (Some c, parent1)
         | Some (None, color1, parent1) \<Rightarrow> dd_search st is color1 parent1)
      else dd_search st is color parent)"

definition dd_find_cycle :: "dd_state \<Rightarrow> (nat option \<times> dd_parent) option" where
  "dd_find_cycle st = dd_search st [0..<length (dd_nodes st)] (\<lambda>_. 0) (\<lambda>_. None)"

section \<open>Victims\<close>

text \<open>\<open>rnd\<close> is the random draw, one per call.\<close>

definition dd_score :: "victim_policy \<Rightarrow> int \<Rightarrow> dd_node \<Rightarrow> int" where
  "dd_score policy rnd n = (case policy of
     VictimOldest \<Rightarrow> - dn_ctime n | VictimYoungest \<Rightarrow> dn_ctime n
   | VictimMinLocks \<Rightarrow> - dn_n_held n | VictimMaxLocks \<Rightarrow> dn_n_held n
   | VictimMinWrite \<Rightarrow> - dn_n_write_held n | VictimMaxWrite \<Rightarrow> dn_n_write_held n
   | VictimExpire \<Rightarrow> if dn_expired n then 1 else - 1
   | _ \<Rightarrow> rnd)"

text \<open>The walk up the parents from \<open>u\<close>, that stops at the root or on its return to the start.\<close>

fun dd_chain :: "nat \<Rightarrow> dd_parent \<Rightarrow> nat \<Rightarrow> nat \<Rightarrow> nat list" where
  "dd_chain 0 parent start u = []"
| "dd_chain (Suc n) parent start u = u # (case parent u of None \<Rightarrow> []
     | Some p \<Rightarrow> if p = start then [] else dd_chain n parent start p)"

fun dd_best :: "victim_policy \<Rightarrow> (nat \<Rightarrow> int) \<Rightarrow> nat \<Rightarrow> dd_state \<Rightarrow> nat list \<Rightarrow> nat \<Rightarrow> int \<Rightarrow> bool \<Rightarrow> nat option" where
  "dd_best policy rnd k st [] victim best seen =
     (if policy = VictimExpire \<and> \<not> seen then None else Some victim)"
| "dd_best policy rnd k st (u # us) victim best seen =
     (let s = dd_score policy (rnd k) (dd_nodes st ! u) in
      if policy = VictimExpire then
        if dn_expired (dd_nodes st ! u) \<and> (\<not> seen \<or> s > best)
        then dd_best policy rnd (k + 1) st us u s True
        else dd_best policy rnd (k + 1) st us victim best seen
      else if s > best then dd_best policy rnd (k + 1) st us u s seen
      else dd_best policy rnd (k + 1) st us victim best seen)"

text \<open>
  Under the custom policy the candidates are the walk, 64 at most; a pick out of range falls
  through to the scores, which then start where the walk ended.
\<close>

definition dd_pick_victim ::
  "lockmgr_opts \<Rightarrow> (nat \<Rightarrow> int) \<Rightarrow> dd_state \<Rightarrow> nat \<Rightarrow> dd_parent \<Rightarrow> nat option" where
  "dd_pick_victim op rnd st cycle_in parent =
     (let n = length (dd_nodes st); walk = dd_chain n parent cycle_in cycle_in;
          scored = (\<lambda>us u. dd_best (op_victim op) rnd 1 st us cycle_in
                       (dd_score (op_victim op) (rnd 0) (dd_nodes st ! u)) False) in
      case (op_victim op, op_victim_pick_fn op) of
        (VictimCustom, Some pick) \<Rightarrow>
          let cand = take 64 walk; p = pick cand in
          if 0 \<le> p \<and> p < int (length cand) then Some (cand ! nat p)
          else let u = if parent (last walk) = None then last walk else cycle_in in
            scored (dd_chain n parent cycle_in u) u
      | _ \<Rightarrow> scored walk cycle_in)"

section \<open>The detector\<close>

definition dd_kill :: "(nat \<Rightarrow> bool) \<Rightarrow> nat \<Rightarrow> lockmgr \<Rightarrow> lockmgr" where
  "dd_kill skip vid m = (let m1 = snd (release_parts skip vid [0..<length (lm_parts m)] m) in
     m1\<lparr>lm_n_deadlocks_found := lm_n_deadlocks_found m1 + 1\<rparr>)"

text \<open>
  The loop over cycles. Besides the manager and the graph it returns the lockers aborted, in
  order; \<open>rnd j\<close> are the draws of round \<open>j\<close>.
\<close>

fun dd_loop :: "nat \<Rightarrow> (nat \<Rightarrow> bool) \<Rightarrow> (nat \<Rightarrow> nat \<Rightarrow> int) \<Rightarrow> lockmgr \<Rightarrow> dd_state \<Rightarrow> (lockmgr \<times> dd_state \<times> nat list) option" where
  "dd_loop 0 skip rnd m st = None"
| "dd_loop (Suc n) skip rnd m st =
     (case dd_find_cycle st of
        None \<Rightarrow> None
      | Some (None, parent) \<Rightarrow> Some (m, st, [])
      | Some (Some c, parent) \<Rightarrow>
          (case dd_pick_victim (lm_opts m) (rnd n) st c parent of
             None \<Rightarrow> dd_loop n skip rnd m (dd_set_out c [] st)
           | Some v \<Rightarrow>
               let vid = dn_id (dd_nodes st ! v) in
               map_option (\<lambda>(m', st', ks). (m', st', vid # ks))
                 (dd_loop n skip rnd (dd_kill skip vid m) (dd_set_out v [] st))))"

definition xtc_lockmgr_check_deadlocks ::
  "xtc_err \<Rightarrow> xtc_err \<Rightarrow> xtc_err \<Rightarrow> (nat \<Rightarrow> bool) \<Rightarrow> (nat \<Rightarrow> nat \<Rightarrow> int) \<Rightarrow> int \<Rightarrow> lockmgr \<Rightarrow>
     (xtc_err \<times> nat list \<times> lockmgr) option" where
  "xtc_lockmgr_check_deadlocks rc1 rc2 rc3 skip rnd now m =
     (if rc1 \<noteq> XTC_OK then Some (rc1, [], m)
      else if rc2 \<noteq> XTC_OK then Some (rc2, [], m)
      else if rc3 \<noteq> XTC_OK then Some (rc3, [], m)
      else let st = dd_build m now in
        map_option (\<lambda>(m', st', ks). (XTC_OK, ks, m')) (dd_loop (Suc (length (dd_nodes st))) skip rnd m st))"

section \<open>The search is correct\<close>

definition dd_wf :: "dd_state \<Rightarrow> bool" where
  "dd_wf st = (\<forall>u. \<forall>v \<in> set (dd_out st u). v < length (dd_nodes st))"

definition dd_graph :: "dd_state \<Rightarrow> (nat \<times> nat) set" where
  "dd_graph st = {(u, v). v \<in> set (dd_out st u)}"

text \<open>A stack, top first, whose parent pointers are edges down to its root.\<close>

fun linked :: "dd_parent \<Rightarrow> (nat \<Rightarrow> nat list) \<Rightarrow> nat list \<Rightarrow> bool" where
  "linked parent out [] = True"
| "linked parent out [r] = (parent r = None)"
| "linked parent out (v # p # stk) = (parent v = Some p \<and> v \<in> set (out p) \<and> linked parent out (p # stk))"

text \<open>Done nodes have only done successors, of smaller rank.\<close>

definition done_ok :: "dd_state \<Rightarrow> dd_colour \<Rightarrow> bool" where
  "done_ok st color = (\<exists>rank :: nat \<Rightarrow> nat. \<forall>x. color x = 2 \<longrightarrow>
     (\<forall>y \<in> set (dd_out st x). color y = 2 \<and> rank y < rank x))"

definition dfs_inv :: "dd_state \<Rightarrow> dd_colour \<Rightarrow> dd_parent \<Rightarrow> nat list \<Rightarrow> nat set \<Rightarrow> bool" where
  "dfs_inv st color parent stk X = (set stk = {x. color x = 1} \<and> distinct stk \<and>
     linked parent (dd_out st) stk \<and> set stk \<subseteq> {..< length (dd_nodes st)} \<and>
     done_ok st color \<and> (\<forall>x. color x \<le> 2) \<and> (\<forall>x. color x = 0 \<longrightarrow> x \<notin> X \<longrightarrow> parent x = None))"

definition whites :: "dd_state \<Rightarrow> dd_colour \<Rightarrow> nat set" where
  "whites st color = {x. x < length (dd_nodes st) \<and> color x = 0}"

definition dfs_post :: "dd_state \<Rightarrow> nat \<Rightarrow> nat list \<Rightarrow> dd_colour \<Rightarrow> nat option \<times> dd_colour \<times> dd_parent \<Rightarrow> bool" where
  "dfs_post st u stk color r = (case r of
     (Some c, color', parent') \<Rightarrow> \<exists>stk'. distinct (c # stk') \<and> linked parent' (dd_out st) (c # stk') \<and>
        set (c # stk') \<subseteq> {..< length (dd_nodes st)} \<and> (\<exists>y \<in> set (dd_out st c). y \<in> set (c # stk'))
   | (None, color', parent') \<Rightarrow> dfs_inv st color' parent' stk {} \<and> color' u = 2 \<and>
        (\<forall>x. (color x = 2 \<longrightarrow> color' x = 2) \<and> (color' x = 0 \<longrightarrow> color x = 0)))"

lemma linked_upd: "v \<notin> set stk \<Longrightarrow> linked (parent(v := p)) out stk = linked parent out stk"
  by (induction parent out stk rule: linked.induct) auto

lemma linked_tl: "linked parent out (u # stk) \<Longrightarrow> linked parent out stk"
  by (cases stk) auto

lemma done_ok_finish:
  assumes d: "done_ok st color" and u: "color u = 1" and b: "\<forall>y \<in> set (dd_out st u). color y = 2"
  shows "done_ok st (color(u := 2))"
proof -
  from d obtain rank :: "nat \<Rightarrow> nat" where
    r: "\<forall>x. color x = 2 \<longrightarrow> (\<forall>y \<in> set (dd_out st x). color y = 2 \<and> rank y < rank x)"
    by (auto simp: done_ok_def)
  let ?rank = "rank(u := Suc (sum_list (map rank (dd_out st u))))"
  have "(color(u := 2)) y = 2 \<and> ?rank y < ?rank x"
    if x: "(color(u := 2)) x = 2" and y: "y \<in> set (dd_out st x)" for x y
  proof (cases "x = u")
    case True
    with b y have "color y = 2" by blast
    with u have "y \<noteq> u" by auto
    moreover have "rank y \<le> sum_list (map rank (dd_out st u))" using y True by (intro member_le_sum_list) auto
    ultimately show ?thesis using True \<open>color y = 2\<close> by simp
  next
    case False
    with x r y have "color y = 2" "rank y < rank x" by auto
    moreover from this(1) u have "y \<noteq> u" by auto
    ultimately show ?thesis using False by simp
  qed
  then show ?thesis unfolding done_ok_def by blast
qed

lemma dfs_inv_colours: "dfs_inv st color parent stk X \<Longrightarrow> color x = 1 \<or> color x = 0 \<or> color x = 2"
  by (simp add: dfs_inv_def) (metis One_nat_def Suc_1 le_SucE le_zero_eq)

lemma dfs_inv_finish:
  assumes "dfs_inv st color parent (u # stk) {}" "\<forall>y \<in> set (dd_out st u). color y = 2"
  shows "dfs_inv st (color(u := 2)) parent stk {}"
proof -
  from assms(1) have u: "color u = 1" "u \<notin> set stk" and s: "insert u (set stk) = {x. color x = 1}"
    by (auto simp: dfs_inv_def)
  have "set stk = {x. (color(u := 2)) x = 1}" using s u by auto
  with assms done_ok_finish [OF _ u(1) assms(2)] linked_tl [of parent "dd_out st" u stk] show ?thesis
    by (simp add: dfs_inv_def)
qed

lemma dfs_inv_push:
  assumes i: "dfs_inv st color parent stk {u}" and l: "linked parent (dd_out st) (u # stk)"
    and u: "color u = 0" "u < length (dd_nodes st)"
  shows "dfs_inv st (color(u := 1)) parent (u # stk) {}"
proof -
  have "u \<notin> set stk" using i u(1) by (auto simp: dfs_inv_def)
  moreover have "insert u (set stk) = {x. (color(u := 1)) x = 1}" using i by (auto simp: dfs_inv_def)
  moreover have "done_ok st (color(u := 1))"
  proof -
    from i obtain rank :: "nat \<Rightarrow> nat" where
      "\<forall>x. color x = 2 \<longrightarrow> (\<forall>y \<in> set (dd_out st x). color y = 2 \<and> rank y < rank x)"
      by (auto simp: dfs_inv_def done_ok_def)
    with u(1) show ?thesis unfolding done_ok_def by (intro exI [of _ rank]) auto
  qed
  ultimately show ?thesis using i l u by (auto simp: dfs_inv_def)
qed

lemma whites_finite [simp]: "finite (whites st color)"
  by (simp add: whites_def)

lemma whites_push:
  assumes "u \<in> whites st color" "card (whites st color) \<le> Suc n"
  shows "card (whites st (color(u := 1))) \<le> n"
proof -
  have "whites st (color(u := 1)) = whites st color - {u}" using assms(1) by (auto simp: whites_def)
  then show ?thesis using assms by (simp add: card_Diff_singleton)
qed

lemma dfs_post_mono:
  assumes "dfs_post st u stk color1 r"
    and "\<And>x. color x = 2 \<Longrightarrow> color1 x = 2" "\<And>x. color1 x = 0 \<Longrightarrow> color x = 0"
  shows "dfs_post st u stk color r"
proof -
  obtain c color' parent' where r: "r = (c, color', parent')" by (cases r)
  show ?thesis
  proof (cases c)
    case None
    with assms(1) r have "dfs_inv st color' parent' stk {} \<and> color' u = 2 \<and>
        (\<forall>x. (color1 x = 2 \<longrightarrow> color' x = 2) \<and> (color' x = 0 \<longrightarrow> color1 x = 0))"
      unfolding dfs_post_def by simp
    with assms(2,3) have "dfs_inv st color' parent' stk {} \<and> color' u = 2 \<and>
        (\<forall>x. (color x = 2 \<longrightarrow> color' x = 2) \<and> (color' x = 0 \<longrightarrow> color x = 0))" by blast
    with r None show ?thesis unfolding dfs_post_def by simp
  next
    case (Some x)
    with assms(1) r show ?thesis unfolding dfs_post_def by simp
  qed
qed

lemma dfs_correct:
  shows "dd_wf st \<Longrightarrow> u < length (dd_nodes st) \<Longrightarrow> color u = 0 \<Longrightarrow> dfs_inv st color parent stk {u} \<Longrightarrow>
      linked parent (dd_out st) (u # stk) \<Longrightarrow> card (whites st color) \<le> n \<Longrightarrow>
      \<exists>r. dd_dfs n st u color parent = Some r \<and> dfs_post st u stk color r"
    and "dd_wf st \<Longrightarrow> set vs \<subseteq> set (dd_out st u) \<Longrightarrow> \<forall>y \<in> set (dd_out st u). y \<in> set vs \<or> color y = 2 \<Longrightarrow>
      dfs_inv st color parent (u # stk) {} \<Longrightarrow> card (whites st color) \<le> n \<Longrightarrow>
      \<exists>r. dd_scan n st u vs color parent = Some r \<and> dfs_post st u stk color r"
proof (induction n st u color parent and n st u vs color parent arbitrary: stk and stk rule: dd_dfs_dd_scan.induct)
  case (1 st u color parent)
  then have "u \<in> whites st color" by (simp add: whites_def)
  with 1 have False by (metis card_gt_0_iff empty_iff le_zero_eq less_numeral_extra(3) whites_finite)
  then show ?case ..
next
  case (2 n st u color parent)
  from 2 have uw: "u \<in> whites st color" by (simp add: whites_def)
  have "\<forall>y \<in> set (dd_out st u). y \<in> set (dd_out st u) \<or> (color(u := 1)) y = 2" by blast
  from "2.IH" [OF 2(2) subset_refl this dfs_inv_push [OF 2(5,6,4,3)] whites_push [OF uw 2(7)]]
  have "\<exists>r. dd_scan n st u (dd_out st u) (color(u := 1)) parent = Some r \<and> dfs_post st u stk (color(u := 1)) r" .
  then obtain r where r: "dd_scan n st u (dd_out st u) (color(u := 1)) parent = Some r" "dfs_post st u stk (color(u := 1)) r"
    by blast
  have "dfs_post st u stk color r"
    by (rule dfs_post_mono [OF r(2)]) (use 2(4) in \<open>auto split: if_splits\<close>)
  with r(1) show ?case by simp
next
  case (3 n st u color parent)
  then have "dfs_inv st (color(u := 2)) parent stk {}" by (intro dfs_inv_finish) auto
  then show ?case by (simp add: dfs_post_def)
next
  case (4 n st u v vs color parent)
  from 4 have u: "color u = 1" by (auto simp: dfs_inv_def)
  have v: "v \<in> set (dd_out st u)" "v < length (dd_nodes st)" using 4 by (auto simp: dd_wf_def)
  consider (gray) "color v = 1" | (white) "color v = 0" | (black) "color v = 2"
    using dfs_inv_colours [OF 4(7), of v] by auto
  then show ?case
  proof cases
    case gray
    then have vs: "v \<in> set (u # stk)" using 4 by (auto simp: dfs_inv_def)
    have "dfs_post st u stk color (Some u, color, parent)"
      using 4(7) v(1) vs unfolding dfs_post_def dfs_inv_def by auto
    with gray show ?thesis by simp
  next
    case black
    then have "\<exists>r. dd_scan n st u vs color parent = Some r \<and> dfs_post st u stk color r"
      using 4 by (intro "4.IH"(3)) auto
    with black show ?thesis by simp
  next
    case white
    let ?p = "parent(v := Some u)"
    have nv: "v \<notin> set (u # stk)" using white 4 by (auto simp: dfs_inv_def)
    have pre: "dfs_inv st color ?p (u # stk) {v}"
      using 4(7) linked_upd [OF nv, of parent "Some u" "dd_out st"] unfolding dfs_inv_def by auto
    have lk: "linked ?p (dd_out st) (v # u # stk)"
      using pre v by (simp add: dfs_inv_def)
    have "color v \<noteq> 1" using white by simp
    from "4.IH"(1) [OF this white 4(4) v(2) white pre lk 4(8)]
    obtain r where r: "dd_dfs n st v color ?p = Some r" "dfs_post st v (u # stk) color r"
      by blast
    obtain c color1 parent1 where rr: "r = (c, color1, parent1)" by (cases r)
    show ?thesis
    proof (cases c)
      case (Some x)
      with r rr white show ?thesis by (auto simp: dfs_post_def)
    next
      case None
      with r rr have k: "dfs_inv st color1 parent1 (u # stk) {}" "color1 v = 2"
        "\<forall>x. (color x = 2 \<longrightarrow> color1 x = 2) \<and> (color1 x = 0 \<longrightarrow> color x = 0)"
        by (auto simp: dfs_post_def)
      have "whites st color1 \<subseteq> whites st color" using k(3) by (auto simp: whites_def)
      then have w1: "card (whites st color1) \<le> n" using 4(8) by (meson card_mono le_trans whites_finite)
      have "\<forall>y \<in> set (dd_out st u). y \<in> set vs \<or> color1 y = 2" using 4(6) k(2,3) by auto
      from "4.IH"(2) [OF \<open>color v \<noteq> 1\<close> white r(1) rr [symmetric] None refl 4(4) _ this k(1) w1] 4(5)
      obtain r2 where r2: "dd_scan n st u vs color1 parent1 = Some r2" "dfs_post st u stk color1 r2"
        by auto
      have "dfs_post st u stk color r2"
        by (rule dfs_post_mono [OF r2(2)]) (use k(3) in blast)+
      with r2(1) r(1) rr None white show ?thesis by simp
    qed
  qed
qed

lemma search_correct:
  assumes wf: "dd_wf st"
  shows "dfs_inv st color parent [] {} \<Longrightarrow> set is \<subseteq> {..< length (dd_nodes st)} \<Longrightarrow>
    \<forall>x < length (dd_nodes st). x \<in> set is \<or> color x = 2 \<Longrightarrow>
    (\<exists>p. dd_search st is color parent = Some (None, p) \<and> acyclic (dd_graph st)) \<or>
    (\<exists>c p stk. dd_search st is color parent = Some (Some c, p) \<and> distinct (c # stk) \<and>
       linked p (dd_out st) (c # stk) \<and> set (c # stk) \<subseteq> {..< length (dd_nodes st)} \<and>
       (\<exists>y \<in> set (dd_out st c). y \<in> set (c # stk)))"
proof (induction "is" arbitrary: color parent)
  case Nil
  from Nil(1) obtain rank :: "nat \<Rightarrow> nat" where
    r: "\<And>x y. color x = 2 \<Longrightarrow> y \<in> set (dd_out st x) \<Longrightarrow> rank y < rank x"
    by (auto simp: dfs_inv_def done_ok_def)
  have "rank v < rank u" if "(u, v) \<in> dd_graph st" for u v
  proof -
    from that have v: "v \<in> set (dd_out st u)" by (simp add: dd_graph_def)
    then have "u < length (dd_nodes st)" by (auto simp: dd_out_def split: if_splits)
    with Nil(3) r v show ?thesis by auto
  qed
  then have "(dd_graph st)\<inverse> \<subseteq> measure rank" by auto
  then have "acyclic ((dd_graph st)\<inverse>)" by (meson acyclic_subset wf_acyclic wf_measure)
  then have "acyclic (dd_graph st)" by (simp add: acyclic_converse)
  then show ?case by simp
next
  case (Cons i "is")
  show ?case
  proof (cases "color i = 0")
    case False
    have "color i \<noteq> 1" using Cons.prems(1) by (auto simp: dfs_inv_def)
    with False have "color i = 2" using dfs_inv_colours [OF Cons.prems(1), of i] by simp
    then have "\<forall>x < length (dd_nodes st). x \<in> set is \<or> color x = 2" using Cons.prems(3) by auto
    from Cons.IH [OF Cons.prems(1) _ this] Cons.prems(2) False show ?thesis by simp
  next
    case True
    have w: "card (whites st color) \<le> Suc (length (dd_nodes st))"
    proof -
      have "whites st color \<subseteq> {..< length (dd_nodes st)}" by (auto simp: whites_def)
      then have "card (whites st color) \<le> card {..< length (dd_nodes st)}" by (intro card_mono) auto
      then show ?thesis by simp
    qed
    have "parent i = None" using Cons.prems(1) True by (simp add: dfs_inv_def)
    then have "linked parent (dd_out st) [i]" by simp
    moreover have "dfs_inv st color parent [] {i}" using Cons.prems(1) by (simp add: dfs_inv_def)
    ultimately obtain r where r: "dd_dfs (Suc (length (dd_nodes st))) st i color parent = Some r" "dfs_post st i [] color r"
      using dfs_correct(1) [OF wf _ True _ _ w, of parent "[]"] Cons.prems(2) by auto
    obtain c color1 parent1 where rr: "r = (c, color1, parent1)" by (cases r)
    show ?thesis
    proof (cases c)
      case (Some x)
      with r rr True show ?thesis by (auto simp: dfs_post_def)
    next
      case None
      with r rr have k: "dfs_inv st color1 parent1 [] {}" "color1 i = 2"
        "\<forall>x. color x = 2 \<longrightarrow> color1 x = 2" by (auto simp: dfs_post_def)
      have "\<forall>x < length (dd_nodes st). x \<in> set is \<or> color1 x = 2" using Cons.prems(3) k(2,3) by auto
      from Cons.IH [OF k(1) _ this] Cons.prems(2) r(1) rr None True show ?thesis by simp
    qed
  qed
qed

lemma linked_reach:
  "linked p out (c # stk) \<Longrightarrow> y \<in> set (c # stk) \<Longrightarrow> (y, c) \<in> {(u, v). v \<in> set (out u)}\<^sup>*"
proof (induction stk arbitrary: c)
  case (Cons a stk)
  then show ?case by (auto intro: rtrancl_into_rtrancl)
qed simp

text \<open>The search finds a cycle exactly if there is one, and then a stack that runs back from it.\<close>

lemma find_cycle_correct:
  assumes "dd_wf st"
  shows "(\<exists>p. dd_find_cycle st = Some (None, p) \<and> acyclic (dd_graph st)) \<or>
    (\<exists>c p stk. dd_find_cycle st = Some (Some c, p) \<and> (c, c) \<in> (dd_graph st)\<^sup>+ \<and> distinct (c # stk) \<and>
       linked p (dd_out st) (c # stk) \<and> set (c # stk) \<subseteq> {..< length (dd_nodes st)} \<and> dd_out st c \<noteq> [])"
proof -
  have "dfs_inv st (\<lambda>_. 0) (\<lambda>_. None) [] {}" by (simp add: dfs_inv_def done_ok_def)
  moreover have "set [0..<length (dd_nodes st)] \<subseteq> {..< length (dd_nodes st)}" by auto
  moreover have "\<forall>x < length (dd_nodes st). x \<in> set [0..<length (dd_nodes st)] \<or> (\<lambda>_. 0 :: nat) x = 2" by simp
  ultimately have s: "(\<exists>p. dd_find_cycle st = Some (None, p) \<and> acyclic (dd_graph st)) \<or>
    (\<exists>c p stk. dd_find_cycle st = Some (Some c, p) \<and> distinct (c # stk) \<and>
       linked p (dd_out st) (c # stk) \<and> set (c # stk) \<subseteq> {..< length (dd_nodes st)} \<and>
       (\<exists>y \<in> set (dd_out st c). y \<in> set (c # stk)))"
    unfolding dd_find_cycle_def by (rule search_correct [OF assms])
  have "(c, c) \<in> (dd_graph st)\<^sup>+"
    if "linked p (dd_out st) (c # stk)" "y \<in> set (dd_out st c)" "y \<in> set (c # stk)" for c p stk y
    using that linked_reach [OF that(1,3)] by (auto simp: dd_graph_def intro: rtrancl_into_trancl2)
  with s show ?thesis by (metis empty_iff list.set(1))
qed

section \<open>The graph is the wait-for relation\<close>

text \<open>A waiter waits for every holder of the same object, of another locker, that its mode conflicts with.\<close>

definition holds_up :: "lock_matrix \<Rightarrow> lock_entry list \<Rightarrow> lock_entry \<Rightarrow> (nat \<times> nat) set" where
  "holds_up mx gs w = (\<lambda>g. (le_locker w, le_locker g)) `
     {g \<in> set gs. le_locker g \<noteq> le_locker w \<and> conflicts mx (le_mode g) (le_mode w)}"

definition waits_for :: "lockmgr \<Rightarrow> (nat \<times> nat) set" where
  "waits_for m = (\<Union>ob \<in> set (concat (lm_parts m)). \<Union>w \<in> set (lo_waiting ob). holds_up (lm_matrix m) (lo_granted ob) w)"

definition lock_users :: "lockmgr \<Rightarrow> nat set" where
  "lock_users m = (\<Union>ob \<in> set (concat (lm_parts m)). le_locker ` (set (lo_waiting ob) \<union> set (lo_granted ob)))"

definition dd_id :: "dd_state \<Rightarrow> nat \<Rightarrow> nat" where
  "dd_id st u = dn_id (dd_nodes st ! u)"

definition dd_edges :: "dd_state \<Rightarrow> (nat \<times> nat) set" where
  "dd_edges st = (\<Union>u \<in> {..< length (dd_nodes st)}. (\<lambda>v. (dd_id st u, dd_id st v)) ` set (dd_out st u))"

definition dd_ids :: "dd_state \<Rightarrow> nat set" where
  "dd_ids st = dn_id ` set (dd_nodes st)"

definition dd_base :: "dd_state \<Rightarrow> bool" where
  "dd_base st = (distinct (map dn_id (dd_nodes st)) \<and> dd_wf st \<and> dd_n_edges st = card (dd_edges st))"

definition dd_full :: "dd_state \<Rightarrow> bool" where
  "dd_full st = (MAX_LOCKERS \<le> length (dd_nodes st) \<or> MAX_LOCKERS * 8 \<le> dd_n_edges st)"

text \<open>One stretch of the construction: it adds the edges \<open>E\<close> among nodes \<open>L\<close>, all of them unless a table is full.\<close>

definition dd_grow :: "(nat \<times> nat) set \<Rightarrow> nat set \<Rightarrow> dd_state \<Rightarrow> dd_state \<Rightarrow> bool" where
  "dd_grow E L st st' = (dd_base st' \<and> dd_edges st \<subseteq> dd_edges st' \<and> dd_edges st' \<subseteq> dd_edges st \<union> E \<and>
     dd_ids st' \<subseteq> dd_ids st \<union> L \<and> (dd_full st \<longrightarrow> dd_full st') \<and> (dd_full st' \<or> E \<subseteq> dd_edges st') \<and>
     (\<forall>k < length (dd_nodes st). k < length (dd_nodes st') \<and> dd_id st' k = dd_id st k))"

definition node_ok :: "dd_state \<Rightarrow> nat \<Rightarrow> nat option \<Rightarrow> bool" where
  "node_ok st i k = (case k of None \<Rightarrow> dd_full st | Some u \<Rightarrow> u < length (dd_nodes st) \<and> dd_id st u = i)"

lemma dd_grow_refl: "dd_base st \<Longrightarrow> dd_grow {} {} st st"
  by (simp add: dd_grow_def)

lemma dd_grow_trans:
  assumes "dd_grow E1 L1 st st1" "dd_grow E2 L2 st1 st2"
  shows "dd_grow (E1 \<union> E2) (L1 \<union> L2) st st2"
  using assms unfolding dd_grow_def by (intro conjI) (blast, blast, blast, blast, blast, blast, metis)

lemma dd_grow_base: "dd_grow E L st st' \<Longrightarrow> dd_base st'"
  by (simp add: dd_grow_def)

lemma node_ok_grow: "node_ok st i k \<Longrightarrow> dd_grow E L st st' \<Longrightarrow> node_ok st' i k"
  by (cases k) (auto simp: node_ok_def dd_grow_def)

lemma dd_edges_finite [simp]: "finite (dd_edges st)"
  by (simp add: dd_edges_def)

lemma dd_edges_iff:
  "(a, b) \<in> dd_edges st \<longleftrightarrow> (\<exists>u < length (dd_nodes st). \<exists>v \<in> set (dd_out st u). a = dd_id st u \<and> b = dd_id st v)"
  by (auto simp: dd_edges_def)

lemma dd_index_Some: "dd_index i ns = Some k \<Longrightarrow> k < length ns \<and> dn_id (ns ! k) = i"
  by (induction ns arbitrary: k) (auto split: if_splits)

lemma dd_index_None: "dd_index i ns = None \<longleftrightarrow> i \<notin> dn_id ` set ns"
  by (induction ns) auto

lemma dd_out_append:
  "dd_out (st\<lparr>dd_nodes := dd_nodes st @ [n]\<rparr>) u = (if u = length (dd_nodes st) then dn_out n else dd_out st u)"
  by (auto simp: dd_out_def nth_append)

lemma dd_node_new:
  fixes st lr now i defines "st' \<equiv> st\<lparr>dd_nodes := dd_nodes st @ [dd_node_of i lr now]\<rparr>"
  assumes b: "dd_base st" and i: "dd_index i (dd_nodes st) = None"
  shows "dd_grow {} {i} st st' \<and> node_ok st' i (Some (length (dd_nodes st)))"
proof -
  note new = st'_def
  let ?n = "dd_node_of i lr now"
  have n: "dn_id ?n = i" "dn_out ?n = []" by (auto simp: dd_node_of_def split: option.split)
  have len: "length (dd_nodes st') = Suc (length (dd_nodes st))" by (simp add: new)
  have out: "dd_out st' u = dd_out st u" for u
    using n(2) by (simp add: new dd_out_append) (simp add: dd_out_def)
  have ids: "dd_id st' u = dd_id st u" if "u < length (dd_nodes st)" for u
    using that by (simp add: new dd_id_def nth_append)
  have w: "dd_wf st" using b by (simp add: dd_base_def)
  have last_out: "dd_out st (length (dd_nodes st)) = []" by (simp add: dd_out_def)
  have e: "dd_edges st' = dd_edges st"
  proof -
    have "dd_edges st' = (\<Union>u \<in> {..< length (dd_nodes st)}. (\<lambda>v. (dd_id st' u, dd_id st' v)) ` set (dd_out st u))"
      by (simp add: dd_edges_def out len lessThan_Suc last_out)
    also have "\<dots> = dd_edges st" unfolding dd_edges_def
    proof (intro SUP_cong refl image_cong)
      fix u v assume "u \<in> {..< length (dd_nodes st)}" "v \<in> set (dd_out st u)"
      with w show "(dd_id st' u, dd_id st' v) = (dd_id st u, dd_id st v)" by (simp add: ids dd_wf_def)
    qed
    finally show ?thesis .
  qed
  have wf': "dd_wf st'" using w unfolding dd_wf_def out len by (meson less_SucI)
  have "dd_base st'" using b i n(1) wf' e by (simp add: dd_base_def new dd_index_None)
  moreover have "dd_ids st' = dd_ids st \<union> {i}" by (simp add: dd_ids_def new n(1))
  moreover have "node_ok st' i (Some (length (dd_nodes st)))" by (simp add: node_ok_def new dd_id_def n(1))
  moreover have "dd_full st \<longrightarrow> dd_full st'" by (auto simp: dd_full_def new)
  ultimately show ?thesis by (simp add: dd_grow_def e len ids)
qed

lemma dd_node_idx_grow:
  assumes b: "dd_base st" and r: "dd_node_idx i lr now st = (k, st')"
  shows "dd_grow {} {i} st st'" "node_ok st' i k"
proof -
  have "dd_grow {} {i} st st' \<and> node_ok st' i k"
  proof (cases "dd_index i (dd_nodes st)")
    case (Some u)
    with r have "k = Some u" "st' = st" by (simp_all add: dd_node_idx_def)
    with b dd_index_Some [OF Some] show ?thesis by (auto simp: dd_grow_def node_ok_def dd_id_def)
  next
    case None
    show ?thesis
    proof (cases "MAX_LOCKERS \<le> length (dd_nodes st)")
      case True
      with r None have "k = None" "st' = st" by (simp_all add: dd_node_idx_def)
      with b True show ?thesis by (auto simp: dd_grow_def node_ok_def dd_full_def)
    next
      case False
      with r None have "k = Some (length (dd_nodes st))" "st' = st\<lparr>dd_nodes := dd_nodes st @ [dd_node_of i lr now]\<rparr>"
        by (simp_all add: dd_node_idx_def)
      with dd_node_new [OF b None] show ?thesis by blast
    qed
  qed
  then show "dd_grow {} {i} st st'" "node_ok st' i k" by simp_all
qed

lemma dd_set_out_sel [simp]:
  "length (dd_nodes (dd_set_out u vs st)) = length (dd_nodes st)" "dd_n_edges (dd_set_out u vs st) = dd_n_edges st"
  by (simp_all add: dd_set_out_def)

lemma dd_set_out_id [simp]: "dd_id (dd_set_out u vs st) k = dd_id st k"
  by (cases "u < length (dd_nodes st)") (auto simp: dd_set_out_def dd_id_def nth_list_update_If not_less list_update_beyond)

lemma dd_set_out_out: "u < length (dd_nodes st) \<Longrightarrow> dd_out (dd_set_out u vs st) k = (if k = u then vs else dd_out st k)"
  by (auto simp: dd_out_def dd_set_out_def nth_list_update)

lemma dd_n_edges_sel [simp]: "dd_out (st\<lparr>dd_n_edges := n\<rparr>) u = dd_out st u" "dd_id (st\<lparr>dd_n_edges := n\<rparr>) u = dd_id st u"
  by (simp_all add: dd_out_def dd_id_def)

lemma dd_set_out_ids: "map dn_id (dd_nodes (dd_set_out u vs st)) = map dn_id (dd_nodes st)"
  by (cases "u < length (dd_nodes st)") (simp_all add: dd_set_out_def map_update list_update_same_conv not_less list_update_beyond)

lemma dd_add_edge_grow:
  assumes b: "dd_base st" and f: "node_ok st i from" and t: "node_ok st j to"
  shows "dd_grow {(i, j)} {} st (dd_add_edge from to st)"
proof -
  consider (none) "from = None \<or> to = None"
    | (full) u v where "from = Some u" "to = Some v" "MAX_LOCKERS * 8 \<le> dd_n_edges st"
    | (dup) u v where "from = Some u" "to = Some v" "\<not> MAX_LOCKERS * 8 \<le> dd_n_edges st" "v \<in> set (dd_out st u)"
    | (new) u v where "from = Some u" "to = Some v" "\<not> MAX_LOCKERS * 8 \<le> dd_n_edges st" "v \<notin> set (dd_out st u)"
    by (cases "from"; cases to; cases "MAX_LOCKERS * 8 \<le> dd_n_edges st") auto
  then show ?thesis
  proof cases
    case none
    then have "dd_add_edge from to st = st" by (auto simp: dd_add_edge_def split: option.split)
    moreover have "dd_full st" using none f t by (auto simp: node_ok_def)
    ultimately show ?thesis using b by (auto simp: dd_grow_def)
  next
    case full
    then have "dd_add_edge from to st = st" "dd_full st" by (simp_all add: dd_add_edge_def dd_full_def)
    then show ?thesis using b by (auto simp: dd_grow_def)
  next
    case dup
    then have "dd_add_edge from to st = st" by (simp add: dd_add_edge_def)
    moreover have "(i, j) \<in> dd_edges st" using dup f t by (auto simp: dd_edges_def node_ok_def)
    ultimately show ?thesis using b by (auto simp: dd_grow_def)
  next
    case new
    let ?s = "dd_add_edge from to st"
    have uv: "u < length (dd_nodes st)" "dd_id st u = i" "v < length (dd_nodes st)" "dd_id st v = j"
      using new f t by (simp_all add: node_ok_def)
    have s: "?s = (dd_set_out u (v # dd_out st u) st)\<lparr>dd_n_edges := dd_n_edges st + 1\<rparr>"
      using new by (simp add: dd_add_edge_def)
    have out: "dd_out ?s k = (if k = u then v # dd_out st u else dd_out st k)" for k
      using dd_set_out_out [OF uv(1), of "v # dd_out st u" k] by (simp add: s)
    have id: "dd_id ?s k = dd_id st k" for k
      using dd_set_out_id [of u "v # dd_out st u" st k] by (simp add: s)
    have len: "length (dd_nodes ?s) = length (dd_nodes st)" and n: "dd_n_edges ?s = dd_n_edges st + 1"
      by (simp_all add: s)
    have ids: "map dn_id (dd_nodes ?s) = map dn_id (dd_nodes st)" using dd_set_out_ids by (simp add: s)
    have e: "dd_edges ?s = insert (i, j) (dd_edges st)"
    proof -
      have "(a, b) \<in> dd_edges ?s \<longleftrightarrow> (a, b) = (i, j) \<or> (a, b) \<in> dd_edges st" for a b
        unfolding dd_edges_iff id out len using uv by (auto split: if_splits)
      then show ?thesis by auto
    qed
    have inj: "x = y" if "x < length (dd_nodes st)" "y < length (dd_nodes st)" "dd_id st x = dd_id st y" for x y
      using b that by (simp add: dd_base_def dd_id_def distinct_conv_nth)
        (metis (no_types, lifting) nth_map)
    have wf: "\<forall>x \<in> set (dd_out st k). x < length (dd_nodes st)" for k using b by (simp add: dd_base_def dd_wf_def)
    have "(i, j) \<notin> dd_edges st"
    proof
      assume "(i, j) \<in> dd_edges st"
      then obtain x y where "x < length (dd_nodes st)" "y \<in> set (dd_out st x)" "dd_id st x = i" "dd_id st y = j"
        by (auto simp: dd_edges_def)
      then have "x = u" "y = v" using inj uv wf by auto
      with \<open>y \<in> set (dd_out st x)\<close> new(4) show False by simp
    qed
    then have c: "card (dd_edges ?s) = dd_n_edges st + 1" using b by (simp add: e dd_base_def)
    have w: "dd_wf ?s" unfolding dd_wf_def out len using wf uv(3) by auto
    have "dd_base ?s" using b by (simp add: dd_base_def ids w c n)
    moreover have "dd_ids ?s = dd_ids st" unfolding dd_ids_def using ids by (metis list.set_map)
    ultimately show ?thesis using e by (auto simp: dd_grow_def len id n dd_full_def)
  qed
qed

lemma dd_holders_grow:
  "dd_base st \<Longrightarrow> node_ok st (le_locker w) from \<Longrightarrow>
    dd_grow (holds_up (lm_matrix m) gs w) (le_locker ` set gs) st (dd_holders m now from w gs st)"
proof (induction gs arbitrary: st)
  case Nil
  then show ?case by (simp add: holds_up_def dd_grow_refl)
next
  case (Cons g gs)
  show ?case
  proof (cases "le_locker g = le_locker w \<or> \<not> conflicts (lm_matrix m) (le_mode g) (le_mode w)")
    case True
    then have "holds_up (lm_matrix m) (g # gs) w = holds_up (lm_matrix m) gs w" by (auto simp: holds_up_def)
    with Cons.IH [OF Cons.prems] True show ?thesis by (auto simp: dd_grow_def)
  next
    case False
    obtain k st1 where r: "dd_node_idx (le_locker g) (locker_find m (le_locker g)) now st = (k, st1)" by (cases "dd_node_idx (le_locker g) (locker_find m (le_locker g)) now st")
    note g1 = dd_node_idx_grow [OF Cons.prems(1) r]
    note f1 = node_ok_grow [OF Cons.prems(2) g1(1)]
    note g2 = dd_add_edge_grow [OF dd_grow_base [OF g1(1)] f1 g1(2)]
    note g3 = Cons.IH [OF dd_grow_base [OF g2] node_ok_grow [OF f1 g2]]
    have h: "holds_up (lm_matrix m) (g # gs) w = {} \<union> {(le_locker w, le_locker g)} \<union> holds_up (lm_matrix m) gs w"
      using False by (auto simp: holds_up_def)
    have l: "le_locker ` set (g # gs) = {le_locker g} \<union> {} \<union> le_locker ` set gs" by simp
    show ?thesis unfolding h l using dd_grow_trans [OF dd_grow_trans [OF g1(1) g2] g3] False r by simp
  qed
qed

lemma dd_waiters_grow:
  "dd_base st \<Longrightarrow> dd_grow (\<Union>w \<in> set ws. holds_up (lm_matrix m) gs w) (le_locker ` (set ws \<union> set gs)) st
     (dd_waiters m now gs ws st)"
proof (induction ws arbitrary: st)
  case Nil
  then show ?case by (auto simp: dd_grow_def)
next
  case (Cons w ws)
  obtain k st1 where r: "dd_node_idx (le_locker w) (locker_find m (le_locker w)) now st = (k, st1)"
    by (cases "dd_node_idx (le_locker w) (locker_find m (le_locker w)) now st")
  note g1 = dd_node_idx_grow [OF Cons.prems r]
  note g2 = dd_holders_grow [OF dd_grow_base [OF g1(1)] g1(2), where m = m and gs = gs and now = now]
  note g3 = Cons.IH [OF dd_grow_base [OF g2]]
  have h: "(\<Union>x \<in> set (w # ws). holds_up (lm_matrix m) gs x) =
      {} \<union> holds_up (lm_matrix m) gs w \<union> (\<Union>x \<in> set ws. holds_up (lm_matrix m) gs x)" by simp
  have l: "le_locker ` (set (w # ws) \<union> set gs) = {le_locker w} \<union> le_locker ` set gs \<union> le_locker ` (set ws \<union> set gs)"
    by auto
  show ?case unfolding h l using dd_grow_trans [OF dd_grow_trans [OF g1(1) g2] g3] r by simp
qed

lemma dd_build_grow:
  "dd_grow (waits_for m) (lock_users m) \<lparr>dd_nodes = [], dd_n_edges = 0\<rparr> (dd_build m now)"
proof -
  have "dd_base st \<Longrightarrow> dd_grow (\<Union>ob \<in> set obs. \<Union>w \<in> set (lo_waiting ob). holds_up (lm_matrix m) (lo_granted ob) w)
      (\<Union>ob \<in> set obs. le_locker ` (set (lo_waiting ob) \<union> set (lo_granted ob))) st
      (fold (\<lambda>ob st. dd_waiters m now (lo_granted ob) (lo_waiting ob) st) obs st)" for obs st
  proof (induction obs arbitrary: st)
    case Nil
    then show ?case by (simp add: dd_grow_refl)
  next
    case (Cons ob obs)
    note g1 = dd_waiters_grow [OF Cons.prems, where ws = "lo_waiting ob" and gs = "lo_granted ob" and m = m and now = now]
    from dd_grow_trans [OF g1 Cons.IH [OF dd_grow_base [OF g1]]] show ?case by simp
  qed
  from this [of "\<lparr>dd_nodes = [], dd_n_edges = 0\<rparr>" "concat (lm_parts m)"] show ?thesis
    by (simp add: dd_build_def waits_for_def lock_users_def dd_base_def dd_wf_def dd_out_def dd_edges_def)
qed

text \<open>
  Every edge of the graph is a real wait, and, when neither table is full, every wait is an edge.
\<close>

lemma dd_build_edges:
  shows "dd_edges (dd_build m now) \<subseteq> waits_for m"
    and "card (lock_users m) < MAX_LOCKERS \<Longrightarrow> card (waits_for m) < MAX_LOCKERS * 8 \<Longrightarrow>
      dd_edges (dd_build m now) = waits_for m"
    and "dd_base (dd_build m now)"
proof -
  let ?st = "dd_build m now"
  note g = dd_build_grow [of m now, unfolded dd_grow_def]
  show b: "dd_base ?st" using g by blast
  have fin: "finite (waits_for m)" "finite (lock_users m)" by (simp_all add: waits_for_def holds_up_def lock_users_def)
  show sub: "dd_edges ?st \<subseteq> waits_for m" using g by (auto simp: dd_edges_def)
  have "dd_ids ?st \<subseteq> lock_users m" using g by (auto simp: dd_ids_def)
  then have n: "card (dd_ids ?st) \<le> card (lock_users m)" by (rule card_mono [OF fin(2)])
  have "card (dd_ids ?st) = length (dd_nodes ?st)"
    using b distinct_card [of "map dn_id (dd_nodes ?st)"] by (simp add: dd_base_def dd_ids_def)
  moreover have "dd_n_edges ?st \<le> card (waits_for m)" using b card_mono [OF fin(1) sub] by (simp add: dd_base_def)
  moreover assume "card (lock_users m) < MAX_LOCKERS" "card (waits_for m) < MAX_LOCKERS * 8"
  ultimately have "\<not> dd_full ?st" using n by (simp add: dd_full_def)
  with g sub show "dd_edges ?st = waits_for m" by blast
qed

lemma dd_id_inj:
  assumes "dd_base st" "u < length (dd_nodes st)" "v < length (dd_nodes st)" "dd_id st u = dd_id st v"
  shows "u = v"
proof -
  have "distinct (map dn_id (dd_nodes st))" using assms(1) by (simp add: dd_base_def)
  then show ?thesis using nth_eq_iff_index_eq [of "map dn_id (dd_nodes st)" u v] assms(2-4) by (simp add: dd_id_def)
qed

lemma dd_graph_bound:
  assumes "dd_wf st" "(u, v) \<in> dd_graph st"
  shows "u < length (dd_nodes st)" "v < length (dd_nodes st)"
  using assms by (auto simp: dd_graph_def dd_wf_def dd_out_def split: if_splits)

text \<open>Paths of the relation on lockers lift to paths on nodes, also those that avoid some lockers.\<close>

lemma dd_edges_lift:
  assumes b: "dd_base st"
    and sub: "\<And>u v. u < length (dd_nodes st) \<Longrightarrow> v \<in> set (dd_out st u) \<Longrightarrow> (dd_id st u, dd_id st v) \<in> E \<Longrightarrow> (u, v) \<in> G"
      "E \<subseteq> dd_edges st"
    and t: "(a, c) \<in> E\<^sup>+"
  shows "\<exists>u v. u < length (dd_nodes st) \<and> v < length (dd_nodes st) \<and> dd_id st u = a \<and> dd_id st v = c \<and> (u, v) \<in> G\<^sup>+"
proof -
  have edge: "\<exists>u v. u < length (dd_nodes st) \<and> v < length (dd_nodes st) \<and> x = dd_id st u \<and> y = dd_id st v \<and> (u, v) \<in> G"
    if xy: "(x, y) \<in> E" for x y
  proof -
    from xy sub(2) have "(x, y) \<in> dd_edges st" by blast
    then obtain u v where uv: "u < length (dd_nodes st)" "v \<in> set (dd_out st u)" "x = dd_id st u" "y = dd_id st v"
      unfolding dd_edges_iff by blast
    then have "v < length (dd_nodes st)" using b by (simp add: dd_base_def dd_wf_def)
    moreover have "(u, v) \<in> G" using sub(1) uv xy by simp
    ultimately show ?thesis using uv by blast
  qed
  from t show ?thesis
  proof induction
    case (base y)
    from edge [OF base] show ?case by blast
  next
    case (step y z)
    then obtain u v where uv: "u < length (dd_nodes st)" "v < length (dd_nodes st)" "dd_id st u = a" "dd_id st v = y"
      "(u, v) \<in> G\<^sup>+" by blast
    from edge [OF step(2)] obtain v' w where w: "v' < length (dd_nodes st)" "w < length (dd_nodes st)"
      "y = dd_id st v'" "z = dd_id st w" "(v', w) \<in> G" by blast
    have "v' = v" using dd_id_inj [OF b w(1) uv(2)] w(3) uv(4) by simp
    with uv w show ?case by (blast intro: trancl_into_trancl)
  qed
qed

lemma dd_edges_trancl:
  assumes "dd_base st" "(a, c) \<in> (dd_edges st)\<^sup>+"
  shows "\<exists>u v. u < length (dd_nodes st) \<and> v < length (dd_nodes st) \<and> dd_id st u = a \<and> dd_id st v = c \<and> (u, v) \<in> (dd_graph st)\<^sup>+"
  by (rule dd_edges_lift [OF assms(1) _ subset_refl assms(2)]) (simp add: dd_graph_def)

lemma dd_graph_trancl: "(u, v) \<in> (dd_graph st)\<^sup>+ \<Longrightarrow> (dd_id st u, dd_id st v) \<in> (dd_edges st)\<^sup>+"
proof (induction rule: trancl_induct)
  case (base y)
  then have "(dd_id st u, dd_id st y) \<in> dd_edges st"
    unfolding dd_edges_iff by (auto simp: dd_graph_def dd_out_def split: if_splits)
  then show ?case by blast
next
  case (step y z)
  then have "(dd_id st y, dd_id st z) \<in> dd_edges st"
    unfolding dd_edges_iff by (auto simp: dd_graph_def dd_out_def split: if_splits)
  with step show ?case by (blast intro: trancl_into_trancl)
qed

lemma dd_acyclic_iff: "dd_base st \<Longrightarrow> acyclic (dd_graph st) \<longleftrightarrow> acyclic (dd_edges st)"
  using dd_edges_trancl [of st] dd_graph_trancl [of _ _ st] dd_id_inj [of st] unfolding acyclic_def by metis

section \<open>The loop over cycles\<close>

lemma dd_chain_linked:
  "linked p out (u # stk) \<Longrightarrow> start \<notin> set stk \<Longrightarrow> length stk < n \<Longrightarrow> dd_chain n p start u = u # stk"
proof (induction stk arbitrary: u n)
  case Nil
  then show ?case by (cases n) auto
next
  case (Cons a stk)
  then obtain n' where "n = Suc n'" by (cases n) auto
  with Cons show ?case by simp
qed

lemma dd_best_mem: "dd_best policy rnd k st us victim best seen = Some v \<Longrightarrow> v = victim \<or> v \<in> set us"
  by (induction policy rnd k st us victim best seen rule: dd_best.induct)
    (auto simp: Let_def split: if_splits)

lemma dd_best_Some: "policy \<noteq> VictimExpire \<Longrightarrow> dd_best policy rnd k st us victim best seen \<noteq> None"
  by (induction us arbitrary: k victim best seen) (simp_all add: Let_def)

lemma linked_last: "linked p out (u # stk) \<Longrightarrow> p (last (u # stk)) = None"
  by (induction stk arbitrary: u) auto

text \<open>A victim is one of the lockers of the walk, which all wait; only \<open>VictimExpire\<close> may find none.\<close>

lemma dd_pick_victim_mem:
  assumes l: "linked p (dd_out st) (c # stk)" and d: "distinct (c # stk)"
    and s: "set (c # stk) \<subseteq> {..< length (dd_nodes st)}"
  shows "dd_pick_victim op rnd st c p = Some v \<Longrightarrow> v \<in> set (c # stk)"
    and "op_victim op \<noteq> VictimExpire \<Longrightarrow> dd_pick_victim op rnd st c p \<noteq> None"
proof -
  have "card (set (c # stk)) \<le> card {..< length (dd_nodes st)}" using s by (intro card_mono) auto
  then have n: "length stk < length (dd_nodes st)" using distinct_card [OF d] by simp
  have w: "dd_chain (length (dd_nodes st)) p c c = c # stk" using dd_chain_linked [OF l _ n] d by simp
  have root: "linked p (dd_out st) [last (c # stk)]" using linked_last [OF l] by simp
  have w2: "dd_chain (length (dd_nodes st)) p c (last (c # stk)) = [last (c # stk)]"
    by (rule dd_chain_linked [OF root]) (use n in auto)
  note defs = dd_pick_victim_def Let_def w
  show "v \<in> set (c # stk)" if v: "dd_pick_victim op rnd st c p = Some v"
  proof (cases "op_victim op = VictimCustom \<and> op_victim_pick_fn op \<noteq> None")
    case False
    then have "dd_best (op_victim op) rnd 1 st (c # stk) c (dd_score (op_victim op) (rnd 0) (dd_nodes st ! c)) False = Some v"
      using v unfolding defs by (cases "op_victim op"; cases "op_victim_pick_fn op") (simp_all del: dd_best.simps)
    from dd_best_mem [OF this] show ?thesis by auto
  next
    case True
    then obtain pick where pick: "op_victim_pick_fn op = Some pick" and o: "op_victim op = VictimCustom" by auto
    let ?cand = "take 64 (c # stk)"
    show ?thesis
    proof (cases "0 \<le> pick ?cand \<and> pick ?cand < int (length ?cand)")
      case True
      with v pick o have "v = ?cand ! nat (pick ?cand)" unfolding defs by simp
      with True have "v \<in> set ?cand" by (metis nat_less_iff nth_mem)
      then show ?thesis by (rule in_set_takeD)
    next
      case False
      obtain l where ll: "last (c # stk) = l" by blast
      from False v pick o have "dd_best VictimCustom rnd 1 st [l] c
          (dd_score VictimCustom (rnd 0) (dd_nodes st ! l)) False = Some v"
        unfolding defs ll using w2 [unfolded ll] linked_last [OF l, unfolded ll]
        by (auto simp del: dd_best.simps take_Suc_Cons take_Cons_numeral split: if_splits)
      from dd_best_mem [OF this] last_in_set [of "c # stk"] ll show ?thesis by auto
    qed
  qed
  show "dd_pick_victim op rnd st c p \<noteq> None" if "op_victim op \<noteq> VictimExpire"
    using dd_best_Some [OF that] that unfolding dd_pick_victim_def Let_def
    by (cases "op_victim op"; cases "op_victim_pick_fn op") (simp_all del: dd_best.simps not_None_eq)
qed

lemma linked_busy:
  "linked p out (c # stk) \<Longrightarrow> out c \<noteq> [] \<Longrightarrow> v \<in> set (c # stk) \<Longrightarrow> out v \<noteq> []"
proof (induction stk arbitrary: c)
  case (Cons a stk)
  then have "linked p out (a # stk)" "out a \<noteq> []" by auto
  with Cons show ?case by auto
qed simp

definition dd_busy :: "dd_state \<Rightarrow> nat set" where
  "dd_busy st = {u. dd_out st u \<noteq> []}"

lemma dd_busy_sub: "dd_busy st \<subseteq> {..< length (dd_nodes st)}"
  by (auto simp: dd_busy_def dd_out_def split: if_splits)

lemma dd_cut:
  assumes "u < length (dd_nodes st)" "dd_out st u \<noteq> []"
  shows "card (dd_busy (dd_set_out u [] st)) < card (dd_busy st)"
    and "dd_graph (dd_set_out u [] st) = {e \<in> dd_graph st. fst e \<noteq> u}"
proof -
  have b: "dd_busy (dd_set_out u [] st) = dd_busy st - {u}" by (auto simp: dd_busy_def dd_set_out_out [OF assms(1)])
  have "finite (dd_busy st)" using dd_busy_sub finite_subset by blast
  moreover have "u \<in> dd_busy st" using assms(2) by (simp add: dd_busy_def)
  ultimately show "card (dd_busy (dd_set_out u [] st)) < card (dd_busy st)"
    unfolding b by (rule card_Diff1_less)
  show "dd_graph (dd_set_out u [] st) = {e \<in> dd_graph st. fst e \<noteq> u}"
    by (auto simp: dd_graph_def dd_set_out_out [OF assms(1)] split: if_splits)
qed

lemma dd_cut_wf: "dd_wf st \<Longrightarrow> u < length (dd_nodes st) \<Longrightarrow> dd_wf (dd_set_out u [] st)"
  by (auto simp: dd_wf_def dd_set_out_out split: if_splits)

text \<open>What a release leaves alone.\<close>

definition same_conf :: "lockmgr \<Rightarrow> lockmgr \<Rightarrow> bool" where
  "same_conf m m' = (lm_opts m' = lm_opts m \<and> lm_n_deadlocks_found m' = lm_n_deadlocks_found m)"

lemma same_conf_trans: "same_conf m m1 \<Longrightarrow> same_conf m1 m2 \<Longrightarrow> same_conf m m2"
  by (simp add: same_conf_def)

lemma release_entry_conf: "same_conf m (release_entry skip key i m)"
proof (cases "obj_lookup m key")
  case None
  then show ?thesis by (simp add: release_entry_def same_conf_def)
next
  case (Some ob)
  obtain ob' wk where r: "obj_release (lm_matrix m) skip i ob = (ob', wk)" by (cases "obj_release (lm_matrix m) skip i ob")
  have f: "same_conf x (obj_maybe_free key x)" for x
    by (cases "obj_lookup x key") (simp_all add: obj_maybe_free_def same_conf_def set_part_def)
  have s: "same_conf x ((set_obj x ob')\<lparr>lm_woken := wk'\<rparr>)" for x wk'
    by (simp add: same_conf_def set_obj_def set_part_def)
  have c: "same_conf m (count_release l k m)" for l k by (simp add: same_conf_def count_release_def locker_update_def)
  have n: "same_conf m (m\<lparr>lm_n_waiting := k\<rparr>)" for k by (simp add: same_conf_def)
  show ?thesis
  proof (cases "entry_at i (lo_granted ob)")
    case None
    from same_conf_trans [OF n same_conf_trans [OF s f]] Some r None show ?thesis
      by (simp add: release_entry_def Let_def)
  next
    case (Some e)
    from same_conf_trans [OF c same_conf_trans [OF s f]] \<open>obj_lookup m key = Some ob\<close> r Some show ?thesis
      by (simp add: release_entry_def Let_def)
  qed
qed

lemma release_fold_conf: "same_conf m (fold (release_entry skip key) ids m)"
proof (induction ids arbitrary: m)
  case (Cons i ids)
  from same_conf_trans [OF release_entry_conf Cons.IH] show ?case by simp
qed (simp add: same_conf_def)

lemma release_locker_obj_conf: "same_conf m (snd (release_locker_obj skip locker key m))"
proof -
  have "same_conf m ((set_obj m ob)\<lparr>lm_woken := wk\<rparr>)" for ob wk
    by (simp add: same_conf_def set_obj_def set_part_def)
  from same_conf_trans [OF this release_fold_conf] show ?thesis
    by (simp add: release_locker_obj_def Let_def same_conf_def split: option.split prod.split)
qed

lemma release_keys_conf: "same_conf m (snd (release_keys skip locker ks m))"
proof (induction ks arbitrary: m)
  case (Cons k ks)
  from same_conf_trans [OF release_locker_obj_conf Cons.IH] show ?case by (simp add: split_beta)
qed (simp add: same_conf_def)

lemma release_parts_conf: "same_conf m (snd (release_parts skip locker ps m))"
proof (induction ps arbitrary: m)
  case (Cons p ps)
  from same_conf_trans [OF release_keys_conf Cons.IH] show ?case by (simp add: split_beta release_part_def)
qed (simp add: same_conf_def)

lemma dd_kill_ok:
  shows "lm_opts (dd_kill skip vid m) = lm_opts m" "lm_n_deadlocks_found (dd_kill skip vid m) = lm_n_deadlocks_found m + 1"
    and "lm_inv m \<Longrightarrow> lm_inv (dd_kill skip vid m)"
proof -
  let ?m = "snd (release_parts skip vid [0..<length (lm_parts m)] m)"
  note c = release_parts_conf [of m skip vid "[0..<length (lm_parts m)]", unfolded same_conf_def]
  show "lm_opts (dd_kill skip vid m) = lm_opts m" "lm_n_deadlocks_found (dd_kill skip vid m) = lm_n_deadlocks_found m + 1"
    using c by (simp_all add: dd_kill_def Let_def)
  assume "lm_inv m"
  from release_parts_inv [OF this, of skip vid "[0..<length (lm_parts m)]"] show "lm_inv (dd_kill skip vid m)"
    by (rule inv_cong) (simp_all add: dd_kill_def Let_def)
qed

text \<open>
  The loop ends: each round empties the successors of a node that had some. What is left has
  no cycle, and every edge cut starts at a locker that was aborted (unless the policy only
  takes expired lockers).
\<close>

lemma dd_loop_ok:
  assumes "dd_wf st" "card (dd_busy st) < n"
  shows "\<exists>m' st' ks. dd_loop n skip rnd m st = Some (m', st', ks) \<and> acyclic (dd_graph st') \<and>
    (lm_inv m \<longrightarrow> lm_inv m') \<and> lm_opts m' = lm_opts m \<and>
    lm_n_deadlocks_found m' = lm_n_deadlocks_found m + int (length ks) \<and>
    (acyclic (dd_graph st) \<longrightarrow> ks = [] \<and> m' = m) \<and>
    dd_graph st' \<subseteq> dd_graph st \<and>
    (\<forall>k \<in> set ks. \<exists>e \<in> dd_graph st. dd_id st (fst e) = k) \<and>
    (op_victim (lm_opts m) \<noteq> VictimExpire \<longrightarrow>
      (\<forall>e \<in> dd_graph st. e \<in> dd_graph st' \<or> dd_id st (fst e) \<in> set ks))"
  using assms
proof (induction n arbitrary: st m)
  case (Suc n)
  from find_cycle_correct [OF Suc.prems(1)] show ?case
  proof (elim disjE exE conjE)
    fix p assume "dd_find_cycle st = Some (None, p)" "acyclic (dd_graph st)"
    then show ?thesis by simp
  next
    fix c p stk
    assume f: "dd_find_cycle st = Some (Some c, p)" and cyc: "(c, c) \<in> (dd_graph st)\<^sup>+"
      and d: "distinct (c # stk)" and l: "linked p (dd_out st) (c # stk)"
      and s: "set (c # stk) \<subseteq> {..< length (dd_nodes st)}" and o: "dd_out st c \<noteq> []"
    have nac: "\<not> acyclic (dd_graph st)" using cyc by (auto simp: acyclic_def)
    have cut: "card (dd_busy (dd_set_out u [] st)) < n" "dd_wf (dd_set_out u [] st)"
      "dd_graph (dd_set_out u [] st) = {e \<in> dd_graph st. fst e \<noteq> u}" "\<exists>e \<in> dd_graph st. fst e = u"
      if "u \<in> set (c # stk)" for u
    proof -
      have u: "u < length (dd_nodes st)" "dd_out st u \<noteq> []" using that s linked_busy [OF l o that] by auto
      from dd_cut [OF u] Suc.prems dd_cut_wf [OF _ u(1)]
      show "card (dd_busy (dd_set_out u [] st)) < n" "dd_wf (dd_set_out u [] st)"
        "dd_graph (dd_set_out u [] st) = {e \<in> dd_graph st. fst e \<noteq> u}" by simp_all
      from u(2) obtain w where "(u, w) \<in> dd_graph st" by (cases "dd_out st u") (auto simp: dd_graph_def)
      then show "\<exists>e \<in> dd_graph st. fst e = u" by force
    qed
    show ?thesis
    proof (cases "dd_pick_victim (lm_opts m) (rnd n) st c p")
      case None
      with dd_pick_victim_mem(2) [OF l d s] have ex: "op_victim (lm_opts m) = VictimExpire" by blast
      have "c \<in> set (c # stk)" by simp
      note k = cut [OF this]
      from Suc.IH [OF k(2,1), of m] obtain m' st' ks where
        r: "dd_loop n skip rnd m (dd_set_out c [] st) = Some (m', st', ks)" "acyclic (dd_graph st')"
          "lm_inv m \<longrightarrow> lm_inv m'" "lm_opts m' = lm_opts m"
          "lm_n_deadlocks_found m' = lm_n_deadlocks_found m + int (length ks)"
          "dd_graph st' \<subseteq> dd_graph (dd_set_out c [] st)"
          "\<forall>k \<in> set ks. \<exists>e \<in> dd_graph (dd_set_out c [] st). dd_id (dd_set_out c [] st) (fst e) = k" by blast
      have "dd_graph st' \<subseteq> dd_graph st" using r(6) k(3) by blast
      moreover have "\<forall>k \<in> set ks. \<exists>e \<in> dd_graph st. dd_id st (fst e) = k" 
        using r(7) unfolding k(3) dd_set_out_id by blast
      moreover have "dd_loop (Suc n) skip rnd m st = Some (m', st', ks)" using f None r(1) by simp
      ultimately show ?thesis using r nac ex by blast
    next
      case (Some v)
      let ?vid = "dd_id st v" and ?st = "dd_set_out v [] st"
      have v: "v \<in> set (c # stk)" by (rule dd_pick_victim_mem(1) [OF l d s Some])
      note k = cut [OF v]
      from Suc.IH [OF k(2,1), of "dd_kill skip ?vid m"] obtain m' st' ks where
        r: "dd_loop n skip rnd (dd_kill skip ?vid m) ?st = Some (m', st', ks)" "acyclic (dd_graph st')"
          "lm_inv (dd_kill skip ?vid m) \<longrightarrow> lm_inv m'" "lm_opts m' = lm_opts (dd_kill skip ?vid m)"
          "lm_n_deadlocks_found m' = lm_n_deadlocks_found (dd_kill skip ?vid m) + int (length ks)"
          "dd_graph st' \<subseteq> dd_graph ?st" "\<forall>k \<in> set ks. \<exists>e \<in> dd_graph ?st. dd_id ?st (fst e) = k"
          "op_victim (lm_opts (dd_kill skip ?vid m)) \<noteq> VictimExpire \<longrightarrow>
            (\<forall>e \<in> dd_graph ?st. e \<in> dd_graph st' \<or> dd_id ?st (fst e) \<in> set ks)" by blast
      have "dd_graph st' \<subseteq> dd_graph st" using r(6) k(3) by blast
      moreover have "\<forall>k \<in> set (?vid # ks). \<exists>e \<in> dd_graph st. dd_id st (fst e) = k"
      proof -
        have "\<forall>k \<in> set ks. \<exists>e \<in> dd_graph st. dd_id st (fst e) = k" using r(7) unfolding k(3) dd_set_out_id by blast
        with k(4) show ?thesis by auto
      qed
      moreover have "op_victim (lm_opts m) \<noteq> VictimExpire \<longrightarrow>
          (\<forall>e \<in> dd_graph st. e \<in> dd_graph st' \<or> dd_id st (fst e) \<in> set (?vid # ks))"
      proof (intro impI ballI)
        fix e assume o1: "op_victim (lm_opts m) \<noteq> VictimExpire" and e: "e \<in> dd_graph st"
        show "e \<in> dd_graph st' \<or> dd_id st (fst e) \<in> set (?vid # ks)"
        proof (cases "fst e = v")
          case False
          with e have "e \<in> dd_graph ?st" by (simp add: k(3))
          with r(8) o1 show ?thesis unfolding dd_kill_ok by auto
        qed simp
      qed
      moreover have "dd_loop (Suc n) skip rnd m st = Some (m', st', ?vid # ks)"
        using f Some r(1) by (simp add: dd_id_def)
      moreover have "lm_inv m \<longrightarrow> lm_inv m'" using r(3) dd_kill_ok(3) by blast
      moreover have "lm_opts m' = lm_opts m" "lm_n_deadlocks_found m' = lm_n_deadlocks_found m + int (length (?vid # ks))"
        using r(4,5) by (simp_all add: dd_kill_ok)
      ultimately show ?thesis using r(2) nac by blast
    qed
  qed
qed simp

lemma dd_busy_card: "card (dd_busy st) < Suc (length (dd_nodes st))"
  using card_mono [OF _ dd_busy_sub [of st]] by (simp add: less_Suc_eq_le)


end
