(* ===== verification/Lock_Run.thy ===== *)
theory Lock_Run
  imports Lock_Detect
begin

text \<open>
  The lock manager as a system of steps (src/src/ptc/lock_mgr.c). An action is one critical
  section of some caller: a call, a round of a waiter's loop, the release of one partition
  in \<open>xtc_lock_release_all\<close>, or a run of the detector. A run interleaves them freely; the only
  discipline is that the slab hands out entries not in use.
\<close>

section \<open>Steps\<close>

datatype lock_act =
    LId xtc_err int
  | LSetTimeout nat int
  | LUnlink nat
  | LMarkFailed nat
  | LGet bool "nat option" bool nat lock_key nat int
  | LResume "nat \<Rightarrow> bool" bool bool lock_key nat
  | LPut "nat \<Rightarrow> bool" nat lock_key
  | LReleasePart "nat \<Rightarrow> bool" nat nat
  | LUpgrade "nat \<Rightarrow> bool" "nat option" bool int nat lock_key nat
  | LUpgradeResume "nat \<Rightarrow> bool" bool bool nat lock_key nat
  | LDowngrade nat lock_key nat
  | LDetect "nat \<Rightarrow> bool" "nat \<Rightarrow> nat \<Rightarrow> int" int

fun lock_step :: "lock_act \<Rightarrow> lockmgr \<Rightarrow> lockmgr option" where
  "lock_step (LId rc now) m = Some (snd (snd (xtc_lockmgr_id rc now m)))"
| "lock_step (LSetTimeout i t) m = Some (snd (xtc_lockmgr_id_set_timeout i t m))"
| "lock_step (LUnlink i) m = Some (snd (locker_unlink i m))"
| "lock_step (LMarkFailed i) m = Some (locker_update m i (\<lambda>r. r\<lparr>lr_failed := True\<rparr>))"
| "lock_step (LGet alloc slab fiber locker key mode t) m =
     (if slab_fresh slab m then Some (snd (xtc_lock_get alloc slab fiber locker key mode t m)) else None)"
| "lock_step (LResume skip killed expired key i) m = map_option snd (lock_resume skip killed expired key i m)"
| "lock_step (LPut skip locker key) m = Some (snd (xtc_lock_put skip locker key m))"
| "lock_step (LReleasePart skip locker p) m = Some (snd (release_part skip locker p m))"
| "lock_step (LUpgrade skip slab fiber now locker key mode) m =
     (if slab_fresh slab m then Some (snd (xtc_lock_upgrade skip slab fiber now locker key mode m)) else None)"
| "lock_step (LUpgradeResume skip killed expired locker key i) m =
     map_option snd (upgrade_resume skip killed expired locker key i m)"
| "lock_step (LDowngrade locker key mode) m = Some (snd (xtc_lock_downgrade locker key mode m))"
| "lock_step (LDetect skip rnd now) m =
     map_option (\<lambda>(rc, ks, m'). m') (xtc_lockmgr_check_deadlocks XTC_OK XTC_OK XTC_OK skip rnd now m)"

lemma detect_inv:
  assumes "lm_inv m" "xtc_lockmgr_check_deadlocks XTC_OK XTC_OK XTC_OK skip rnd now m = Some (rc, ks, m')"
  shows "lm_inv m'"
proof -
  have "dd_wf (dd_build m now)" using dd_build_edges(3) [of m now] by (simp add: dd_base_def)
  from dd_loop_ok [OF this dd_busy_card, where skip = skip and rnd = rnd and m = m] assms
  show ?thesis by (auto simp: xtc_lockmgr_check_deadlocks_def Let_def)
qed

lemma lock_step_inv:
  assumes inv: "lm_inv m" and s: "lock_step a m = Some m'"
  shows "lm_inv m'"
proof (cases a)
  case (LResume skip killed expired key i)
  with s inv show ?thesis by (auto intro: lock_resume_inv)
next
  case (LUpgradeResume skip killed expired locker key i)
  with s inv show ?thesis by (auto intro: upgrade_resume_inv)
next
  case (LDetect skip rnd now)
  with s inv show ?thesis by (auto intro: detect_inv)
qed (use s inv in \<open>auto simp: locker_ops_inv xtc_lock_get_inv xtc_lock_put_inv release_part_inv upgrade_inv
  downgrade_inv split: if_splits\<close>)

lemma maybe_free_lookup:
  assumes "keys_ok m" "obj_lookup m key = Some ob"
  shows "obj_lookup (obj_maybe_free key m) key = (if lo_granted ob = [] \<and> lo_waiting ob = [] then None else Some ob)"
proof (cases "lo_granted ob = [] \<and> lo_waiting ob = []")
  case True
  let ?p = "part_of m key"
  have "?p < length (lm_parts m)" by (rule part_of_less [OF assms(1)])
  then have "obj_lookup (obj_maybe_free key m) key = find (\<lambda>x. lo_key x = key) (filter (\<lambda>x. lo_key x \<noteq> key) (lm_parts m ! ?p))"
    using True assms(2) by (simp add: obj_maybe_free_def obj_lookup_def set_part_def part_of_def)
  also have "\<dots> = None" by (simp add: find_None_iff)
  finally show ?thesis using True by simp
next
  case False
  with assms(2) have "obj_maybe_free key m = m" by (auto simp: obj_maybe_free_def)
  with assms(2) False show ?thesis by simp
qed

interpretation lks: step_system lock_step lm_inv
  by unfold_locales (rule lock_step_inv)

section \<open>Every run\<close>

definition lock_demo :: "lock_act list" where
  "lock_demo = [LId XTC_OK 5, LId XTC_OK 6, LGet True (Some 1) False 1 [7] XTC_LOCK_X (- 1),
     LGet True (Some 2) False 2 [7] XTC_LOCK_S (- 1), LPut no_skip 1 [7], LResume no_skip False False [7] 2]"

definition one_part :: "victim_policy \<Rightarrow> lockmgr_opts" where
  "one_part v = LOCKMGR_OPTS_DEFAULT\<lparr>op_n_partitions := 1, op_victim := v\<rparr>"

definition lock_new :: "victim_policy \<Rightarrow> lockmgr" where
  "lock_new v = the (snd (xtc_lockmgr_create XTC_OK XTC_OK XTC_OK True (Some (one_part v)) True))"

lemma lock_new_create:
  "xtc_lockmgr_create XTC_OK XTC_OK XTC_OK True (Some (one_part v)) True = (XTC_OK, Some (lock_new v))"
  by (simp add: lock_new_def xtc_lockmgr_create_def lockmgr_defaults_def Let_def)

text \<open>With one partition the hash need not be evaluated.\<close>

lemma part_of_code [code]:
  "part_of m key = (if length (lm_parts m) = 1 then 0 else unat (lock_hash key) mod length (lm_parts m))"
  by (simp add: part_of_def)



section \<open>Grants and promotions\<close>

text \<open>What each decision says about the holders and the queue, and where the table puts the result.\<close>

lemma lock_decide_facts:
  "lock_decide mx ob locker mode = Covered \<Longrightarrow>
     \<exists>e. find_granted ob locker = Some e \<and> dominates mx (le_mode e) mode \<and> \<not> conflicts mx (le_mode e) mode"
  "lock_decide mx ob locker mode = Raise old \<Longrightarrow>
     \<not> has_conflict_granted mx (lo_granted ob) locker mode \<and> find_granted ob locker \<noteq> None"
  "lock_decide mx ob locker mode = Grant \<Longrightarrow>
     \<not> has_conflict_granted mx (lo_granted ob) locker mode \<and> (find_granted ob locker \<noteq> None \<or> lo_waiting ob = [])"
  "lock_decide mx ob locker mode = MustWait \<Longrightarrow>
     \<not> ((\<exists>e. find_granted ob locker = Some e \<and> dominates mx (le_mode e) mode \<and> \<not> conflicts mx (le_mode e) mode) \<or>
        \<not> has_conflict_granted mx (lo_granted ob) locker mode \<and> (find_granted ob locker \<noteq> None \<or> lo_waiting ob = []))"
  by (auto simp: lock_decide_def Let_def has_waiters_def split: option.splits if_splits)

lemma lookup_after_set:
  assumes "lm_inv m" "obj_lookup m key = Some ob" "lm_parts m' = lm_parts (set_obj m ob')" "lo_key ob' = lo_key ob"
  shows "obj_lookup m' key = Some ob'"
  using set_obj_ok(3) [of m key ob ob'] table_cong(3) [OF assms(3)] lookup_key [OF assms(2)] assms
  by (simp add: lm_inv_def lm_table_def)



section \<open>Concrete runs\<close>

definition ran :: "victim_policy \<Rightarrow> lock_act list \<Rightarrow> lockmgr" where
  "ran v as = the (run_steps lock_step as (lock_new v))"

lemma ran_inv: "\<not> Option.is_none (run_steps lock_step as (lock_new v)) \<Longrightarrow> lm_inv (ran v as)"
  unfolding ran_def using lks.run_keeps [OF create_inv [OF lock_new_create]]
  by (auto simp: Option.is_none_def)

abbreviation get_x :: "nat \<Rightarrow> nat \<Rightarrow> lock_key \<Rightarrow> lock_act" where
  "get_x i locker key \<equiv> LGet True (Some i) False locker key XTC_LOCK_X (- 1)"

abbreviation get_s :: "nat \<Rightarrow> nat \<Rightarrow> lock_key \<Rightarrow> lock_act" where
  "get_s i locker key \<equiv> LGet True (Some i) False locker key XTC_LOCK_S (- 1)"

definition held :: lockmgr where
  "held = ran VictimDefault [get_x 1 1 [7]]"

definition queued :: lockmgr where
  "queued = ran VictimDefault [get_x 1 1 [7], get_s 2 2 [7], get_s 3 3 [7]]"

lemma held_facts:
  "\<not> Option.is_none (run_steps lock_step [get_x 1 1 [7]] (lock_new VictimDefault))"
  "\<not> Option.is_none (obj_lookup held [7])" "mx_n_modes (lm_matrix held) = 9"
  "\<not> Option.is_none (run_steps lock_step [get_x 1 1 [7], get_s 2 2 [7], get_s 3 3 [7]] (lock_new VictimDefault))"
  "\<not> Option.is_none (obj_lookup queued [7])"
  "\<not> Option.is_none (find_granted (the (obj_lookup queued [7])) 1)"
  by code_simp+



text \<open>
  Lockers 2 and 3 wait for each other; locker 1 waits for 2 and holds nothing anybody waits for.
\<close>

definition cycle_acts :: "lock_act list" where
  "cycle_acts = [get_x 1 3 [3], get_x 2 2 [2], get_x 3 1 [2], get_x 4 3 [2], get_x 5 2 [3]]"

lemma cycle_facts:
  "\<not> Option.is_none (run_steps lock_step cycle_acts (lock_new VictimRandom))"
  "waits_for (ran VictimRandom cycle_acts) = {(1, 2), (3, 2), (2, 3)}"
  "lock_users (ran VictimRandom cycle_acts) = {1, 2, 3}"
  by code_simp+


lemma dd_node_idx_code [code]:
  "dd_node_idx i lr now st = (case dd_index i (dd_nodes st) of
     Some k \<Rightarrow> (Some k, st)
   | None \<Rightarrow> if 4096 \<le> int (length (dd_nodes st)) then (None, st)
             else (Some (length (dd_nodes st)), st\<lparr>dd_nodes := dd_nodes st @ [dd_node_of i lr now]\<rparr>))"
  by (simp add: dd_node_idx_def MAX_LOCKERS_def)

lemma dd_add_edge_code [code]:
  "dd_add_edge from to st = (case (from, to) of
     (Some u, Some v) \<Rightarrow>
       if 32768 \<le> int (dd_n_edges st) then st
       else if v \<in> set (dd_out st u) then st
       else (dd_set_out u (v # dd_out st u) st)\<lparr>dd_n_edges := dd_n_edges st + 1\<rparr>
   | _ \<Rightarrow> st)"
  by (simp add: dd_add_edge_def MAX_LOCKERS_def split: option.split)

text \<open>
  The walk that collects the candidates does not stop at the cycle: it runs up to the root
  of the search. Here the third draw is the highest, and that is for locker 1, which is in
  no deadlock; it is aborted before the cycle of 2 and 3 is.
\<close>

lemma detect_kills_bystander:
  "fst (snd (the (xtc_lockmgr_check_deadlocks XTC_OK XTC_OK XTC_OK no_skip (\<lambda>j k. of_bool (k = 3)) 9
     (ran VictimRandom cycle_acts)))) = [1, 3]"
  by code_simp

text \<open>
  A waiter that was aborted (here by a release of all its locks) is still granted by the
  next promotion. When it runs again it reports the deadlock and unlinks its entry, by
  then on the list of holders, through the pointers of the wait queue.
\<close>

lemma aborted_waiter_granted:
  "Option.is_none (lock_resume no_skip False False [7] 2
     (ran VictimDefault [get_x 1 1 [7], get_s 2 2 [7], LReleasePart no_skip 2 0, LPut no_skip 1 [7]]))"
  by code_simp

text \<open>
  When the waiter at the head of the queue times out, those behind it are not promoted: a
  reader keeps waiting although the only holder is a reader.
\<close>

lemma timeout_strands_waiter:
  "map (\<lambda>ob. (map le_id (lo_granted ob), map (\<lambda>e. (le_id e, has_conflict_granted default_matrix (lo_granted ob) (le_locker e) (le_mode e)))
       (lo_waiting ob)))
     (concat (lm_parts (ran VictimDefault [get_s 1 1 [7], get_x 2 2 [7], get_s 3 3 [7], LResume no_skip False True [7] 2])))
   = [([1], [(3, False)])]"
  "lm_woken (ran VictimDefault [get_s 1 1 [7], get_x 2 2 [7], get_s 3 3 [7], LResume no_skip False True [7] 2]) = []"
  by code_simp+

end
