(* ===== verification/Saga.thy ===== *)
theory Saga
  imports Xtc_Prelude
begin

text \<open>
  Sagas (src/src/orc/saga.c): actions with compensations, run in order; the first failure
  undoes the completed prefix in reverse. A step's function is a state transformer of the
  caller's world \<open>'w\<close> that returns a code (the context pointer is part of the closure);
  the allocator's answers are arguments.
\<close>

section \<open>State and operations\<close>

type_synonym 'w saga_fn = "'w \<Rightarrow> xtc_err \<times> 'w"

record 'w saga_step =
  ss_action :: "'w \<Rightarrow> xtc_err \<times> 'w"
  ss_compensate :: "('w \<Rightarrow> xtc_err \<times> 'w) option"

record 'w saga =
  sg_steps :: "'w saga_step list"
  sg_cap :: int
  sg_started :: bool
  sg_n_completed :: nat
  sg_failed_step :: int
  sg_last_error :: xtc_err
  sg_compensate_failed :: bool

definition xtc_saga_create :: "xtc_err \<Rightarrow> bool \<Rightarrow> xtc_err \<times> 'w saga option" where
  "xtc_saga_create calloc_rc out =
     (if \<not> out then (XTC_E_INVAL, None)
      else if calloc_rc \<noteq> XTC_OK then (calloc_rc, None)
      else (XTC_OK, Some \<lparr>sg_steps = [], sg_cap = 0, sg_started = False, sg_n_completed = 0,
        sg_failed_step = - 1, sg_last_error = XTC_OK, sg_compensate_failed = False\<rparr>))"

abbreviation saga_step_size :: nat where
  "saga_step_size \<equiv> 24"

definition xtc_saga_step ::
  "xtc_err \<Rightarrow> 'w saga_fn option \<Rightarrow> 'w saga_fn option \<Rightarrow> 'w saga \<Rightarrow> xtc_err \<times> 'w saga" where
  "xtc_saga_step realloc_rc action compensate s = (case action of
     None \<Rightarrow> (XTC_E_INVAL, s)
   | Some act \<Rightarrow>
       if sg_started s then (XTC_E_INVAL, s)
       else let add = (\<lambda>t. t\<lparr>sg_steps := sg_steps t @ [\<lparr>ss_action = act, ss_compensate = compensate\<rparr>]\<rparr>) in
         if int (length (sg_steps s)) = sg_cap s then
           let newcap = if sg_cap s = 0 then 4 else sg_cap s * 2 in
           if sg_cap s > INT_MAX div 2 \<or> nat newcap > SIZE_MAX div saga_step_size then (XTC_E_RANGE, s)
           else if realloc_rc \<noteq> XTC_OK then (realloc_rc, s)
           else (XTC_OK, add (s\<lparr>sg_cap := newcap\<rparr>))
         else (XTC_OK, add s))"

text \<open>The reverse walk over the completed steps, newest first; it never stops early.\<close>

fun saga_unwind :: "'w saga_step list \<Rightarrow> bool \<Rightarrow> 'w \<Rightarrow> bool \<times> 'w" where
  "saga_unwind [] failed w = (failed, w)"
| "saga_unwind (t # ts) failed w = (case ss_compensate t of
     None \<Rightarrow> saga_unwind ts failed w
   | Some c \<Rightarrow> (case c w of (crc, w') \<Rightarrow> saga_unwind ts (failed \<or> crc \<noteq> XTC_OK) w'))"

text \<open>The forward loop; \<open>done\<close> are the completed steps, newest first.\<close>

fun saga_forward :: "'w saga_step list \<Rightarrow> 'w saga_step list \<Rightarrow> 'w saga \<Rightarrow> 'w \<Rightarrow> xtc_err \<times> 'w saga \<times> 'w" where
  "saga_forward done [] s w = (XTC_OK, s, w)"
| "saga_forward done (t # ts) s w = (case ss_action t w of (rc, w1) \<Rightarrow>
     if rc = XTC_OK then saga_forward (t # done) ts (s\<lparr>sg_n_completed := sg_n_completed s + 1\<rparr>) w1
     else (case saga_unwind done (sg_compensate_failed s) w1 of (failed, w2) \<Rightarrow>
       (if failed then XTC_E_INTERNAL else rc,
        s\<lparr>sg_failed_step := int (length done), sg_last_error := rc, sg_compensate_failed := failed\<rparr>, w2)))"

definition xtc_saga_run :: "'w saga \<Rightarrow> 'w \<Rightarrow> xtc_err \<times> 'w saga \<times> 'w" where
  "xtc_saga_run s w =
     (if sg_started s then (XTC_E_INVAL, s, w)
      else saga_forward [] (sg_steps s) (s\<lparr>sg_started := True\<rparr>) w)"

definition xtc_saga_n_steps :: "'w saga option \<Rightarrow> nat" where
  "xtc_saga_n_steps s = (case s of None \<Rightarrow> 0 | Some t \<Rightarrow> length (sg_steps t))"

definition xtc_saga_n_completed :: "'w saga option \<Rightarrow> nat" where
  "xtc_saga_n_completed s = (case s of None \<Rightarrow> 0 | Some t \<Rightarrow> sg_n_completed t)"

definition xtc_saga_failed_step :: "'w saga option \<Rightarrow> int" where
  "xtc_saga_failed_step s = (case s of None \<Rightarrow> - 1 | Some t \<Rightarrow> sg_failed_step t)"

definition xtc_saga_last_error :: "'w saga option \<Rightarrow> xtc_err" where
  "xtc_saga_last_error s = (case s of None \<Rightarrow> XTC_OK | Some t \<Rightarrow> sg_last_error t)"

definition xtc_saga_compensate_failed :: "'w saga option \<Rightarrow> bool" where
  "xtc_saga_compensate_failed s = (case s of None \<Rightarrow> False | Some t \<Rightarrow> sg_compensate_failed t)"

section \<open>The forward run\<close>

text \<open>The first \<open>n\<close> actions in order, or nothing if one of them fails.\<close>

fun run_actions :: "'w saga_step list \<Rightarrow> 'w \<Rightarrow> 'w option" where
  "run_actions [] w = Some w"
| "run_actions (t # ts) w = (case ss_action t w of (rc, w1) \<Rightarrow> if rc = XTC_OK then run_actions ts w1 else None)"

lemma forward_ok:
  assumes "run_actions ts w = Some w'"
  shows "saga_forward done ts s w = (XTC_OK, s\<lparr>sg_n_completed := sg_n_completed s + length ts\<rparr>, w')"
  using assms
proof (induction ts arbitrary: "done" s w)
  case (Cons t ts)
  then show ?case by (auto split: prod.splits if_splits)
qed simp

lemma forward_fail:
  assumes "run_actions us w = Some w1" "ss_action t w1 = (rc, w2)" "rc \<noteq> XTC_OK"
  shows "saga_forward done (us @ t # ts) s w =
    (case saga_unwind (rev us @ done) (sg_compensate_failed s) w2 of (failed, w3) \<Rightarrow>
       (if failed then XTC_E_INTERNAL else rc,
        s\<lparr>sg_n_completed := sg_n_completed s + length us, sg_failed_step := int (length us + length done),
          sg_last_error := rc, sg_compensate_failed := failed\<rparr>, w3))"
  using assms
proof (induction us arbitrary: "done" s w)
  case Nil
  then show ?case by (simp split: prod.split)
next
  case (Cons u us)
  obtain rc' w' where a: "ss_action u w = (rc', w')" by (cases "ss_action u w")
  with Cons.prems have r: "rc' = XTC_OK" "run_actions us w' = Some w1" by (auto split: if_splits)
  from Cons.IH [OF r(2) Cons.prems(2,3), of "u # done" "s\<lparr>sg_n_completed := sg_n_completed s + 1\<rparr>"] a r(1)
  show ?case by (simp split: prod.split)
qed

lemma run_actions_split:
  "run_actions ts w = None \<Longrightarrow>
    \<exists>us t vs w1 rc w2. ts = us @ t # vs \<and> run_actions us w = Some w1 \<and> ss_action t w1 = (rc, w2) \<and> rc \<noteq> XTC_OK"
proof (induction ts arbitrary: w)
  case (Cons t ts)
  obtain rc w1 where a: "ss_action t w = (rc, w1)" by (cases "ss_action t w")
  show ?case
  proof (cases "rc = XTC_OK")
    case False
    then have "t # ts = [] @ t # ts \<and> run_actions [] w = Some w \<and> ss_action t w = (rc, w1) \<and> rc \<noteq> XTC_OK"
      using a by simp
    then show ?thesis by blast
  next
    case True
    with Cons.prems a have "run_actions ts w1 = None" by simp
    from Cons.IH [OF this] obtain us t' vs w2 rc' w3 where s: "ts = us @ t' # vs" "run_actions us w1 = Some w2"
      "ss_action t' w2 = (rc', w3)" "rc' \<noteq> XTC_OK" by blast
    then have "t # ts = (t # us) @ t' # vs \<and> run_actions (t # us) w = Some w2 \<and> ss_action t' w2 = (rc', w3) \<and> rc' \<noteq> XTC_OK"
      using a True by simp
    then show ?thesis by blast
  qed
qed simp

lemma unwind_flag: "saga_unwind ts failed w = (f, w') \<Longrightarrow> failed \<Longrightarrow> f"
  by (induction ts arbitrary: failed w) (auto split: option.splits prod.splits)


section \<open>All or nothing\<close>

text \<open>A step whose compensation undoes its action, and whose failure changes nothing.\<close>

definition undoes :: "'w saga_step \<Rightarrow> bool" where
  "undoes t = (\<exists>c. ss_compensate t = Some c \<and>
     (\<forall>w w'. ss_action t w = (XTC_OK, w') \<longrightarrow> c w' = (XTC_OK, w)) \<and>
     (\<forall>w rc w'. ss_action t w = (rc, w') \<longrightarrow> rc \<noteq> XTC_OK \<longrightarrow> w' = w))"

lemma unwind_undoes:
  "run_actions us w = Some w1 \<Longrightarrow> \<forall>t \<in> set us. undoes t \<Longrightarrow> saga_unwind (rev us @ ts) failed w1 = saga_unwind ts failed w"
proof (induction us arbitrary: w ts)
  case (Cons u us)
  then obtain w' where a: "ss_action u w = (XTC_OK, w')" and r: "run_actions us w' = Some w1"
    by (auto split: prod.splits if_splits)
  from Cons.prems(2) a obtain c where "ss_compensate u = Some c" "c w' = (XTC_OK, w)" by (auto simp: undoes_def)
  with Cons.IH [OF r, of "u # ts"] Cons.prems(2) show ?case by simp
qed simp

definition bump :: "int \<Rightarrow> int saga_step" where
  "bump n = \<lparr>ss_action = (\<lambda>w. if w > 9 then (XTC_E_RANGE, w) else (XTC_OK, w + n)),
     ss_compensate = Some (\<lambda>w. (XTC_OK, w - n))\<rparr>"

definition bump_saga :: "int saga" where
  "bump_saga = \<lparr>sg_steps = [bump 4, bump 7, bump 1], sg_cap = 4, sg_started = False, sg_n_completed = 0,
     sg_failed_step = - 1, sg_last_error = XTC_OK, sg_compensate_failed = False\<rparr>"


text \<open>
  C7. All or nothing: if every compensation undoes its action and a failing action changes
  nothing, a saga either completes every step or leaves the world exactly as it found it,
  and in that case reports the code of the action that failed.
\<close>

theorem saga_all_or_nothing:
  assumes "\<not> sg_started s" "\<not> sg_compensate_failed s" "\<forall>t \<in> set (sg_steps s). undoes t"
    and "xtc_saga_run s w = (rc, s', w')"
  shows "if rc = XTC_OK then run_actions (sg_steps s) w = Some w'
    else w' = w \<and> rc = sg_last_error s' \<and> \<not> sg_compensate_failed s'"
proof (cases "run_actions (sg_steps s) w")
  case (Some x)
  with forward_ok [OF Some, of "[]" "s\<lparr>sg_started := True\<rparr>"] assms show ?thesis by (simp add: xtc_saga_run_def)
next
  case None
  from run_actions_split [OF None] obtain us t vs w1 rc0 w2 where
    f: "sg_steps s = us @ t # vs" "run_actions us w = Some w1" "ss_action t w1 = (rc0, w2)" "rc0 \<noteq> XTC_OK" by blast
  have u: "\<forall>x \<in> set us. undoes x" "undoes t" using assms(3) f(1) by auto
  then have "w2 = w1" using f(3,4) by (auto simp: undoes_def)
  with unwind_undoes [OF f(2) u(1), of "[]" False] have "saga_unwind (rev us) False w2 = (False, w)" by simp
  with forward_fail [OF f(2,3,4), of "[]" vs "s\<lparr>sg_started := True\<rparr>"] assms f(4) show ?thesis
    by (auto simp: xtc_saga_run_def f(1))
qed

lemma bump_undoes: "undoes (bump n)"
  by (auto simp: undoes_def bump_def split: if_splits)

theorem saga_all_or_nothing_witness: "snd (snd (xtc_saga_run bump_saga 0)) = 0 \<and> fst (xtc_saga_run bump_saga 0) = XTC_E_RANGE"
proof -
  obtain rc s' w' where r: "xtc_saga_run bump_saga 0 = (rc, s', w')" by (cases "xtc_saga_run bump_saga 0")
  have "rc = XTC_E_RANGE" using r by (simp add: xtc_saga_run_def bump_saga_def bump_def)
  moreover have "\<forall>t \<in> set (sg_steps bump_saga). undoes t" by (simp add: bump_saga_def bump_undoes)
  ultimately show ?thesis using saga_all_or_nothing [OF _ _ _ r] r by (simp add: bump_saga_def)
qed

end
