(* ===== verification/Sup.thy ===== *)
theory Sup
  imports Xtc_Prelude
begin

text \<open>
  The supervisor (src/src/orc/sup.c). The child table is touched only by the supervisor's own
  fiber, so its state is one record and each message its mailbox delivers is one step. The
  process layer is a parameter: \<open>env k\<close> is what the \<open>k\<close>-th \<open>xtc_proc_spawn_monitor\<close> answers (code,
  pid, monitor reference), and a wait for children to leave the process table is given the
  rounds it sees (the abandon flag, which pids are still present, the clock). Pids are
  numbers, 0 is \<open>XTC_PID_NONE\<close>. What the supervisor does to the outside is logged in \<open>sp_log\<close>.

  \<open>None\<close> as the result of a step means that a wait saw no round that ends it, or that the
  restart ring has no room (\<open>rr_cap\<close> not positive), where the code would write out of bounds.
\<close>

section \<open>State\<close>

datatype restart_strategy = OneForOne | OneForAll | RestForOne | SimpleOfo | OtherStrategy

datatype restart_policy = Permanent | Transient | Temporary | OtherPolicy

datatype sup_place = OwnLoop | ExecLoop int

datatype sup_event = Spawned sup_place nat | Killed sup_place nat | Signalled | ExecStopped

record child_spec =
  cs_size :: nat
  cs_fn :: nat
  cs_policy :: restart_policy
  cs_loop :: int

record sup_child =
  ch_spec :: child_spec
  ch_pid :: nat
  ch_monitor_ref :: nat
  ch_alive :: bool
  ch_dynamic :: bool

record sup_opts =
  so_strategy :: restart_strategy
  so_max_restarts :: int
  so_period_ns :: int
  so_exec :: "int option"
  so_max_children :: int

record supervisor =
  sp_opts :: sup_opts
  sp_children :: "sup_child list"
  sp_recent :: "int list"
  sp_rr_cap :: int
  sp_n_restarts :: int
  sp_n_alive :: int
  sp_alive :: bool
  sp_stop :: bool
  sp_restart_old :: "nat list option"
  sp_spawns :: nat
  sp_log :: "sup_event list"
  sp_history :: "int list"

type_synonym sup_env = "nat \<Rightarrow> xtc_err \<times> nat \<times> nat"
type_synonym sup_round = "bool \<times> (sup_place \<Rightarrow> nat \<Rightarrow> bool) \<times> int"

section \<open>Policy and intensity\<close>

abbreviation XTC_DOWN_NOPROC :: int where
  "XTC_DOWN_NOPROC \<equiv> - 100000"

definition should_restart :: "sup_child \<Rightarrow> int \<Rightarrow> bool" where
  "should_restart c reason = (case cs_policy (ch_spec c) of
     Permanent \<Rightarrow> True
   | Temporary \<Rightarrow> False
   | Transient \<Rightarrow> reason \<noteq> 0 \<and> reason \<noteq> XTC_DOWN_NOPROC
   | OtherPolicy \<Rightarrow> False)"

definition intensity_exceeded :: "int \<Rightarrow> supervisor \<Rightarrow> bool" where
  "intensity_exceeded now sv =
     (int (length (filter (\<lambda>t. t > now - so_period_ns (sp_opts sv)) (sp_recent sv))) > so_max_restarts (sp_opts sv))"

text \<open>\<open>sp_history\<close> is a ghost: every restart time, which the ring keeps only the end of.\<close>

definition record_restart :: "int \<Rightarrow> supervisor \<Rightarrow> supervisor option" where
  "record_restart now sv =
     (if int (length (sp_recent sv)) < sp_rr_cap sv then
        Some (sv\<lparr>sp_recent := sp_recent sv @ [now], sp_n_restarts := sp_n_restarts sv + 1,
          sp_history := sp_history sv @ [now]\<rparr>)
      else if sp_rr_cap sv \<le> 0 then None
      else Some (sv\<lparr>sp_recent := tl (sp_recent sv) @ [now], sp_n_restarts := sp_n_restarts sv + 1,
          sp_history := sp_history sv @ [now]\<rparr>))"

section \<open>Children\<close>

definition child_loop :: "supervisor \<Rightarrow> sup_child \<Rightarrow> sup_place" where
  "child_loop sv c = (case so_exec (sp_opts sv) of
     Some n \<Rightarrow> ExecLoop (if cs_loop (ch_spec c) < 0 \<or> cs_loop (ch_spec c) \<ge> n then 0 else cs_loop (ch_spec c))
   | None \<Rightarrow> OwnLoop)"

definition child_alive :: "nat \<Rightarrow> bool \<Rightarrow> supervisor \<Rightarrow> supervisor" where
  "child_alive i v sv =
     (let c = sp_children sv ! i in
      if ch_alive c = v then sv
      else sv\<lparr>sp_children := (sp_children sv)[i := c\<lparr>ch_alive := v\<rparr>],
               sp_n_alive := sp_n_alive sv + (if v then 1 else - 1)\<rparr>)"

definition spawn_child :: "sup_env \<Rightarrow> nat \<Rightarrow> supervisor \<Rightarrow> xtc_err \<times> supervisor" where
  "spawn_child env i sv =
     (let c = sp_children sv ! i; sv1 = sv\<lparr>sp_spawns := sp_spawns sv + 1\<rparr> in
      case env (sp_spawns sv) of (rc, pid, ref) \<Rightarrow>
        if rc \<noteq> XTC_OK then (rc, sv1)
        else (XTC_OK, child_alive i True
          (sv1\<lparr>sp_children := (sp_children sv)[i := c\<lparr>ch_pid := pid, ch_monitor_ref := ref\<rparr>],
                sp_log := sp_log sv @ [Spawned (child_loop sv c) pid]\<rparr>)))"

text \<open>The spawn loops: they end at the first failure, which the result reports.\<close>

fun spawn_range :: "sup_env \<Rightarrow> nat list \<Rightarrow> supervisor \<Rightarrow> bool \<times> supervisor" where
  "spawn_range env [] sv = (True, sv)"
| "spawn_range env (i # is) sv =
     (case spawn_child env i sv of (rc, sv1) \<Rightarrow>
        if rc \<noteq> XTC_OK then (False, sv1) else spawn_range env is sv1)"

datatype add_reply = AddOk nat | AddFailed | AddAtCap

definition handle_add_child :: "sup_env \<Rightarrow> bool \<Rightarrow> child_spec \<Rightarrow> supervisor \<Rightarrow> add_reply \<times> supervisor" where
  "handle_add_child env realloc_ok spec sv =
     (if so_max_children (sp_opts sv) > 0 \<and>
         int (length (filter ch_alive (sp_children sv))) \<ge> so_max_children (sp_opts sv)
      then (AddAtCap, sv)
      else if \<not> realloc_ok then (AddFailed, sv)
      else let idx = length (sp_children sv);
               c = \<lparr>ch_spec = spec, ch_pid = 0, ch_monitor_ref = 0, ch_alive = False, ch_dynamic = True\<rparr> in
        (case spawn_child env idx (sv\<lparr>sp_children := sp_children sv @ [c]\<rparr>) of (rc, sv1) \<Rightarrow>
           if rc \<noteq> XTC_OK then (AddFailed, sv1\<lparr>sp_children := sp_children sv\<rparr>)
           else (AddOk (ch_pid (sp_children sv1 ! idx)), sv1)))"

definition XTC_SUP_CLEANUP_WAIT_NS :: int where
  "XTC_SUP_CLEANUP_WAIT_NS = 5000000000"

definition pending_old :: "supervisor \<Rightarrow> (sup_place \<Rightarrow> nat \<Rightarrow> bool) \<Rightarrow> nat \<Rightarrow> nat list \<Rightarrow> nat list" where
  "pending_old sv present lo old =
     filter (\<lambda>i. old ! i \<noteq> 0 \<and> present (child_loop sv (sp_children sv ! i)) (old ! i)) [lo..<length (sp_children sv)]"

fun wait_children_gone :: "supervisor \<Rightarrow> nat \<Rightarrow> nat list \<Rightarrow> int \<Rightarrow> sup_round list \<Rightarrow> bool option" where
  "wait_children_gone sv lo old start [] = None"
| "wait_children_gone sv lo old start ((abandon, present, now) # rs) =
     (if abandon then Some False
      else if pending_old sv present lo old = [] then Some True
      else if now - start \<ge> XTC_SUP_CLEANUP_WAIT_NS then Some False
      else wait_children_gone sv lo old start rs)"

definition kill_sibling :: "nat \<Rightarrow> supervisor \<Rightarrow> supervisor" where
  "kill_sibling i sv =
     (let c = sp_children sv ! i in
      if \<not> ch_alive c then sv
      else sv\<lparr>sp_log := sp_log sv @ [Killed (child_loop sv c) (ch_pid c)]\<rparr>)"

text \<open>
  A group restart from index \<open>lo\<close> on: snapshot the pids, kill the live members in the order
  \<open>ks\<close>, mark all dead, wait for the old generation to be gone, spawn the new one.
\<close>

definition group_old :: "nat \<Rightarrow> supervisor \<Rightarrow> nat list" where
  "group_old lo sv = map (\<lambda>i. if i < lo then 0 else ch_pid (sp_children sv ! i)) [0..<length (sp_children sv)]"

definition group_kill :: "nat \<Rightarrow> nat list \<Rightarrow> supervisor \<Rightarrow> supervisor" where
  "group_kill lo ks sv =
     fold (\<lambda>i. child_alive i False) [lo..<length (sp_children sv)] (fold kill_sibling ks sv)"

definition group_spawn :: "sup_env \<Rightarrow> nat \<Rightarrow> supervisor \<Rightarrow> supervisor" where
  "group_spawn env lo sv = (case spawn_range env [lo..<length (sp_children sv)] sv of (ok, sv') \<Rightarrow>
     if ok then sv' else sv'\<lparr>sp_stop := True\<rparr>)"

definition do_group :: "sup_env \<Rightarrow> bool \<Rightarrow> int \<Rightarrow> sup_round list \<Rightarrow> nat \<Rightarrow> nat list \<Rightarrow> supervisor \<Rightarrow> supervisor option" where
  "do_group env calloc_ok start rs lo ks sv =
     (if 0 < length (sp_children sv) \<and> \<not> calloc_ok then Some (sv\<lparr>sp_stop := True\<rparr>)
      else let sv2 = group_kill lo ks sv in
        (case wait_children_gone sv2 lo (group_old lo sv) start rs of
           None \<Rightarrow> None
         | Some gone \<Rightarrow> Some (if gone then group_spawn env lo sv2 else sv2\<lparr>sp_stop := True\<rparr>)))"

definition do_one_for_all :: "sup_env \<Rightarrow> bool \<Rightarrow> int \<Rightarrow> sup_round list \<Rightarrow> supervisor \<Rightarrow> supervisor option" where
  "do_one_for_all env calloc_ok start rs sv =
     do_group env calloc_ok start rs 0 [0..<length (sp_children sv)] sv"

definition do_rest_for_one :: "sup_env \<Rightarrow> bool \<Rightarrow> int \<Rightarrow> sup_round list \<Rightarrow> nat \<Rightarrow> supervisor \<Rightarrow> supervisor option" where
  "do_rest_for_one env calloc_ok start rs dead sv =
     do_group env calloc_ok start rs dead (rev [Suc dead..<length (sp_children sv)]) sv"

fun find_alive :: "nat \<Rightarrow> nat \<Rightarrow> sup_child list \<Rightarrow> nat option" where
  "find_alive p k [] = None"
| "find_alive p k (c # cs) = (if ch_alive c \<and> ch_pid c = p then Some k else find_alive p (Suc k) cs)"

definition find_child_by_pid :: "nat \<Rightarrow> supervisor \<Rightarrow> nat option" where
  "find_child_by_pid p sv = find_alive p 0 (sp_children sv)"

section \<open>The message loop\<close>

text \<open>
  A DOWN carries the pid and the reason; with it come what the step will see: the stop flag
  at its second reading, the clock, the allocator's answer and the rounds of a wait.
\<close>

datatype sup_msg =
    SDown nat int bool int bool int "sup_round list"
  | SAdd child_spec bool
  | SStop
  | SOther

definition apply_strategy ::
  "sup_env \<Rightarrow> bool \<Rightarrow> int \<Rightarrow> sup_round list \<Rightarrow> nat \<Rightarrow> supervisor \<Rightarrow> supervisor option" where
  "apply_strategy env calloc_ok start rs idx sv = (case so_strategy (sp_opts sv) of
     OneForOne \<Rightarrow> Some (snd (spawn_child env idx sv))
   | OneForAll \<Rightarrow> do_one_for_all env calloc_ok start rs sv
   | RestForOne \<Rightarrow> do_rest_for_one env calloc_ok start rs idx sv
   | SimpleOfo \<Rightarrow> Some (snd (spawn_child env idx sv))
   | OtherStrategy \<Rightarrow> Some sv)"

definition handle_down ::
  "sup_env \<Rightarrow> nat \<Rightarrow> int \<Rightarrow> bool \<Rightarrow> int \<Rightarrow> bool \<Rightarrow> int \<Rightarrow> sup_round list \<Rightarrow> supervisor \<Rightarrow> (bool \<times> supervisor) option" where
  "handle_down env pid reason stop now calloc_ok start rs sv =
     (case find_child_by_pid pid sv of None \<Rightarrow> Some (True, sv) | Some idx \<Rightarrow>
        let sv1 = child_alive idx False sv; c = sp_children sv1 ! idx in
        if stop then Some (False, sv1\<lparr>sp_stop := True\<rparr>)
        else if \<not> should_restart c reason then
          Some (True, if ch_dynamic c
            then sv1\<lparr>sp_children := take idx (sp_children sv1) @ drop (Suc idx) (sp_children sv1)\<rparr> else sv1)
        else (case record_restart now sv1 of None \<Rightarrow> None | Some sv2 \<Rightarrow>
          if intensity_exceeded now sv2 then Some (False, sv2)
          else map_option (\<lambda>s. (True, s)) (apply_strategy env calloc_ok start rs idx sv2)))"

fun sup_handle :: "sup_env \<Rightarrow> sup_msg \<Rightarrow> supervisor \<Rightarrow> (bool \<times> supervisor) option" where
  "sup_handle env (SDown pid reason stop now calloc_ok start rs) sv =
     handle_down env pid reason stop now calloc_ok start rs sv"
| "sup_handle env (SAdd spec realloc_ok) sv = Some (True, snd (handle_add_child env realloc_ok spec sv))"
| "sup_handle env SStop sv = Some (True, sv\<lparr>sp_stop := True\<rparr>)"
| "sup_handle env SOther sv = Some (True, sv)"

text \<open>The loop over the mailbox: the flag of the result says whether it is still running.\<close>

fun sup_loop :: "sup_env \<Rightarrow> sup_msg list \<Rightarrow> supervisor \<Rightarrow> (bool \<times> supervisor) option" where
  "sup_loop env [] sv = Some (\<not> sp_stop sv, sv)"
| "sup_loop env (msg # msgs) sv =
     (if sp_stop sv then Some (False, sv)
      else (case sup_handle env msg sv of
        None \<Rightarrow> None
      | Some (False, sv') \<Rightarrow> Some (False, sv')
      | Some (True, sv') \<Rightarrow> sup_loop env msgs sv'))"

text \<open>The exit hook: kill, wait, then announce the stop.\<close>

definition exit_old :: "supervisor \<Rightarrow> nat list" where
  "exit_old sv = map (\<lambda>k. let c = sp_children sv ! k in if ch_alive c then ch_pid c
     else (case sp_restart_old sv of Some rold \<Rightarrow> rold ! k | None \<Rightarrow> 0)) [0..<length (sp_children sv)]"

definition sup_exited :: "bool \<Rightarrow> int \<Rightarrow> sup_round list \<Rightarrow> supervisor \<Rightarrow> supervisor option" where
  "sup_exited calloc_ok start rs sv =
     (let n = length (sp_children sv); old = exit_old sv;
          sv1 = fold (\<lambda>k s. child_alive k False (kill_sibling k s)) [0..<n] (sv\<lparr>sp_restart_old := None\<rparr>);
          done = (\<lambda>s. s\<lparr>sp_alive := False, sp_log := sp_log s @ Signalled #
             (if so_exec (sp_opts s) = None then [] else [ExecStopped])\<rparr>) in
      if n = 0 \<or> \<not> calloc_ok then Some (done sv1)
      else (case wait_children_gone sv1 0 old start rs of None \<Rightarrow> None | Some _ \<Rightarrow> Some (done sv1)))"

text \<open>
  The entry: spawn the initial children; if all are up, run the loop; in any case the exit
  hook runs at the end. \<open>Inl\<close> is a supervisor still waiting for mail.
\<close>

definition sup_entry ::
  "sup_env \<Rightarrow> sup_msg list \<Rightarrow> bool \<Rightarrow> int \<Rightarrow> sup_round list \<Rightarrow> supervisor \<Rightarrow> (supervisor + supervisor) option" where
  "sup_entry env msgs calloc_ok start rs sv =
     (case spawn_range env [0..<length (sp_children sv)] sv of (ok, sv1) \<Rightarrow>
        if \<not> ok then map_option Inr (sup_exited calloc_ok start rs sv1)
        else (case sup_loop env msgs sv1 of
          None \<Rightarrow> None
        | Some (True, sv2) \<Rightarrow> Some (Inl sv2)
        | Some (False, sv2) \<Rightarrow> map_option Inr (sup_exited calloc_ok start rs sv2)))"

section \<open>Starting and stopping\<close>

definition XTC_SUP_OPTS_DEFAULT :: sup_opts where
  "XTC_SUP_OPTS_DEFAULT = \<lparr>so_strategy = OneForOne, so_max_restarts = 3, so_period_ns = 5000000000,
     so_exec = None, so_max_children = 0\<rparr>"

text \<open>
  The arguments are the answers of the size-checked copies (of the options, and of each
  spec), of the three allocations, of the notifier and of the spawn, in the order they are made.
\<close>

definition xtc_sup_start ::
  "bool \<Rightarrow> xtc_err \<Rightarrow> (child_spec \<Rightarrow> xtc_err) \<Rightarrow> xtc_err \<Rightarrow> xtc_err \<Rightarrow> xtc_err \<Rightarrow> xtc_err \<Rightarrow> xtc_err \<Rightarrow>
     sup_opts option \<Rightarrow> child_spec list \<Rightarrow> xtc_err \<times> supervisor option" where
  "xtc_sup_start args_ok opts_rc spec_rc sup_rc ring_rc table_rc notify_rc spawn_rc opts specs =
     (if \<not> args_ok then (XTC_E_INVAL, None)
      else if opts \<noteq> None \<and> opts_rc \<noteq> XTC_OK then (opts_rc, None)
      else if specs \<noteq> [] \<and> (cs_size (hd specs) < 8 \<or> (\<exists>s \<in> set (tl specs). cs_size s \<noteq> cs_size (hd specs)))
        then (XTC_E_INVAL, None)
      else if sup_rc \<noteq> XTC_OK then (sup_rc, None)
      else let op = (case opts of None \<Rightarrow> XTC_SUP_OPTS_DEFAULT | Some p \<Rightarrow> p) in
        if so_strategy op = OtherStrategy then (XTC_E_NOSYS, None)
        else if ring_rc \<noteq> XTC_OK then (ring_rc, None)
        else if specs \<noteq> [] \<and> table_rc \<noteq> XTC_OK then (table_rc, None)
        else (case find (\<lambda>s. spec_rc s \<noteq> XTC_OK) specs of
          Some s \<Rightarrow> (spec_rc s, None)
        | None \<Rightarrow>
            if notify_rc \<noteq> XTC_OK then (notify_rc, None)
            else if spawn_rc \<noteq> XTC_OK then (spawn_rc, None)
            else (XTC_OK, Some \<lparr>sp_opts = op,
              sp_children = map (\<lambda>s. \<lparr>ch_spec = s, ch_pid = 0, ch_monitor_ref = 0, ch_alive = False, ch_dynamic = False\<rparr>) specs,
              sp_recent = [], sp_rr_cap = so_max_restarts op + 4, sp_n_restarts = 0, sp_n_alive = 0, sp_alive = True,
              sp_stop = False, sp_restart_old = None, sp_spawns = 0, sp_log = [], sp_history = []\<rparr>)))"

text \<open>
  \<open>xtc_sup_add_child\<close> on the caller's side: the reply that carries the call's own tag, among
  those received before the deadline, gives the result; older replies are dropped.
\<close>

fun await_reply :: "nat \<Rightarrow> int \<Rightarrow> (int \<times> (nat \<times> add_reply) option) list \<Rightarrow> xtc_err \<times> nat option" where
  "await_reply tag deadline [] = (XTC_E_AGAIN, None)"
| "await_reply tag deadline ((now, r) # rs) =
     (if now \<ge> deadline then (XTC_E_AGAIN, None)
      else (case r of
        None \<Rightarrow> (XTC_E_AGAIN, None)
      | Some (t, rep) \<Rightarrow>
          if t \<noteq> tag then await_reply tag deadline rs
          else (case rep of AddAtCap \<Rightarrow> (XTC_E_RESOURCE, None) | AddFailed \<Rightarrow> (XTC_E_NOMEM, None)
                | AddOk p \<Rightarrow> (XTC_OK, Some p))))"

definition xtc_sup_add_child ::
  "bool \<Rightarrow> bool \<Rightarrow> xtc_err \<Rightarrow> bool \<Rightarrow> xtc_err \<Rightarrow> nat \<Rightarrow> int \<Rightarrow> (int \<times> (nat \<times> add_reply) option) list \<Rightarrow> xtc_err \<times> nat option" where
  "xtc_sup_add_child args_ok sup_alive spec_rc in_proc send_rc tag now rs =
     (if \<not> args_ok \<or> \<not> sup_alive then (XTC_E_INVAL, None)
      else if spec_rc \<noteq> XTC_OK then (spec_rc, None)
      else if \<not> in_proc then (XTC_E_INVAL, None)
      else if send_rc \<noteq> XTC_OK then (XTC_E_INTERNAL, None)
      else await_reply tag (now + 5000000000) rs)"

definition xtc_sup_stop :: "supervisor \<Rightarrow> xtc_err \<times> supervisor" where
  "xtc_sup_stop sv = (XTC_OK, sv\<lparr>sp_stop := True\<rparr>)"

text \<open>A join frees the supervisor only if the notifier was signalled.\<close>

definition xtc_sup_join :: "xtc_err \<Rightarrow> supervisor \<Rightarrow> xtc_err \<times> supervisor option" where
  "xtc_sup_join wait_rc sv =
     (if wait_rc \<noteq> XTC_OK then (if wait_rc = XTC_E_AGAIN then XTC_E_AGAIN else wait_rc, Some sv)
      else (XTC_OK, None))"

definition xtc_sup_n_alive :: "supervisor option \<Rightarrow> int" where
  "xtc_sup_n_alive sv = (case sv of None \<Rightarrow> 0 | Some s \<Rightarrow> sp_n_alive s)"

section \<open>Counting the living\<close>

definition n_live :: "sup_child list \<Rightarrow> int" where
  "n_live cs = int (length (filter ch_alive cs))"

lemma n_live_update:
  "i < length cs \<Longrightarrow> n_live (cs[i := c]) = n_live cs - of_bool (ch_alive (cs ! i)) + of_bool (ch_alive c)"
proof (induction cs arbitrary: i)
  case (Cons a cs)
  then show ?case by (cases i) (auto simp: n_live_def)
qed simp

lemma n_live_append [simp]: "n_live (xs @ ys) = n_live xs + n_live ys"
  by (simp add: n_live_def)

lemma n_live_Cons [simp]: "n_live (c # cs) = of_bool (ch_alive c) + n_live cs" "n_live [] = 0"
  by (simp_all add: n_live_def)

definition sup_count :: "supervisor \<Rightarrow> bool" where
  "sup_count sv = (sp_n_alive sv = n_live (sp_children sv))"

text \<open>What the operations on children leave alone.\<close>

definition evolves :: "supervisor \<Rightarrow> supervisor \<Rightarrow> bool" where
  "evolves sv sv' = (sp_opts sv' = sp_opts sv \<and> sp_recent sv' = sp_recent sv \<and> sp_rr_cap sv' = sp_rr_cap sv \<and>
     sp_n_restarts sv' = sp_n_restarts sv \<and> sp_history sv' = sp_history sv \<and>
     length (sp_children sv') = length (sp_children sv) \<and> (sup_count sv \<longrightarrow> sup_count sv'))"

lemma evolves_refl [simp]: "evolves sv sv"
  by (simp add: evolves_def)

lemma evolves_trans: "evolves a b \<Longrightarrow> evolves b c \<Longrightarrow> evolves a c"
  by (simp add: evolves_def)

lemma evolves_stop: "evolves sv (sv\<lparr>sp_stop := b\<rparr>)"
  by (simp add: evolves_def sup_count_def)

lemma evolves_log: "evolves sv (sv\<lparr>sp_log := l\<rparr>)"
  by (simp add: evolves_def sup_count_def)

lemma evolves_child_alive: "i < length (sp_children sv) \<Longrightarrow> evolves sv (child_alive i v sv)"
  by (auto simp: evolves_def sup_count_def child_alive_def Let_def n_live_update)

lemma evolves_spawn:
  assumes "i < length (sp_children sv)"
  shows "evolves sv (snd (spawn_child env i sv))"
proof -
  obtain rc pid ref where e: "env (sp_spawns sv) = (rc, pid, ref)" by (cases "env (sp_spawns sv)")
  let ?c = "(sp_children sv ! i)\<lparr>ch_pid := pid, ch_monitor_ref := ref\<rparr>"
  let ?s = "sv\<lparr>sp_spawns := sp_spawns sv + 1, sp_children := (sp_children sv)[i := ?c],
      sp_log := sp_log sv @ [Spawned (child_loop sv (sp_children sv ! i)) pid]\<rparr>"
  have "evolves sv ?s" using assms by (simp add: evolves_def sup_count_def n_live_update)
  moreover have "evolves ?s (child_alive i True ?s)" using assms by (intro evolves_child_alive) simp
  ultimately have "evolves sv (child_alive i True ?s)" by (rule evolves_trans)
  moreover have "evolves sv (sv\<lparr>sp_spawns := sp_spawns sv + 1\<rparr>)" by (simp add: evolves_def sup_count_def)
  ultimately show ?thesis using e by (simp add: spawn_child_def Let_def)
qed

lemma evolves_spawn_range:
  "\<forall>i \<in> set is. i < length (sp_children sv) \<Longrightarrow> evolves sv (snd (spawn_range env is sv))"
proof (induction "is" arbitrary: sv)
  case (Cons i "is")
  obtain rc sv1 where r: "spawn_child env i sv = (rc, sv1)" by (cases "spawn_child env i sv")
  have e: "evolves sv sv1" using evolves_spawn [of i sv env] Cons.prems r by simp
  then have "\<forall>j \<in> set is. j < length (sp_children sv1)" using Cons.prems by (simp add: evolves_def)
  from evolves_trans [OF e Cons.IH [OF this]] e r show ?case by simp
qed simp

lemma evolves_fold:
  assumes "\<And>i s. i < length (sp_children s) \<Longrightarrow> evolves s (f i s)"
  shows "\<forall>i \<in> set is. i < length (sp_children sv) \<Longrightarrow> evolves sv (fold f is sv)"
proof (induction "is" arbitrary: sv)
  case (Cons i "is")
  have e: "evolves sv (f i sv)" using assms Cons.prems by simp
  then have "\<forall>j \<in> set is. j < length (sp_children (f i sv))" using Cons.prems by (simp add: evolves_def)
  from evolves_trans [OF e Cons.IH [OF this]] show ?case by simp
qed simp

lemma evolves_kill: "evolves sv (kill_sibling i sv)"
  by (simp add: kill_sibling_def Let_def evolves_log)

lemma evolves_group_kill:
  assumes "\<forall>k \<in> set ks. k < length (sp_children sv)"
  shows "evolves sv (group_kill lo ks sv)"
proof -
  have e: "evolves sv (fold kill_sibling ks sv)" by (rule evolves_fold [OF evolves_kill assms])
  then have n: "length (sp_children (fold kill_sibling ks sv)) = length (sp_children sv)" by (simp add: evolves_def)
  show ?thesis unfolding group_kill_def
    by (rule evolves_trans [OF e evolves_fold [OF evolves_child_alive]]) (auto simp: n)
qed

lemma evolves_group_spawn: "evolves sv (group_spawn env lo sv)"
proof -
  obtain ok sv' where r: "spawn_range env [lo..<length (sp_children sv)] sv = (ok, sv')"
    by (cases "spawn_range env [lo..<length (sp_children sv)] sv")
  have "evolves sv sv'" using evolves_spawn_range [of "[lo..<length (sp_children sv)]" sv env] r by auto
  then show ?thesis using evolves_trans [OF _ evolves_stop] r by (simp add: group_spawn_def)
qed

lemma evolves_group:
  assumes "do_group env calloc_ok start rs lo ks sv = Some sv'" "\<forall>k \<in> set ks. k < length (sp_children sv)"
  shows "evolves sv sv'"
proof -
  note k = evolves_group_kill [OF assms(2), of lo]
  from assms(1) have "sv' = sv\<lparr>sp_stop := True\<rparr> \<or> sv' = (group_kill lo ks sv)\<lparr>sp_stop := True\<rparr> \<or>
      sv' = group_spawn env lo (group_kill lo ks sv)"
    by (auto simp: do_group_def Let_def split: if_splits option.splits)
  then show ?thesis using evolves_stop evolves_trans [OF k evolves_stop] evolves_trans [OF k evolves_group_spawn] by auto
qed

lemma evolves_strategy:
  assumes "apply_strategy env calloc_ok start rs idx sv = Some sv'" "idx < length (sp_children sv)"
  shows "evolves sv sv'"
  using assms evolves_spawn [OF assms(2), of env]
  by (auto simp: apply_strategy_def do_one_for_all_def do_rest_for_one_def elim!: evolves_group split: restart_strategy.splits)

lemma find_alive_Some: "find_alive p k cs = Some i \<Longrightarrow>
    k \<le> i \<and> i - k < length cs \<and> ch_alive (cs ! (i - k)) \<and> ch_pid (cs ! (i - k)) = p"
proof (induction cs arbitrary: k)
  case (Cons c cs)
  show ?case
  proof (cases "ch_alive c \<and> ch_pid c = p")
    case False
    with Cons.prems have "find_alive p (Suc k) cs = Some i" by auto
    from Cons.IH [OF this] show ?thesis by (auto simp: nth_Cons' Suc_le_eq)
  qed (use Cons.prems in auto)
qed simp

lemma find_child_Some:
  "find_child_by_pid p sv = Some i \<Longrightarrow> i < length (sp_children sv) \<and> ch_alive (sp_children sv ! i) \<and> ch_pid (sp_children sv ! i) = p"
  using find_alive_Some [of p 0 "sp_children sv" i] by (simp add: find_child_by_pid_def)

section \<open>The invariant of the supervisor\<close>

text \<open>
  The counter of live children is exact, the ring is the end of the restart history, and
  the restart counter its length.
\<close>

definition sup_ring :: "supervisor \<Rightarrow> bool" where
  "sup_ring sv = (sp_recent sv = drop (length (sp_history sv) - nat (sp_rr_cap sv)) (sp_history sv) \<and>
     sp_n_restarts sv = int (length (sp_history sv)) \<and> sp_rr_cap sv = so_max_restarts (sp_opts sv) + 4)"

definition sup_inv :: "supervisor \<Rightarrow> bool" where
  "sup_inv sv = (sup_count sv \<and> sup_ring sv)"

lemma evolves_inv: "evolves sv sv' \<Longrightarrow> sup_inv sv \<Longrightarrow> sup_inv sv'"
  by (simp add: evolves_def sup_inv_def sup_ring_def)

lemma record_restart_inv:
  assumes "sup_inv sv" "record_restart now sv = Some sv'"
  shows "sup_inv sv'" "sp_children sv' = sp_children sv" "sp_opts sv' = sp_opts sv" "sp_history sv' = sp_history sv @ [now]"
    "0 < sp_rr_cap sv'"
proof -
  let ?h = "sp_history sv" and ?c = "nat (sp_rr_cap sv)"
  have r: "sp_recent sv = drop (length ?h - ?c) ?h" using assms(1) by (simp add: sup_inv_def sup_ring_def)
  then have l: "length (sp_recent sv) = min (length ?h) ?c" by simp
  show o: "sp_children sv' = sp_children sv" "sp_opts sv' = sp_opts sv" "sp_history sv' = ?h @ [now]"
    using assms(2) by (auto simp: record_restart_def split: if_splits)
  show "0 < sp_rr_cap sv'" using assms(2) by (auto simp: record_restart_def split: if_splits)
  have rec: "sp_recent sv' = drop (length (?h @ [now]) - ?c) (?h @ [now])"
  proof (cases "int (length (sp_recent sv)) < sp_rr_cap sv")
    case True
    then have "length ?h < ?c" using l by linarith
    then show ?thesis using True assms(2) r by (auto simp: record_restart_def)
  next
    case False
    then have c: "0 < ?c" "?c \<le> length ?h" using assms(2) l by (auto simp: record_restart_def split: if_splits)
    then have "tl (sp_recent sv) = drop (Suc (length ?h) - ?c) ?h" by (simp add: r drop_Suc [symmetric] tl_drop Suc_diff_le)
    then show ?thesis using False assms(2) c by (auto simp: record_restart_def split: if_splits)
  qed
  from assms(2) have "sp_rr_cap sv' = sp_rr_cap sv" "sp_n_alive sv' = sp_n_alive sv" "sp_n_restarts sv' = sp_n_restarts sv + 1"
    by (auto simp: record_restart_def split: if_splits)
  with assms(1) o rec show "sup_inv sv'" by (simp add: sup_inv_def sup_ring_def sup_count_def)
qed

lemma child_alive_children:
  assumes "i < length (sp_children sv)"
  shows "sp_children (child_alive i v sv) = (sp_children sv)[i := (sp_children sv ! i)\<lparr>ch_alive := v\<rparr>]"
proof (cases "ch_alive (sp_children sv ! i) = v")
  case True
  then have eq: "(sp_children sv ! i)\<lparr>ch_alive := v\<rparr> = sp_children sv ! i" by (cases "sp_children sv ! i") simp
  from True show ?thesis unfolding eq by (simp add: child_alive_def Let_def)
qed (simp add: child_alive_def Let_def)

lemma drop_dead_inv:
  assumes "sup_inv sv" "i < length (sp_children sv)" "\<not> ch_alive (sp_children sv ! i)"
  shows "sup_inv (sv\<lparr>sp_children := take i (sp_children sv) @ drop (Suc i) (sp_children sv)\<rparr>)"
proof -
  have "n_live (sp_children sv) = n_live (take i (sp_children sv)) + n_live (drop (Suc i) (sp_children sv))"
    using arg_cong [OF id_take_nth_drop [OF assms(2)], of n_live] assms(3) by simp
  with assms(1) show ?thesis by (simp add: sup_inv_def sup_count_def sup_ring_def)
qed

lemma handle_down_inv:
  assumes inv: "sup_inv sv" and h: "handle_down env pid reason stop now calloc_ok start rs sv = Some (go, sv')"
  shows "sup_inv sv'"
proof (cases "find_child_by_pid pid sv")
  case None
  with h inv show ?thesis by (simp add: handle_down_def)
next
  case (Some i)
  from find_child_Some [OF Some] have i: "i < length (sp_children sv)" by simp
  let ?s1 = "child_alive i False sv"
  have s1: "sup_inv ?s1" by (rule evolves_inv [OF evolves_child_alive [OF i] inv])
  have l1: "length (sp_children ?s1) = length (sp_children sv)" and d1: "\<not> ch_alive (sp_children ?s1 ! i)"
    using i by (simp_all add: child_alive_children)
  consider "stop" "sv' = ?s1\<lparr>sp_stop := True\<rparr>" | "sv' = ?s1"
    | "sv' = ?s1\<lparr>sp_children := take i (sp_children ?s1) @ drop (Suc i) (sp_children ?s1)\<rparr>"
    | s2 where "record_restart now ?s1 = Some s2" "sv' = s2 \<or> apply_strategy env calloc_ok start rs i s2 = Some sv'"
    using h Some by (auto simp: handle_down_def Let_def split: if_splits option.splits)
  then show ?thesis
  proof cases
    case 1
    then show ?thesis using evolves_inv [OF evolves_stop s1] by simp
  next
    case 2
    then show ?thesis using s1 by simp
  next
    case 3
    then show ?thesis using drop_dead_inv [OF s1 _ d1] i l1 by simp
  next
    case 4
    note r = record_restart_inv [OF s1 4(1)]
    have "i < length (sp_children s2)" using r(2) l1 i by simp
    then show ?thesis using 4(2) r(1) evolves_strategy evolves_inv by blast
  qed
qed

lemma handle_add_inv:
  assumes "sup_inv sv"
  shows "sup_inv (snd (handle_add_child env realloc_ok spec sv))"
proof -
  let ?c = "\<lparr>ch_spec = spec, ch_pid = 0, ch_monitor_ref = 0, ch_alive = False, ch_dynamic = True\<rparr>"
  let ?s = "sv\<lparr>sp_children := sp_children sv @ [?c]\<rparr>"
  have s: "sup_inv ?s" using assms by (simp add: sup_inv_def sup_count_def sup_ring_def)
  have e: "evolves ?s (snd (spawn_child env (length (sp_children sv)) ?s))" by (rule evolves_spawn) simp
  obtain rc sv1 where r: "spawn_child env (length (sp_children sv)) ?s = (rc, sv1)"
    by (cases "spawn_child env (length (sp_children sv)) ?s")
  have "sup_inv (sv1\<lparr>sp_children := sp_children sv\<rparr>)" if "rc \<noteq> XTC_OK"
  proof -
    have "sv1 = ?s\<lparr>sp_spawns := sp_spawns sv + 1\<rparr>"
      using r that by (auto simp: spawn_child_def Let_def split: prod.splits if_splits)
    then show ?thesis using assms by (simp add: sup_inv_def sup_count_def sup_ring_def)
  qed
  moreover have "sup_inv sv1" using evolves_inv [OF e s] r by simp
  ultimately show ?thesis using assms r by (simp add: handle_add_child_def Let_def)
qed

lemma sup_handle_inv: "sup_inv sv \<Longrightarrow> sup_handle env msg sv = Some (go, sv') \<Longrightarrow> sup_inv sv'"
proof (cases msg)
  case (SDown pid reason stop now calloc_ok start rs)
  then show "sup_inv sv \<Longrightarrow> sup_handle env msg sv = Some (go, sv') \<Longrightarrow> sup_inv sv'" using handle_down_inv by simp
next
  case (SAdd spec realloc_ok)
  then show "sup_inv sv \<Longrightarrow> sup_handle env msg sv = Some (go, sv') \<Longrightarrow> sup_inv sv'" using handle_add_inv by auto
next
  case SStop
  then show "sup_inv sv \<Longrightarrow> sup_handle env msg sv = Some (go, sv') \<Longrightarrow> sup_inv sv'"
    using evolves_inv [OF evolves_stop] by auto
qed simp

interpretation sps: step_system "\<lambda>msg sv. map_option snd (sup_handle env msg sv)" sup_inv for env
  by unfold_locales (auto dest: sup_handle_inv)

lemma sup_loop_inv: "sup_inv sv \<Longrightarrow> sup_loop env msgs sv = Some (go, sv') \<Longrightarrow> sup_inv sv'"
proof (induction msgs arbitrary: sv)
  case (Cons msg msgs)
  show ?case
  proof (cases "sp_stop sv")
    case False
    with Cons.prems(2) obtain b s1 where h: "sup_handle env msg sv = Some (b, s1)" by (auto split: option.splits)
    have "sup_inv s1" by (rule sps.step_keeps [OF Cons.prems(1), of env msg]) (simp add: h)
    with Cons h False show ?thesis by (cases b) auto
  qed (use Cons.prems in simp)
qed simp

section \<open>The exit\<close>

abbreviation exit_one :: "nat \<Rightarrow> supervisor \<Rightarrow> supervisor" where
  "exit_one k s \<equiv> child_alive k False (kill_sibling k s)"

lemma evolves_exit_one: "k < length (sp_children s) \<Longrightarrow> evolves s (exit_one k s)"
  by (rule evolves_trans [OF evolves_kill evolves_child_alive]) (simp add: kill_sibling_def Let_def)

definition kill_ev :: "supervisor \<Rightarrow> nat \<Rightarrow> sup_event list" where
  "kill_ev s k = (if ch_alive (sp_children s ! k)
     then [Killed (child_loop s (sp_children s ! k)) (ch_pid (sp_children s ! k))] else [])"

lemma exit_one_children:
  assumes "k < length (sp_children s)"
  shows "sp_children (exit_one k s) = (sp_children s)[k := (sp_children s ! k)\<lparr>ch_alive := False\<rparr>]"
    "sp_log (exit_one k s) = sp_log s @ kill_ev s k"
    "sp_opts (exit_one k s) = sp_opts s"
proof -
  have c: "sp_children (kill_sibling k s) = sp_children s" by (simp add: kill_sibling_def Let_def)
  then show "sp_children (exit_one k s) = (sp_children s)[k := (sp_children s ! k)\<lparr>ch_alive := False\<rparr>]"
    using child_alive_children [of k "kill_sibling k s"] assms by simp
  show "sp_log (exit_one k s) = sp_log s @ kill_ev s k" "sp_opts (exit_one k s) = sp_opts s"
    by (simp_all add: child_alive_def kill_sibling_def kill_ev_def Let_def)
qed

lemma child_loop_cong: "sp_opts a = sp_opts b \<Longrightarrow> child_loop a c = child_loop b c"
  by (simp add: child_loop_def)

lemma concat_map_filter: "concat (map (\<lambda>c. if P c then [f c] else []) cs) = map f (filter P cs)"
  by (induction cs) auto

lemma exit_fold:
  "\<forall>k \<in> set ks. k < length (sp_children s) \<Longrightarrow> distinct ks \<Longrightarrow>
    sp_opts (fold exit_one ks s) = sp_opts s \<and>
    (\<forall>j < length (sp_children s). sp_children (fold exit_one ks s) ! j =
      (if j \<in> set ks then (sp_children s ! j)\<lparr>ch_alive := False\<rparr> else sp_children s ! j)) \<and>
    sp_log (fold exit_one ks s) = sp_log s @ concat (map (kill_ev s) ks)"
proof (induction ks arbitrary: s)
  case (Cons k ks)
  have k: "k < length (sp_children s)" "k \<notin> set ks" using Cons.prems by auto
  note o = exit_one_children [OF k(1)]
  let ?t = "exit_one k s"
  have b: "\<forall>j \<in> set ks. j < length (sp_children ?t)" using Cons.prems o(1) by simp
  from Cons.IH [OF b] Cons.prems(2) have
    i: "sp_opts (fold exit_one ks ?t) = sp_opts ?t"
      "\<forall>j < length (sp_children s). sp_children (fold exit_one ks ?t) ! j =
        (if j \<in> set ks then (sp_children ?t ! j)\<lparr>ch_alive := False\<rparr> else sp_children ?t ! j)"
      "sp_log (fold exit_one ks ?t) = sp_log ?t @ concat (map (kill_ev ?t) ks)"
    by (simp_all add: o(1))
  have "sp_children ?t ! k' = sp_children s ! k'" if "k' \<in> set ks" for k'
    using that k(2) o(1) by (cases "k' = k") auto
  then have "kill_ev ?t k' = kill_ev s k'" if "k' \<in> set ks" for k'
    using that by (simp add: kill_ev_def child_loop_cong [OF o(3)])
  then have m: "map (kill_ev ?t) ks = map (kill_ev s) ks" by (rule map_cong [OF refl])
  have c: "sp_children ?t ! j = (if j = k then (sp_children s ! j)\<lparr>ch_alive := False\<rparr> else sp_children s ! j)"
    if "j < length (sp_children s)" for j
    using that o(1) by (simp add: nth_list_update_If)
  have "\<forall>j < length (sp_children s). sp_children (fold exit_one ks ?t) ! j =
      (if j \<in> set (k # ks) then (sp_children s ! j)\<lparr>ch_alive := False\<rparr> else sp_children s ! j)"
    using i(2) c k(2) by simp
  then show ?case using i(1,3) o(2,3) m by simp
qed simp

text \<open>
  C17. The exit hook, however the supervisor ends: every child alive is killed on its own
  loop, no child is left marked alive, the counter of live children is zero, and the stop
  is announced after all the kills, with the executor stopped last. It announces the stop
  also when memory is short.
\<close>

theorem sup_exit_kills_all:
  assumes "sup_count sv" "sup_exited calloc_ok start rs sv = Some sv'"
  shows "(\<forall>c \<in> set (sp_children sv'). \<not> ch_alive c) \<and> sp_n_alive sv' = 0 \<and> \<not> sp_alive sv' \<and>
    sp_log sv' = sp_log sv @
      map (\<lambda>c. Killed (child_loop sv c) (ch_pid c)) (filter ch_alive (sp_children sv)) @
      Signalled # (if so_exec (sp_opts sv) = None then [] else [ExecStopped])"
proof -
  let ?n = "length (sp_children sv)" and ?s0 = "sv\<lparr>sp_restart_old := None\<rparr>"
  let ?s1 = "fold exit_one [0..<?n] ?s0"
  have b: "\<forall>k \<in> set [0..<?n]. k < length (sp_children ?s0)" by simp
  from exit_fold [OF b] have
    f: "sp_opts ?s1 = sp_opts sv" "\<forall>j < ?n. \<not> ch_alive (sp_children ?s1 ! j)"
      "sp_log ?s1 = sp_log sv @ concat (map (kill_ev ?s0) [0..<?n])"
    by simp_all
  have "kill_ev ?s0 = (\<lambda>k. if ch_alive (sp_children sv ! k) then [Killed (child_loop sv (sp_children sv ! k)) (ch_pid (sp_children sv ! k))] else [])"
    by (rule ext) (simp add: kill_ev_def child_loop_def)
  then have "concat (map (kill_ev ?s0) [0..<?n]) =
      concat (map (\<lambda>c. if ch_alive c then [Killed (child_loop sv c) (ch_pid c)] else []) (map ((!) (sp_children sv)) [0..<?n]))"
    by (simp add: comp_def)
  also have "\<dots> = map (\<lambda>c. Killed (child_loop sv c) (ch_pid c)) (filter ch_alive (sp_children sv))"
    unfolding map_nth by (rule concat_map_filter)
  finally have log: "sp_log ?s1 = sp_log sv @ map (\<lambda>c. Killed (child_loop sv c) (ch_pid c)) (filter ch_alive (sp_children sv))"
    using f(3) by simp
  have ev: "evolves ?s0 ?s1" by (rule evolves_fold [OF evolves_exit_one b])
  then have len: "length (sp_children ?s1) = ?n" and cnt: "sup_count ?s1"
    using assms(1) by (simp_all add: evolves_def sup_count_def)
  have dead: "\<forall>c \<in> set (sp_children ?s1). \<not> ch_alive c" using f(2) len by (auto simp: in_set_conv_nth)
  then have "n_live (sp_children ?s1) = 0" by (simp add: n_live_def filter_empty_conv)
  with cnt have z: "sp_n_alive ?s1 = 0" by (simp add: sup_count_def)
  from assms(2) have "sv' = ?s1\<lparr>sp_alive := False, sp_log := sp_log ?s1 @ Signalled #
      (if so_exec (sp_opts ?s1) = None then [] else [ExecStopped])\<rparr>"
    by (auto simp: sup_exited_def Let_def split: if_splits option.splits)
  with dead z log f(1) show ?thesis by simp
qed

section \<open>Restart intensity\<close>

lemma sorted_filter_suffix:
  fixes h :: "int list"
  assumes "sorted h"
  shows "length (filter (\<lambda>t. t > c) (drop (length h - k) h)) = min k (length (filter (\<lambda>t. t > c) h))"
  using assms
proof (induction h)
  case (Cons a h)
  show ?case
  proof (cases "Suc (length h) \<le> k")
    case True
    then have "length (filter (\<lambda>t. t > c) (a # h)) \<le> k" using length_filter_le [of "\<lambda>t. t > c" "a # h"] by simp
    with True show ?thesis by (simp add: min_absorb2)
  next
    case False
    then have d: "drop (length (a # h) - k) (a # h) = drop (length h - k) h" by (simp add: Suc_diff_le)
    show ?thesis
    proof (cases "a > c")
      case False
      with Cons d show ?thesis by simp
    next
      case True
      then have all: "filter (\<lambda>t. t > c) (a # h) = a # h" using Cons.prems by (auto simp: filter_id_conv)
      have "filter (\<lambda>t. t > c) (drop (length h - k) h) = drop (length h - k) h"
        using Cons.prems True by (auto simp: filter_id_conv dest!: in_set_dropD)
      then show ?thesis unfolding d all using \<open>\<not> Suc (length h) \<le> k\<close> by simp
    qed
  qed
qed simp

text \<open>Deciding on the ring is deciding on the whole history.\<close>

lemma intensity_exact:
  assumes "sup_ring sv" "sorted (sp_history sv)" "0 \<le> so_max_restarts (sp_opts sv)"
  shows "intensity_exceeded now sv \<longleftrightarrow>
    so_max_restarts (sp_opts sv) < int (length (filter (\<lambda>t. t > now - so_period_ns (sp_opts sv)) (sp_history sv)))"
proof -
  have "sp_recent sv = drop (length (sp_history sv) - nat (so_max_restarts (sp_opts sv) + 4)) (sp_history sv)"
    using assms(1) by (simp add: sup_ring_def)
  then show ?thesis unfolding intensity_exceeded_def
    using sorted_filter_suffix [OF assms(2)] assms(3) by (auto simp: min_def)
qed

text \<open>At most \<open>max_restarts\<close> restarts in the period before, and including, each restart.\<close>

definition calm :: "supervisor \<Rightarrow> bool" where
  "calm sv = (\<forall>k < length (sp_history sv).
     int (length (filter (\<lambda>t. t > sp_history sv ! k - so_period_ns (sp_opts sv)) (take (Suc k) (sp_history sv))))
       \<le> so_max_restarts (sp_opts sv))"

fun clocks :: "sup_msg list \<Rightarrow> int list" where
  "clocks [] = []"
| "clocks (SDown pid reason stop now calloc_ok start rs # msgs) = now # clocks msgs"
| "clocks (_ # msgs) = clocks msgs"

lemma calm_append:
  assumes "calm sv" "sp_opts sv' = sp_opts sv" "sp_history sv' = sp_history sv @ [now]"
    and "int (length (filter (\<lambda>t. t > now - so_period_ns (sp_opts sv)) (sp_history sv @ [now]))) \<le> so_max_restarts (sp_opts sv)"
  shows "calm sv'"
  unfolding calm_def assms(2,3)
proof (intro allI impI)
  fix k assume k: "k < length (sp_history sv @ [now])"
  show "int (length (filter (\<lambda>t. t > (sp_history sv @ [now]) ! k - so_period_ns (sp_opts sv)) (take (Suc k) (sp_history sv @ [now]))))
      \<le> so_max_restarts (sp_opts sv)"
  proof (cases "k < length (sp_history sv)")
    case True
    then show ?thesis using assms(1) by (simp add: calm_def nth_append)
  next
    case False
    with k have "k = length (sp_history sv)" by simp
    then show ?thesis using assms(4) by simp
  qed
qed

lemma evolves_calm: "evolves sv sv' \<Longrightarrow> calm sv' = calm sv"
  by (simp add: evolves_def calm_def)

lemma handle_down_calm:
  assumes inv: "sup_inv sv" and c: "calm sv" and m: "0 \<le> so_max_restarts (sp_opts sv)"
    and s: "sorted (sp_history sv @ [now])"
    and h: "handle_down env pid reason stop now calloc_ok start rs sv = Some (True, sv')"
  shows "calm sv' \<and> sp_opts sv' = sp_opts sv \<and> (sp_history sv' = sp_history sv \<or> sp_history sv' = sp_history sv @ [now])"
proof (cases "find_child_by_pid pid sv")
  case None
  with h c show ?thesis by (simp add: handle_down_def)
next
  case (Some i)
  from find_child_Some [OF Some] have i: "i < length (sp_children sv)" by simp
  let ?s1 = "child_alive i False sv"
  have e1: "evolves sv ?s1" by (rule evolves_child_alive [OF i])
  have s1: "sup_inv ?s1" by (rule evolves_inv [OF e1 inv])
  consider "sv' = ?s1" | "sv' = ?s1\<lparr>sp_children := take i (sp_children ?s1) @ drop (Suc i) (sp_children ?s1)\<rparr>"
    | s2 where "record_restart now ?s1 = Some s2" "\<not> intensity_exceeded now s2" "apply_strategy env calloc_ok start rs i s2 = Some sv'"
    using h Some by (auto simp: handle_down_def Let_def split: if_splits option.splits)
  then show ?thesis
  proof cases
    case 3
    note r = record_restart_inv [OF s1 3(1)]
    have o: "sp_opts s2 = sp_opts sv" "sp_history s2 = sp_history sv @ [now]" using r(3,4) e1 by (simp_all add: evolves_def)
    have "sup_ring s2" using r(1) by (simp add: sup_inv_def)
    from intensity_exact [OF this, of now] 3(2) o s m have "calm s2" by (intro calm_append [OF c o]) simp
    moreover have "evolves s2 sv'" by (rule evolves_strategy [OF 3(3)]) (use r(2) e1 i in \<open>simp add: evolves_def\<close>)
    ultimately show ?thesis using evolves_calm [of s2 sv'] o by (simp add: evolves_def)
  qed (use evolves_calm [OF e1] e1 c in \<open>simp_all add: evolves_def calm_def\<close>)
qed

lemma sup_handle_calm:
  assumes "sup_inv sv" "calm sv" "0 \<le> so_max_restarts (sp_opts sv)" "sorted (sp_history sv @ clocks (msg # msgs))"
    and "sup_handle env msg sv = Some (True, sv')"
  shows "calm sv' \<and> sp_opts sv' = sp_opts sv \<and> sorted (sp_history sv' @ clocks msgs)"
proof (cases msg)
  case (SDown pid reason stop now calloc_ok start rs)
  with assms(4) have "sorted (sp_history sv @ [now])" "sorted (sp_history sv @ clocks msgs)" "sorted ((sp_history sv @ [now]) @ clocks msgs)"
    by (auto simp: sorted_append)
  with handle_down_calm [OF assms(1-3), of now env pid reason stop calloc_ok start rs sv'] assms(5) SDown show ?thesis by auto
next
  case (SAdd spec realloc_ok)
  have "sp_opts sv' = sp_opts sv \<and> sp_history sv' = sp_history sv"
    using assms(5) SAdd by (auto simp: handle_add_child_def spawn_child_def child_alive_def Let_def split: prod.splits if_splits)
  with assms SAdd show ?thesis by (simp add: calm_def)
qed (use assms in \<open>auto simp: calm_def\<close>)

lemma sup_loop_calm:
  assumes "sup_inv sv" "calm sv" "0 \<le> so_max_restarts (sp_opts sv)" "sorted (sp_history sv @ clocks msgs)"
    and "sup_loop env msgs sv = Some (True, sv')"
  shows "calm sv'"
  using assms
proof (induction msgs arbitrary: sv)
  case (Cons msg msgs)
  from Cons.prems(5) obtain s1 where h: "sup_handle env msg sv = Some (True, s1)" "sup_loop env msgs s1 = Some (True, sv')"
    by (auto split: if_splits option.splits bool.splits)
  from sup_handle_calm [OF Cons.prems(1-4) h(1)] Cons.prems(3) sup_handle_inv [OF Cons.prems(1) h(1)]
  show ?case using Cons.IH [OF _ _ _ _ h(2)] by simp
qed simp

definition sup_fresh :: "sup_opts \<Rightarrow> child_spec list \<Rightarrow> supervisor" where
  "sup_fresh op specs = \<lparr>sp_opts = op,
     sp_children = map (\<lambda>s. \<lparr>ch_spec = s, ch_pid = 0, ch_monitor_ref = 0, ch_alive = False, ch_dynamic = False\<rparr>) specs,
     sp_recent = [], sp_rr_cap = so_max_restarts op + 4, sp_n_restarts = 0, sp_n_alive = 0, sp_alive = True,
     sp_stop = False, sp_restart_old = None, sp_spawns = 0, sp_log = [], sp_history = []\<rparr>"

lemma sup_fresh_inv: "sup_inv (sup_fresh op specs)"
proof -
  have "filter ch_alive (map (\<lambda>s. \<lparr>ch_spec = s, ch_pid = 0, ch_monitor_ref = 0, ch_alive = False, ch_dynamic = False\<rparr>) specs) = []"
    by (simp add: filter_empty_conv)
  then show ?thesis by (simp add: sup_fresh_def sup_inv_def sup_count_def sup_ring_def n_live_def)
qed

lemma start_fresh:
  assumes "xtc_sup_start args_ok opts_rc spec_rc sup_rc ring_rc table_rc notify_rc spawn_rc opts specs = (XTC_OK, Some sv)"
  shows "sv = sup_fresh (case opts of None \<Rightarrow> XTC_SUP_OPTS_DEFAULT | Some p \<Rightarrow> p) specs"
  using assms unfolding xtc_sup_start_def Let_def sup_fresh_def [symmetric]
  by (simp split: if_split_asm option.split_asm)


section \<open>What a restart replaces\<close>

abbreviation renewed :: "xtc_err \<times> nat \<times> nat \<Rightarrow> sup_child \<Rightarrow> sup_child" where
  "renewed e c \<equiv> c\<lparr>ch_pid := fst (snd e), ch_monitor_ref := snd (snd e), ch_alive := True\<rparr>"

lemma child_alive_frame [simp]:
  "sp_spawns (child_alive i v sv) = sp_spawns sv" "sp_stop (child_alive i v sv) = sp_stop sv" "sp_opts (child_alive i v sv) = sp_opts sv"
  by (simp_all add: child_alive_def Let_def)

lemma spawn_child_ok:
  assumes "fst (env (sp_spawns sv)) = XTC_OK" "i < length (sp_children sv)"
  shows "fst (spawn_child env i sv) = XTC_OK"
    "sp_children (snd (spawn_child env i sv)) = (sp_children sv)[i := renewed (env (sp_spawns sv)) (sp_children sv ! i)]"
    "sp_spawns (snd (spawn_child env i sv)) = sp_spawns sv + 1" "sp_stop (snd (spawn_child env i sv)) = sp_stop sv"
proof -
  obtain pid ref where e: "env (sp_spawns sv) = (XTC_OK, pid, ref)" using assms(1) by (cases "env (sp_spawns sv)") simp
  let ?c = "sp_children sv ! i"
  let ?s = "sv\<lparr>sp_spawns := sp_spawns sv + 1, sp_children := (sp_children sv)[i := ?c\<lparr>ch_pid := pid, ch_monitor_ref := ref\<rparr>],
      sp_log := sp_log sv @ [Spawned (child_loop sv ?c) pid]\<rparr>"
  have r: "spawn_child env i sv = (XTC_OK, child_alive i True ?s)" using e by (simp add: spawn_child_def Let_def)
  have "sp_children (child_alive i True ?s) = (sp_children ?s)[i := (sp_children ?s ! i)\<lparr>ch_alive := True\<rparr>]"
    by (rule child_alive_children) (simp add: assms(2))
  then show "fst (spawn_child env i sv) = XTC_OK"
    "sp_children (snd (spawn_child env i sv)) = (sp_children sv)[i := renewed (env (sp_spawns sv)) (sp_children sv ! i)]"
    "sp_spawns (snd (spawn_child env i sv)) = sp_spawns sv + 1" "sp_stop (snd (spawn_child env i sv)) = sp_stop sv"
    using assms(2) by (simp_all add: r e)
qed

lemma spawn_range_ok:
  assumes "\<And>k. fst (env k) = XTC_OK"
  shows "\<forall>i \<in> set is. i < length (sp_children sv) \<Longrightarrow> distinct is \<Longrightarrow>
    fst (spawn_range env is sv) \<and> sp_spawns (snd (spawn_range env is sv)) = sp_spawns sv + length is \<and>
    sp_stop (snd (spawn_range env is sv)) = sp_stop sv \<and>
    (\<forall>k < length is. sp_children (snd (spawn_range env is sv)) ! (is ! k) =
       renewed (env (sp_spawns sv + k)) (sp_children sv ! (is ! k))) \<and>
    (\<forall>j. j \<notin> set is \<longrightarrow> sp_children (snd (spawn_range env is sv)) ! j = sp_children sv ! j)"
proof (induction "is" arbitrary: sv)
  case (Cons i "is")
  have i: "i < length (sp_children sv)" "i \<notin> set is" using Cons.prems by auto
  let ?t = "snd (spawn_child env i sv)"
  note o = spawn_child_ok [of env sv i, OF assms i(1)]
  have r: "spawn_range env (i # is) sv = spawn_range env is ?t" using o(1) by (cases "spawn_child env i sv") simp
  have "\<forall>j \<in> set is. j < length (sp_children ?t)" using Cons.prems o(2) by simp
  note h = Cons.IH [OF this]
  have same: "sp_children ?t ! j = sp_children sv ! j" if "j \<noteq> i" for j using that o(2) by simp
  have "sp_children (snd (spawn_range env is ?t)) ! ((i # is) ! k) = renewed (env (sp_spawns sv + k)) (sp_children sv ! ((i # is) ! k))"
    if k: "k < length (i # is)" for k
  proof (cases k)
    case 0
    then show ?thesis using h i o(2) Cons.prems(2) by simp
  next
    case (Suc k')
    with k have "is ! k' \<noteq> i" using i(2) nth_mem by fastforce
    then show ?thesis using h Suc k same o(3) Cons.prems(2) by simp
  qed
  then show ?case unfolding r using h o(3,4) same Cons.prems(2) by auto
qed simp

lemma fold_kill_children:
  "sp_children (fold kill_sibling ks sv) = sp_children sv \<and> sp_spawns (fold kill_sibling ks sv) = sp_spawns sv \<and>
   sp_stop (fold kill_sibling ks sv) = sp_stop sv \<and> sp_opts (fold kill_sibling ks sv) = sp_opts sv"
proof (induction ks arbitrary: sv)
  case (Cons k ks)
  have "sp_children (kill_sibling k sv) = sp_children sv \<and> sp_spawns (kill_sibling k sv) = sp_spawns sv \<and>
     sp_stop (kill_sibling k sv) = sp_stop sv \<and> sp_opts (kill_sibling k sv) = sp_opts sv"
    by (simp add: kill_sibling_def Let_def)
  with Cons show ?case by simp
qed simp

lemma fold_dead_children:
  "\<forall>i \<in> set is. i < length (sp_children sv) \<Longrightarrow>
   sp_spawns (fold (\<lambda>i. child_alive i False) is sv) = sp_spawns sv \<and> sp_stop (fold (\<lambda>i. child_alive i False) is sv) = sp_stop sv \<and>
   sp_opts (fold (\<lambda>i. child_alive i False) is sv) = sp_opts sv \<and>
   (\<forall>j < length (sp_children sv). sp_children (fold (\<lambda>i. child_alive i False) is sv) ! j =
     (if j \<in> set is then (sp_children sv ! j)\<lparr>ch_alive := False\<rparr> else sp_children sv ! j))"
proof (induction "is" arbitrary: sv)
  case (Cons i "is")
  have i: "i < length (sp_children sv)" using Cons.prems by simp
  note c = child_alive_children [OF i]
  have "\<forall>j \<in> set is. j < length (sp_children (child_alive i False sv))" using Cons.prems c by simp
  from Cons.IH [OF this] c i show ?case by (simp add: nth_list_update_If)
qed simp

lemma group_kill_children:
  "sp_spawns (group_kill lo ks sv) = sp_spawns sv" "sp_stop (group_kill lo ks sv) = sp_stop sv" "sp_opts (group_kill lo ks sv) = sp_opts sv"
  "j < length (sp_children sv) \<Longrightarrow> sp_children (group_kill lo ks sv) ! j =
     (if lo \<le> j then (sp_children sv ! j)\<lparr>ch_alive := False\<rparr> else sp_children sv ! j)"
proof -
  have "\<forall>i \<in> set [lo..<length (sp_children sv)]. i < length (sp_children (fold kill_sibling ks sv))"
    using fold_kill_children [of ks sv] by simp
  note f = fold_dead_children [OF this] and k = fold_kill_children [of ks sv]
  show "sp_spawns (group_kill lo ks sv) = sp_spawns sv" "sp_stop (group_kill lo ks sv) = sp_stop sv" "sp_opts (group_kill lo ks sv) = sp_opts sv"
    using f k by (simp_all add: group_kill_def)
  show "j < length (sp_children sv) \<Longrightarrow> sp_children (group_kill lo ks sv) ! j =
     (if lo \<le> j then (sp_children sv ! j)\<lparr>ch_alive := False\<rparr> else sp_children sv ! j)"
    using f k by (simp add: group_kill_def)
qed

lemma do_group_ok:
  assumes env: "\<And>k. fst (env k) = XTC_OK" and g: "do_group env calloc_ok start rs lo ks sv = Some sv'" "\<not> sp_stop sv'"
    and ks: "\<forall>k \<in> set ks. k < length (sp_children sv)"
  shows "\<forall>j < length (sp_children sv). sp_children sv' ! j =
      (if lo \<le> j then renewed (env (sp_spawns sv + (j - lo))) (sp_children sv ! j) else sp_children sv ! j)"
    "sp_spawns sv' = sp_spawns sv + (length (sp_children sv) - lo)"
proof -
  let ?s2 = "group_kill lo ks sv" and ?n = "length (sp_children sv)"
  have n2: "length (sp_children ?s2) = ?n" using evolves_group_kill [OF ks, of lo] by (simp add: evolves_def)
  then have b: "\<forall>i \<in> set [lo..<?n]. i < length (sp_children ?s2)" by simp
  note r = spawn_range_ok [of env, OF env b]
  have s': "sv' = snd (spawn_range env [lo..<?n] ?s2)"
    using g r n2 by (auto simp: do_group_def Let_def group_spawn_def split: if_splits option.splits prod.splits)
  have "sp_children sv' ! j = renewed (env (sp_spawns sv + (j - lo))) (sp_children sv ! j)" if "j < ?n" "lo \<le> j" for j
  proof -
    have "[lo..<?n] ! (j - lo) = j" "j - lo < length [lo..<?n]" using that by simp_all
    then have "sp_children sv' ! j = renewed (env (sp_spawns ?s2 + (j - lo))) (sp_children ?s2 ! j)"
      using r s' by (metis distinct_upt)
    then show ?thesis using group_kill_children(1) [of lo ks sv] group_kill_children(4) [OF that(1), of lo ks] that by simp
  qed
  moreover have "sp_children sv' ! j = sp_children sv ! j" if "j < ?n" "\<not> lo \<le> j" for j
    using r s' group_kill_children(4) [OF that(1), of lo ks] that by simp
  ultimately show "\<forall>j < ?n. sp_children sv' ! j =
      (if lo \<le> j then renewed (env (sp_spawns sv + (j - lo))) (sp_children sv ! j) else sp_children sv ! j)" by simp
  show "sp_spawns sv' = sp_spawns sv + (?n - lo)" using r s' group_kill_children(1) [of lo ks sv] by simp
qed

text \<open>The first child a restart replaces, and the last one plus one.\<close>

definition scope :: "restart_strategy \<Rightarrow> nat \<Rightarrow> nat \<Rightarrow> nat \<times> nat" where
  "scope st idx n = (case st of OneForAll \<Rightarrow> (0, n) | RestForOne \<Rightarrow> (idx, n) | OtherStrategy \<Rightarrow> (0, 0) | _ \<Rightarrow> (idx, Suc idx))"

lemma child_loop_alive [simp]: "child_loop sv (c\<lparr>ch_alive := v\<rparr>) = child_loop sv c"
  by (simp add: child_loop_def split: option.split)

lemma record_restart_frame:
  "record_restart now sv = Some sv' \<Longrightarrow> sp_children sv' = sp_children sv \<and> sp_opts sv' = sp_opts sv \<and>
     sp_spawns sv' = sp_spawns sv \<and> sp_stop sv' = sp_stop sv"
  by (auto simp: record_restart_def split: if_splits)

lemma apply_strategy_scope:
  assumes env: "\<And>k. fst (env k) = XTC_OK" and i: "idx < length (sp_children sv)"
    and a: "apply_strategy env calloc_ok start rs idx sv = Some sv'" "\<not> sp_stop sv'" "so_strategy (sp_opts sv) \<noteq> OtherStrategy"
    and s: "scope (so_strategy (sp_opts sv)) idx (length (sp_children sv)) = (lo, hi)"
  shows "\<forall>j < length (sp_children sv). sp_children sv' ! j =
      (if lo \<le> j \<and> j < hi then renewed (env (sp_spawns sv + (j - lo))) (sp_children sv ! j) else sp_children sv ! j)"
    "sp_spawns sv' = sp_spawns sv + (hi - lo)"
proof -
  note one = spawn_child_ok [of env sv idx, OF env i]
  note all = do_group_ok [where env = env and sv = sv and sv' = sv', OF env _ a(2)]
  have single: "sp_children sv' ! j = (if lo \<le> j \<and> j < hi then renewed (env (sp_spawns sv + (j - lo))) (sp_children sv ! j) else sp_children sv ! j)"
    if "sv' = snd (spawn_child env idx sv)" "lo = idx" "hi = Suc idx" for j
  proof (cases "j = idx")
    case False
    then have "\<not> (lo \<le> j \<and> j < hi)" using that by auto
    moreover have "sp_children sv' ! j = sp_children sv ! j" using False one(2) that by simp
    ultimately show ?thesis by (simp only: if_False)
  qed (use one(2) that i in simp)
  have "(\<forall>j < length (sp_children sv). sp_children sv' ! j =
      (if lo \<le> j \<and> j < hi then renewed (env (sp_spawns sv + (j - lo))) (sp_children sv ! j) else sp_children sv ! j)) \<and>
    sp_spawns sv' = sp_spawns sv + (hi - lo)"
  proof (cases "so_strategy (sp_opts sv)")
    case OneForAll
    with a(1) have g: "do_group env calloc_ok start rs 0 [0..<length (sp_children sv)] sv = Some sv'"
      by (simp add: apply_strategy_def do_one_for_all_def)
    have "lo = 0" "hi = length (sp_children sv)" using s OneForAll by (simp_all add: scope_def)
    with all [OF g] show ?thesis by simp
  next
    case RestForOne
    with a(1) have g: "do_group env calloc_ok start rs idx (rev [Suc idx..<length (sp_children sv)]) sv = Some sv'"
      by (simp add: apply_strategy_def do_rest_for_one_def)
    have "lo = idx" "hi = length (sp_children sv)" using s RestForOne by (simp_all add: scope_def)
    with all [OF g] show ?thesis by simp
  next
    case OneForOne
    then have "sv' = snd (spawn_child env idx sv)" "lo = idx" "hi = Suc idx"
      using a(1) s by (simp_all add: apply_strategy_def scope_def)
    with single one(3) show ?thesis by simp
  next
    case SimpleOfo
    then have "sv' = snd (spawn_child env idx sv)" "lo = idx" "hi = Suc idx"
      using a(1) s by (simp_all add: apply_strategy_def scope_def)
    with single one(3) show ?thesis by simp
  qed (use a(3) in simp)
  then show "\<forall>j < length (sp_children sv). sp_children sv' ! j =
      (if lo \<le> j \<and> j < hi then renewed (env (sp_spawns sv + (j - lo))) (sp_children sv ! j) else sp_children sv ! j)"
    "sp_spawns sv' = sp_spawns sv + (hi - lo)" by simp_all
qed

text \<open>A DOWN that leads to a restart, taken apart.\<close>

lemma handle_down_restart:
  assumes "find_child_by_pid pid sv = Some idx" "should_restart (sp_children sv ! idx) reason"
    and "handle_down env pid reason False now calloc_ok start rs sv = Some (True, sv')"
  obtains s2 where "apply_strategy env calloc_ok start rs idx s2 = Some sv'" "sp_opts s2 = sp_opts sv"
    "sp_spawns s2 = sp_spawns sv" "sp_stop s2 = sp_stop sv" "length (sp_children s2) = length (sp_children sv)"
    "\<And>j. j < length (sp_children sv) \<Longrightarrow> sp_children s2 ! j =
       (if j = idx then (sp_children sv ! j)\<lparr>ch_alive := False\<rparr> else sp_children sv ! j)"
proof -
  have i: "idx < length (sp_children sv)" using find_child_Some [OF assms(1)] by simp
  let ?s1 = "child_alive idx False sv"
  note c = child_alive_children [OF i, of False]
  have sr: "should_restart (sp_children ?s1 ! idx) reason" using assms(2) i c by (simp add: should_restart_def)
  from assms(1,3) sr obtain s2 where r: "record_restart now ?s1 = Some s2" "apply_strategy env calloc_ok start rs idx s2 = Some sv'"
    by (auto simp: handle_down_def Let_def split: option.splits if_splits)
  from record_restart_frame [OF r(1)] c r(2) i show ?thesis by (intro that [of s2]) (auto simp: nth_list_update_If)
qed


lemma wait_gone_round:
  "wait_children_gone sv lo old start rs = Some True \<Longrightarrow>
    \<exists>r \<in> set rs. \<not> fst r \<and> pending_old sv (fst (snd r)) lo old = []"
  by (induction sv lo old start rs rule: wait_children_gone.induct) (auto split: if_splits)

lemma do_group_waits:
  assumes "do_group env calloc_ok start rs lo ks sv = Some sv'" "sp_spawns sv' \<noteq> sp_spawns sv"
    and "\<forall>k \<in> set ks. k < length (sp_children sv)"
  shows "\<exists>r \<in> set rs. \<forall>j. lo \<le> j \<longrightarrow> j < length (sp_children sv) \<longrightarrow> ch_pid (sp_children sv ! j) \<noteq> 0 \<longrightarrow>
    \<not> fst (snd r) (child_loop sv (sp_children sv ! j)) (ch_pid (sp_children sv ! j))"
proof -
  let ?s2 = "group_kill lo ks sv" and ?n = "length (sp_children sv)"
  have n2: "length (sp_children ?s2) = ?n" using evolves_group_kill [OF assms(3), of lo] by (simp add: evolves_def)
  have "wait_children_gone ?s2 lo (group_old lo sv) start rs = Some True"
    using assms(1,2) group_kill_children(1) [of lo ks sv]
    by (auto simp: do_group_def Let_def split: if_splits option.splits)
  from wait_gone_round [OF this] obtain r where r: "r \<in> set rs" "pending_old ?s2 (fst (snd r)) lo (group_old lo sv) = []"
    by blast
  have "\<not> fst (snd r) (child_loop sv (sp_children sv ! j)) (ch_pid (sp_children sv ! j))"
    if j: "lo \<le> j" "j < ?n" "ch_pid (sp_children sv ! j) \<noteq> 0" for j
  proof -
    have "child_loop ?s2 (sp_children ?s2 ! j) = child_loop sv (sp_children sv ! j)"
      using child_loop_cong [OF group_kill_children(3) [of lo ks sv]] group_kill_children(4) [OF j(2), of lo ks] j(1) by simp
    moreover have "group_old lo sv ! j = ch_pid (sp_children sv ! j)" using j by (simp add: group_old_def)
    moreover have "\<not> (group_old lo sv ! j \<noteq> 0 \<and> fst (snd r) (child_loop ?s2 (sp_children ?s2 ! j)) (group_old lo sv ! j))"
      using r(2) j n2 unfolding pending_old_def filter_empty_conv by simp
    ultimately show ?thesis using j(3) by simp
  qed
  with r(1) show ?thesis by blast
qed

text \<open>
  C4. No overlap of generations: under the group strategies a process is spawned only after
  the supervisor has seen, in one look at the process table, that every pid of the children
  being replaced (the dead one included) has left it. If that never happens in time, or the
  wait is abandoned, nothing is spawned.
\<close>

theorem group_restart_waits:
  assumes "so_strategy (sp_opts sv) = OneForAll \<or> so_strategy (sp_opts sv) = RestForOne"
    and "find_child_by_pid pid sv = Some idx" "should_restart (sp_children sv ! idx) reason"
    and "handle_down env pid reason False now calloc_ok start rs sv = Some (True, sv')" "sp_spawns sv' \<noteq> sp_spawns sv"
  shows "\<exists>r \<in> set rs. \<forall>j. fst (scope (so_strategy (sp_opts sv)) idx (length (sp_children sv))) \<le> j \<longrightarrow>
    j < length (sp_children sv) \<longrightarrow> ch_pid (sp_children sv ! j) \<noteq> 0 \<longrightarrow>
    \<not> fst (snd r) (child_loop sv (sp_children sv ! j)) (ch_pid (sp_children sv ! j))"
proof -
  obtain s2 where s2: "apply_strategy env calloc_ok start rs idx s2 = Some sv'" "sp_opts s2 = sp_opts sv"
    "sp_spawns s2 = sp_spawns sv" "length (sp_children s2) = length (sp_children sv)"
    "\<And>j. j < length (sp_children sv) \<Longrightarrow> sp_children s2 ! j =
       (if j = idx then (sp_children sv ! j)\<lparr>ch_alive := False\<rparr> else sp_children sv ! j)"
    using handle_down_restart [OF assms(2-4)] by blast
  have same: "ch_pid (sp_children s2 ! j) = ch_pid (sp_children sv ! j)"
    "child_loop s2 (sp_children s2 ! j) = child_loop sv (sp_children sv ! j)" if "j < length (sp_children sv)" for j
    using s2(5) [OF that] child_loop_cong [OF s2(2)] by simp_all
  obtain ks where ks: "do_group env calloc_ok start rs (fst (scope (so_strategy (sp_opts sv)) idx (length (sp_children sv)))) ks s2 = Some sv'"
    "\<forall>k \<in> set ks. k < length (sp_children s2)"
  proof (cases "so_strategy (sp_opts sv) = OneForAll")
    case True
    then show ?thesis using s2(1,2) that [of "[0..<length (sp_children s2)]"]
      by (simp add: apply_strategy_def scope_def do_one_for_all_def)
  next
    case False
    then have r: "so_strategy (sp_opts sv) = RestForOne" using assms(1) by simp
    show ?thesis using r s2(1,2) that [of "rev [Suc idx..<length (sp_children s2)]"]
      by (simp add: apply_strategy_def scope_def do_rest_for_one_def)
  qed
  from do_group_waits [OF ks(1) _ ks(2)] assms(5) s2(3) obtain r where "r \<in> set rs"
    "\<forall>j. fst (scope (so_strategy (sp_opts sv)) idx (length (sp_children sv))) \<le> j \<longrightarrow> j < length (sp_children s2) \<longrightarrow>
      ch_pid (sp_children s2 ! j) \<noteq> 0 \<longrightarrow> \<not> fst (snd r) (child_loop s2 (sp_children s2 ! j)) (ch_pid (sp_children s2 ! j))" by auto
  then show ?thesis using same s2(4) by (intro bexI [of _ r]) auto
qed

section \<open>Concrete supervisors\<close>

definition two_specs :: "restart_policy \<Rightarrow> child_spec list" where
  "two_specs p = [\<lparr>cs_size = 56, cs_fn = 1, cs_policy = p, cs_loop = 0\<rparr>, \<lparr>cs_size = 56, cs_fn = 2, cs_policy = Permanent, cs_loop = 0\<rparr>]"

definition good_env :: sup_env where
  "good_env k = (XTC_OK, k + 1, k + 1)"

definition group_opts :: "restart_strategy \<Rightarrow> sup_opts" where
  "group_opts st = XTC_SUP_OPTS_DEFAULT\<lparr>so_strategy := st\<rparr>"

definition two_up :: "restart_strategy \<Rightarrow> restart_policy \<Rightarrow> supervisor" where
  "two_up st p = snd (spawn_range good_env [0, 1] (sup_fresh (group_opts st) (two_specs p)))"

definition gone_round :: sup_round where
  "gone_round = (False, (\<lambda>_ _. False), 10)"

lemma two_up_start:
  "xtc_sup_start True XTC_OK (\<lambda>_. XTC_OK) XTC_OK XTC_OK XTC_OK XTC_OK XTC_OK (Some (group_opts st)) (two_specs p) =
    (if st = OtherStrategy then (XTC_E_NOSYS, None) else (XTC_OK, Some (sup_fresh (group_opts st) (two_specs p))))"
  by (simp add: xtc_sup_start_def two_specs_def group_opts_def sup_fresh_def XTC_SUP_OPTS_DEFAULT_def)

definition one_down :: "supervisor \<Rightarrow> (bool \<times> supervisor) option" where
  "one_down sv = handle_down good_env 1 9 False 7 True 7 [gone_round] sv"

lemma one_down_facts:
  "map_option fst (one_down (two_up OneForAll Permanent)) = Some True"
  "length (sp_history (snd (the (one_down (two_up OneForAll Permanent))))) = 1"
  "\<not> sp_stop (snd (the (one_down (two_up OneForAll Permanent))))" "\<not> sp_stop (two_up OneForAll Permanent)"
  "fst (spawn_range good_env [0..<length (sp_children (sup_fresh (group_opts OneForAll) (two_specs Permanent)))]
     (sup_fresh (group_opts OneForAll) (two_specs Permanent)))"
  "length (sp_children (sup_fresh (group_opts OneForAll) (two_specs Permanent))) = 2"
  "so_max_restarts (sp_opts (sup_fresh (group_opts OneForAll) (two_specs Permanent))) = 3"
  "find_child_by_pid 1 (two_up OneForAll Permanent) = Some 0"
  "should_restart (sp_children (two_up OneForAll Permanent) ! 0) 9"
  "so_strategy (sp_opts (two_up OneForAll Permanent)) = OneForAll"
  "sp_spawns (two_up OneForAll Permanent) = 2" "sp_spawns (snd (the (one_down (two_up OneForAll Permanent)))) = 4"
  "length (sp_children (two_up OneForAll Permanent)) = 2"
  by code_simp+

lemma loop_one:
  "\<not> sp_stop sv \<Longrightarrow> handle_down env pid reason False now calloc_ok start rs sv = Some (True, sv') \<Longrightarrow> \<not> sp_stop sv' \<Longrightarrow>
    sup_loop env [SDown pid reason False now calloc_ok start rs] sv = Some (True, sv')"
  by simp

lemma one_down_ran:
  "one_down (two_up OneForAll Permanent) = Some (True, snd (the (one_down (two_up OneForAll Permanent))))"
  using one_down_facts(1) by (cases "one_down (two_up OneForAll Permanent)") auto

lemma one_down_handled:
  "handle_down good_env 1 9 False 7 True 7 [gone_round] (two_up OneForAll Permanent) =
    Some (True, snd (the (one_down (two_up OneForAll Permanent))))"
  using one_down_ran unfolding one_down_def .



theorem group_restart_waits_witness:
  "sp_spawns (snd (the (one_down (two_up OneForAll Permanent)))) = 4 \<and> \<not> fst (snd gone_round) OwnLoop 1"
proof -
  have "so_strategy (sp_opts (two_up OneForAll Permanent)) = OneForAll \<or> so_strategy (sp_opts (two_up OneForAll Permanent)) = RestForOne"
    by (simp add: one_down_facts(10))
  from group_restart_waits [OF this one_down_facts(8,9) one_down_handled] one_down_facts(11,12)
  have "\<exists>r \<in> set [gone_round]. \<forall>j. 0 \<le> j \<longrightarrow> j < length (sp_children (two_up OneForAll Permanent)) \<longrightarrow>
      ch_pid (sp_children (two_up OneForAll Permanent) ! j) \<noteq> 0 \<longrightarrow>
      \<not> fst (snd r) (child_loop (two_up OneForAll Permanent) (sp_children (two_up OneForAll Permanent) ! j)) (ch_pid (sp_children (two_up OneForAll Permanent) ! j))"
    by (simp add: scope_def one_down_facts(10))
  with one_down_facts(12) show ?thesis by (simp add: gone_round_def)
qed

theorem sup_exit_kills_all_witness:
  "sp_n_alive (the (sup_exited True 0 [gone_round] (two_up OneForAll Permanent))) = 0"
proof -
  have "sp_n_alive (two_up OneForAll Permanent) = n_live (sp_children (two_up OneForAll Permanent))"
    "\<not> Option.is_none (sup_exited True 0 [gone_round] (two_up OneForAll Permanent))" by code_simp+
  then obtain sv' where "sup_count (two_up OneForAll Permanent)" "sup_exited True 0 [gone_round] (two_up OneForAll Permanent) = Some sv'"
    by (auto simp: sup_count_def Option.is_none_def)
  from sup_exit_kills_all [OF this] this(2) show ?thesis by simp
qed

section \<open>Where the code falls short\<close>

text \<open>
  A group restart respawns every child of its scope, also a temporary one that had already
  ended and was to stay ended.
\<close>

lemma temporary_respawned:
  "map (\<lambda>c. (cs_policy (ch_spec c), ch_alive c)) (sp_children (snd (the (sup_loop good_env
      [SDown 1 0 False 7 True 7 [gone_round], SDown 2 9 False 8 True 8 [gone_round]] (two_up OneForAll Temporary))))) =
    [(Temporary, True), (Permanent, True)]"
  by code_simp

text \<open>
  One-for-one ignores a failed spawn: the permanent child stays dead, nothing retries, and
  the supervisor runs on.
\<close>

lemma failed_respawn_forgotten:
  "map_option (\<lambda>(go, sv). (go, sp_stop sv, map ch_alive (sp_children sv)))
     (handle_down (\<lambda>k. (XTC_E_NOMEM, 0, 0)) 1 9 False 7 True 7 [] (two_up OneForOne Permanent)) =
    Some (True, False, [False, True])"
  by code_simp

text \<open>
  A \<open>max_restarts\<close> of minus four is accepted and gives a ring without slots; the first
  restart then writes before it.
\<close>

lemma negative_ring:
  "record_restart now (sup_fresh (XTC_SUP_OPTS_DEFAULT\<lparr>so_max_restarts := - 4\<rparr>) specs) = None"
  by (simp add: record_restart_def sup_fresh_def)

end
