(* ===== verification/Timer_Heap.thy ===== *)
theory Timer_Heap
  imports Xtc_Prelude
begin

text \<open>
  The binary min-heap of \<open>src/src/evt/timer.c\<close>: the slot array and the two sifts that move a
  hole through it. A slot is a deadline and the address of its timer node; the list of slots
  is the first \<open>n_timers\<close> entries of the array, the only ones the code reads. The sifts also
  keep each node's \<open>heap_idx\<close>, here in the node map \<open>nd\<close>.
\<close>

section \<open>Nodes, slots and sifts\<close>

abbreviation (input) XTC_TIMER_FIRED :: int where "XTC_TIMER_FIRED \<equiv> 1"
abbreviation (input) XTC_TIMER_CANCELLED :: int where "XTC_TIMER_CANCELLED \<equiv> 2"

record xtc_timer =
  tm_deadline_ns :: int
  tm_cb :: nat
  tm_user :: nat
  tm_waiter :: "nat option"
  tm_heap_idx :: int
  tm_cancelled :: bool
  tm_fired :: int
  tm_sim_late :: bool
  tm_from_slab :: bool
  tm_refs :: int

type_synonym timer_slot = "int \<times> nat"
type_synonym timer_nodes = "nat \<Rightarrow> xtc_timer"

definition set_idx :: "timer_nodes \<Rightarrow> nat \<Rightarrow> int \<Rightarrow> timer_nodes" where
  "set_idx nd t i = nd(t := (nd t)\<lparr>tm_heap_idx := i\<rparr>)"

definition parent :: "nat \<Rightarrow> nat" where
  "parent i = (i - 1) div 2"

lemma parent_less [simp]: "0 < i \<Longrightarrow> parent i < i"
  by (simp add: parent_def)

function sift_up ::
  "timer_slot list \<Rightarrow> timer_nodes \<Rightarrow> nat \<Rightarrow> timer_slot \<Rightarrow> timer_slot list \<times> timer_nodes" where
  "sift_up h nd i x =
     (if 0 < i \<and> \<not> fst (h ! parent i) \<le> fst x
      then sift_up (h[i := h ! parent i]) (set_idx nd (snd (h ! parent i)) (int i)) (parent i) x
      else (h[i := x], set_idx nd (snd x) (int i)))"
  by pat_completeness auto
termination
  by (relation "measure (\<lambda>(h, nd, i, x). i)") auto

declare sift_up.simps [simp del]

definition small_child :: "timer_slot list \<Rightarrow> nat \<Rightarrow> nat" where
  "small_child h i =
     (if 2 * i + 2 < length h \<and> fst (h ! (2 * i + 2)) < fst (h ! (2 * i + 1))
      then 2 * i + 2 else 2 * i + 1)"

function sift_down ::
  "timer_slot list \<Rightarrow> timer_nodes \<Rightarrow> nat \<Rightarrow> timer_slot \<Rightarrow> timer_slot list \<times> timer_nodes" where
  "sift_down h nd i x =
     (let c = small_child h i in
      if 2 * i + 1 < length h \<and> \<not> fst (h ! c) \<ge> fst x
      then sift_down (h[i := h ! c]) (set_idx nd (snd (h ! c)) (int i)) c x
      else (h[i := x], set_idx nd (snd x) (int i)))"
  by pat_completeness auto
termination
  by (relation "measure (\<lambda>(h, nd, i, x). length h - i)") (auto simp: small_child_def Let_def)

declare sift_down.simps [simp del]

section \<open>Order\<close>

definition key :: "timer_slot list \<Rightarrow> nat \<Rightarrow> int" where
  "key h j = fst (h ! j)"

text \<open>\<open>heap_from k h\<close>: every slot whose parent is at \<open>k\<close> or later is not before its parent.\<close>

definition heap_from :: "nat \<Rightarrow> timer_slot list \<Rightarrow> bool" where
  "heap_from k h = (\<forall>j. 0 < j \<longrightarrow> j < length h \<longrightarrow> k \<le> parent j \<longrightarrow> key h (parent j) \<le> key h j)"

text \<open>The same with a hole at \<open>i\<close>, whose old contents count for nothing.\<close>

definition hole_at :: "nat \<Rightarrow> timer_slot list \<Rightarrow> nat \<Rightarrow> bool" where
  "hole_at k h i = (i < length h \<and>
     (\<forall>j. 0 < j \<longrightarrow> j < length h \<longrightarrow> k \<le> parent j \<longrightarrow> j \<noteq> i \<longrightarrow> parent j \<noteq> i \<longrightarrow>
        key h (parent j) \<le> key h j) \<and>
     (\<forall>j. 0 < i \<longrightarrow> k \<le> parent i \<longrightarrow> 0 < j \<longrightarrow> j < length h \<longrightarrow> parent j = i \<longrightarrow>
        key h (parent i) \<le> key h j))"

lemma key_update: "i < length h \<Longrightarrow> key (h[i := x]) j = (if j = i then fst x else key h j)"
  by (simp add: key_def)

lemma parent_neq [simp]: "0 < i \<Longrightarrow> parent i \<noteq> i"
  using parent_less [of i] by linarith

lemma parent_children: "0 < j \<Longrightarrow> parent j = i \<longleftrightarrow> j = 2 * i + 1 \<or> j = 2 * i + 2"
  by (auto simp: parent_def)

lemma hole_fill:
  assumes "hole_at k h i" "0 < i \<Longrightarrow> k \<le> parent i \<Longrightarrow> key h (parent i) \<le> fst x"
    and "\<And>j. 0 < j \<Longrightarrow> j < length h \<Longrightarrow> parent j = i \<Longrightarrow> fst x \<le> key h j"
  shows "heap_from k (h[i := x])"
proof -
  from assms(1) have i: "i < length h" by (simp add: hole_at_def)
  show ?thesis unfolding heap_from_def
  proof (intro allI impI)
    fix j
    assume j: "0 < j" "j < length (h[i := x])" "k \<le> parent j"
    consider "j = i" | "parent j = i" | "j \<noteq> i" "parent j \<noteq> i" by blast
    then show "key (h[i := x]) (parent j) \<le> key (h[i := x]) j"
    proof cases
      case 1
      with j assms(2) i show ?thesis by (simp add: key_update)
    next
      case 2
      with j assms(3) [of j] i show ?thesis by (auto simp: key_update)
    next
      case 3
      with j assms(1) i show ?thesis by (simp add: key_update hole_at_def)
    qed
  qed
qed

text \<open>Moving the hole up: the parent moves down into it.\<close>

lemma hole_up:
  assumes h: "hole_at 0 h i" and i: "0 < i"
    and x: "fst x < key h (parent i)"
    and ch: "\<And>j. 0 < j \<Longrightarrow> j < length h \<Longrightarrow> parent j = i \<Longrightarrow> fst x \<le> key h j"
  defines "h' \<equiv> h[i := h ! parent i]"
  shows "hole_at 0 h' (parent i)"
    and "\<And>j. 0 < j \<Longrightarrow> j < length h' \<Longrightarrow> parent j = parent i \<Longrightarrow> fst x \<le> key h' j"
proof -
  let ?p = "parent i"
  from h have len: "i < length h" by (simp add: hole_at_def)
  have pi: "?p < i" using i by simp
  have len': "length h' = length h" by (simp add: h'_def)
  have k: "key h' j = (if j = i then key h ?p else key h j)" for j
    using len by (simp add: h'_def key_update) (simp add: key_def)
  have A: "key h (parent j) \<le> key h j" if "0 < j" "j < length h" "j \<noteq> i" "parent j \<noteq> i" for j
    using h that by (simp add: hole_at_def)
  have C: "key h ?p \<le> key h j" if "0 < j" "j < length h" "parent j = i" for j
    using h that i by (simp add: hole_at_def)
  show "hole_at 0 h' ?p" unfolding hole_at_def
  proof (intro conjI allI impI)
    show "?p < length h'" using len pi by (simp add: len')
  next
    fix j
    assume "0 < j" "j < length h'" "j \<noteq> ?p" "parent j \<noteq> ?p"
    then show "key h' (parent j) \<le> key h' j"
      using A [of j] C [of j] by (cases "parent j = i") (auto simp: k len')
  next
    fix j
    assume j: "0 < ?p" "0 < j" "j < length h'" "parent j = ?p"
    have pp: "parent ?p \<noteq> i" using j pi parent_less [of ?p] by linarith
    with j have "key h (parent ?p) \<le> key h ?p" using A [of ?p] len pi by simp
    moreover have "j \<noteq> i \<Longrightarrow> key h ?p \<le> key h j" using A [of j] j pi by (simp add: len')
    ultimately show "key h' (parent ?p) \<le> key h' j" using pp by (auto simp: k)
  qed
  show "fst x \<le> key h' j" if "0 < j" "j < length h'" "parent j = ?p" for j
    using that x A [of j] pi by (cases "j = i") (auto simp: k len')
qed

lemma sift_up_heap:
  assumes "hole_at 0 h i"
    and "\<And>j. 0 < j \<Longrightarrow> j < length h \<Longrightarrow> parent j = i \<Longrightarrow> fst x \<le> key h j"
  shows "heap_from 0 (fst (sift_up h nd i x))"
  using assms
proof (induction h nd i x rule: sift_up.induct)
  case (1 h nd i x)
  show ?case
  proof (cases "0 < i \<and> \<not> fst (h ! parent i) \<le> fst x")
    case True
    then have i: "0 < i" and "fst x < key h (parent i)" by (simp_all add: key_def)
    note up = hole_up [OF "1.prems"(1) this "1.prems"(2)]
    have "heap_from 0 (fst (sift_up (h[i := h ! parent i])
        (set_idx nd (snd (h ! parent i)) (int i)) (parent i) x))"
      using True up by (rule "1.IH")
    with True show ?thesis by (subst sift_up.simps) simp
  next
    case False
    then have "key h (parent i) \<le> fst x" if "0 < i" using that by (simp add: key_def)
    with "1.prems" have "heap_from 0 (h[i := x])" by (intro hole_fill)
    moreover have "sift_up h nd i x = (h[i := x], set_idx nd (snd x) (int i))"
      using False by (subst sift_up.simps) auto
    ultimately show ?thesis by simp
  qed
qed

text \<open>Moving the hole down: the smaller child moves up into it.\<close>

lemma small_child_min:
  assumes "0 < j" "j < length h" "parent j = i"
  shows "key h (small_child h i) \<le> key h j"
  using assms parent_children [of j i] by (auto simp: small_child_def key_def)

lemma small_child_props:
  assumes "2 * i + 1 < length h"
  shows "small_child h i < length h" "i < small_child h i" "parent (small_child h i) = i"
    "0 < small_child h i"
  using assms by (auto simp: small_child_def parent_def)

lemma hole_down:
  assumes h: "hole_at k h i" and k: "k \<le> i" and c: "2 * i + 1 < length h"
  defines "h' \<equiv> h[i := h ! small_child h i]"
  shows "hole_at k h' (small_child h i)"
    "key h' (parent (small_child h i)) = key h (small_child h i)"
proof -
  let ?c = "small_child h i"
  note cp = small_child_props [OF c]
  from h have len: "i < length h" by (simp add: hole_at_def)
  have len': "length h' = length h" by (simp add: h'_def)
  have key': "key h' j = (if j = i then key h ?c else key h j)" for j
    using len by (simp add: h'_def key_update) (simp add: key_def)
  then show "key h' (parent ?c) = key h ?c" using cp by simp
  have A: "key h (parent j) \<le> key h j" if "0 < j" "j < length h" "k \<le> parent j" "j \<noteq> i" "parent j \<noteq> i" for j
    using h that by (simp add: hole_at_def)
  have C: "key h (parent i) \<le> key h j" if "0 < i" "k \<le> parent i" "0 < j" "j < length h" "parent j = i" for j
    using h that by (simp add: hole_at_def)
  show "hole_at k h' ?c" unfolding hole_at_def
  proof (intro conjI allI impI)
    show "?c < length h'" using cp by (simp add: len')
  next
    fix j
    assume j: "0 < j" "j < length h'" "k \<le> parent j" "j \<noteq> ?c" "parent j \<noteq> ?c"
    consider "j = i" | "parent j = i" | "j \<noteq> i" "parent j \<noteq> i" by blast
    then show "key h' (parent j) \<le> key h' j"
    proof cases
      case 1
      with j C [of ?c] cp show ?thesis by (simp add: key' len')
    next
      case 2
      with j small_child_min [of j h i] show ?thesis by (auto simp: key' len')
    next
      case 3
      with j A [of j] show ?thesis by (simp add: key' len')
    qed
  next
    fix j
    assume j: "0 < ?c" "k \<le> parent ?c" "0 < j" "j < length h'" "parent j = ?c"
    then have "j \<noteq> i" using parent_less [of j] cp by linarith
    moreover have "key h (parent j) \<le> key h j"
      using A [of j] j cp k \<open>j \<noteq> i\<close> by (simp add: len')
    ultimately show "key h' (parent ?c) \<le> key h' j" using cp j by (simp add: key')
  qed
qed

lemma sift_down_heap:
  assumes "hole_at k h i" "k \<le> i" "0 < i \<Longrightarrow> k \<le> parent i \<Longrightarrow> key h (parent i) \<le> fst x"
  shows "heap_from k (fst (sift_down h nd i x))"
  using assms
proof (induction h nd i x rule: sift_down.induct)
  case (1 h nd i x)
  let ?c = "small_child h i"
  show ?case
  proof (cases "2 * i + 1 < length h \<and> \<not> fst (h ! ?c) \<ge> fst x")
    case True
    then have c: "2 * i + 1 < length h" by simp
    note cp = small_child_props [OF c] hole_down [OF "1.prems"(1,2) c]
    have "key (h[i := h ! ?c]) (parent ?c) \<le> fst x" using True cp by (simp add: key_def)
    with "1.IH" [OF refl True] cp "1.prems"(2) True show ?thesis
      by (subst sift_down.simps) (simp add: Let_def)
  next
    case False
    have "fst x \<le> key h j" if "0 < j" "j < length h" "parent j = i" for j
    proof -
      have "2 * i + 1 < length h" using that parent_children [of j i] by auto
      with False small_child_min [OF that] show ?thesis by (auto simp: key_def)
    qed
    with hole_fill [OF "1.prems"(1,3)] False show ?thesis
      by (subst sift_down.simps) (auto simp: Let_def)
  qed
qed

section \<open>Contents and indices\<close>

text \<open>
  \<open>hole_ok h nd i x\<close>: with \<open>x\<close> put into the hole the slots hold distinct nodes, and every slot
  but the hole is where its node's \<open>heap_idx\<close> says. \<open>idx_frame S nd nd'\<close>: only \<open>heap_idx\<close>
  fields changed, and only of nodes in \<open>S\<close>.
\<close>

definition idx_at :: "timer_slot list \<Rightarrow> timer_nodes \<Rightarrow> nat \<Rightarrow> bool" where
  "idx_at h nd j = (tm_heap_idx (nd (snd (h ! j))) = int j)"

definition hole_ok :: "timer_slot list \<Rightarrow> timer_nodes \<Rightarrow> nat \<Rightarrow> timer_slot \<Rightarrow> bool" where
  "hole_ok h nd i x = (i < length h \<and> distinct (map snd (h[i := x])) \<and>
     (\<forall>j < length h. j \<noteq> i \<longrightarrow> idx_at h nd j))"

definition idx_frame :: "nat set \<Rightarrow> timer_nodes \<Rightarrow> timer_nodes \<Rightarrow> bool" where
  "idx_frame S nd nd' = (\<forall>t. (nd' t)\<lparr>tm_heap_idx := 0\<rparr> = (nd t)\<lparr>tm_heap_idx := 0\<rparr> \<and>
     (t \<notin> S \<longrightarrow> nd' t = nd t))"

definition indexed :: "timer_slot list \<Rightarrow> timer_nodes \<Rightarrow> bool" where
  "indexed h nd = (distinct (map snd h) \<and> (\<forall>j < length h. idx_at h nd j))"

lemma idx_frame_refl: "idx_frame S nd nd"
  by (simp add: idx_frame_def)

lemma idx_frame_set: "t \<in> S \<Longrightarrow> idx_frame S nd (set_idx nd t i)"
  by (simp add: idx_frame_def set_idx_def)

lemma idx_frame_trans: "idx_frame S a b \<Longrightarrow> idx_frame S b c \<Longrightarrow> idx_frame S a c"
  by (simp add: idx_frame_def)

lemma idx_frame_fields:
  assumes "idx_frame S nd nd'"
  shows "tm_deadline_ns (nd' t) = tm_deadline_ns (nd t)" "tm_fired (nd' t) = tm_fired (nd t)"
    "tm_refs (nd' t) = tm_refs (nd t)" "tm_cancelled (nd' t) = tm_cancelled (nd t)"
    "tm_from_slab (nd' t) = tm_from_slab (nd t)" "tm_cb (nd' t) = tm_cb (nd t)"
    "tm_user (nd' t) = tm_user (nd t)" "t \<notin> S \<Longrightarrow> nd' t = nd t"
proof -
  from assms have e: "(nd' t)\<lparr>tm_heap_idx := 0\<rparr> = (nd t)\<lparr>tm_heap_idx := 0\<rparr>" by (simp add: idx_frame_def)
  show "tm_deadline_ns (nd' t) = tm_deadline_ns (nd t)" using arg_cong [OF e, of tm_deadline_ns] by simp
  show "tm_fired (nd' t) = tm_fired (nd t)" using arg_cong [OF e, of tm_fired] by simp
  show "tm_refs (nd' t) = tm_refs (nd t)" using arg_cong [OF e, of tm_refs] by simp
  show "tm_cancelled (nd' t) = tm_cancelled (nd t)" using arg_cong [OF e, of tm_cancelled] by simp
  show "tm_from_slab (nd' t) = tm_from_slab (nd t)" using arg_cong [OF e, of tm_from_slab] by simp
  show "tm_cb (nd' t) = tm_cb (nd t)" using arg_cong [OF e, of tm_cb] by simp
  show "tm_user (nd' t) = tm_user (nd t)" using arg_cong [OF e, of tm_user] by simp
  show "t \<notin> S \<Longrightarrow> nd' t = nd t" using assms by (simp add: idx_frame_def)
qed

lemma mset_move:
  assumes "i < length h" "p < length h" "i \<noteq> p"
  shows "mset ((h[i := h ! p])[p := x]) = mset (h[i := x])"
proof -
  have "(h[i := x])[i := h[i := x] ! p, p := h[i := x] ! i] = (h[i := h ! p])[p := x]"
    using assms by simp
  then show ?thesis using assms mset_swap [of i "h[i := x]" p]
    by (simp add: list_update_swap [of i p])
qed

lemma distinct_snd_mset: "mset h = mset g \<Longrightarrow> distinct (map snd h) = distinct (map snd g)"
  by (intro mset_eq_imp_distinct_iff) (simp add: mset_map)

text \<open>Moving the hole from \<open>i\<close> to \<open>p\<close>.\<close>

lemma hole_ok_move:
  assumes h: "hole_ok h nd i x" and p: "p < length h" "p \<noteq> i"
  shows "hole_ok (h[i := h ! p]) (set_idx nd (snd (h ! p)) (int i)) p x"
proof -
  from h have i: "i < length h" and d: "distinct (map snd (h[i := x]))" by (auto simp: hole_ok_def)
  have "distinct (map snd ((h[i := h ! p])[p := x]))"
    using d distinct_snd_mset [OF mset_move [OF i p(1)]] p by simp
  moreover have "idx_at (h[i := h ! p]) (set_idx nd (snd (h ! p)) (int i)) j"
    if "j < length h" "j \<noteq> p" for j
  proof (cases "j = i")
    case True
    with i show ?thesis by (simp add: idx_at_def set_idx_def)
  next
    case False
    have "snd (h ! j) \<noteq> snd (h ! p)"
      using d False that p nth_eq_iff_index_eq [OF d, of j p] by auto
    with False that h show ?thesis by (simp add: idx_at_def set_idx_def hole_ok_def)
  qed
  ultimately show ?thesis using p by (simp add: hole_ok_def)
qed

lemma hole_ok_fill: "hole_ok h nd i x \<Longrightarrow> indexed (h[i := x]) (set_idx nd (snd x) (int i))"
proof -
  assume h: "hole_ok h nd i x"
  then have i: "i < length h" and d: "distinct (map snd (h[i := x]))" by (auto simp: hole_ok_def)
  have "idx_at (h[i := x]) (set_idx nd (snd x) (int i)) j" if "j < length h" for j
  proof (cases "j = i")
    case True
    with i show ?thesis by (simp add: idx_at_def set_idx_def)
  next
    case False
    have "snd (h ! j) \<noteq> snd x"
      using False that i nth_eq_iff_index_eq [OF d, of j i] by auto
    with False that h show ?thesis by (simp add: idx_at_def set_idx_def hole_ok_def)
  qed
  with d show ?thesis by (simp add: indexed_def)
qed

definition sift_result ::
  "timer_slot list \<Rightarrow> timer_nodes \<Rightarrow> timer_slot list \<times> timer_nodes \<Rightarrow> bool" where
  "sift_result h nd r = (mset (fst r) = mset h \<and> indexed (fst r) (snd r) \<and>
     idx_frame (snd ` set h) nd (snd r))"

lemma sift_result_step:
  assumes h: "hole_ok h nd i x" and p: "p < length h" "p \<noteq> i"
    and r: "sift_result ((h[i := h ! p])[p := x]) (set_idx nd (snd (h ! p)) (int i)) r"
  shows "sift_result (h[i := x]) nd r"
proof -
  from h have i: "i < length h" by (simp add: hole_ok_def)
  have m: "mset ((h[i := h ! p])[p := x]) = mset (h[i := x])"
    using mset_move [OF i p(1)] p(2) by simp
  then have s: "set ((h[i := h ! p])[p := x]) = set (h[i := x])" by (rule mset_eq_setD)
  have "h ! p \<in> set (h[i := x])" using p i by (metis length_list_update nth_list_update_neq nth_mem)
  then have "idx_frame (snd ` set (h[i := x])) nd (set_idx nd (snd (h ! p)) (int i))"
    by (intro idx_frame_set) auto
  moreover from r s have "idx_frame (snd ` set (h[i := x])) (set_idx nd (snd (h ! p)) (int i)) (snd r)"
    by (simp add: sift_result_def)
  ultimately have "idx_frame (snd ` set (h[i := x])) nd (snd r)" by (rule idx_frame_trans)
  moreover from r m have "mset (fst r) = mset (h[i := x])" "indexed (fst r) (snd r)"
    by (simp_all add: sift_result_def)
  ultimately show ?thesis by (simp add: sift_result_def)
qed

lemma sift_result_fill:
  assumes "hole_ok h nd i x"
  shows "sift_result (h[i := x]) nd (h[i := x], set_idx nd (snd x) (int i))"
proof -
  from assms have "i < length h" by (simp add: hole_ok_def)
  then have "snd x \<in> snd ` set (h[i := x])" by (simp add: set_update_memI)
  with hole_ok_fill [OF assms] show ?thesis by (simp add: sift_result_def idx_frame_set)
qed

lemma sift_up_result: "hole_ok h nd i x \<Longrightarrow> sift_result (h[i := x]) nd (sift_up h nd i x)"
proof (induction h nd i x rule: sift_up.induct)
  case (1 h nd i x)
  show ?case
  proof (cases "0 < i \<and> \<not> fst (h ! parent i) \<le> fst x")
    case True
    then have "parent i < i" "i < length h" using "1.prems" by (simp_all add: hole_ok_def)
    then have p: "parent i < length h" "parent i \<noteq> i" by linarith+
    have "sift_up h nd i x =
        sift_up (h[i := h ! parent i]) (set_idx nd (snd (h ! parent i)) (int i)) (parent i) x"
      using True by (subst sift_up.simps) simp
    with sift_result_step [OF "1.prems" p] "1.IH" [OF True hole_ok_move [OF "1.prems" p]]
    show ?thesis by simp
  next
    case False
    then have "sift_up h nd i x = (h[i := x], set_idx nd (snd x) (int i))"
      by (subst sift_up.simps) auto
    with sift_result_fill [OF "1.prems"] show ?thesis by simp
  qed
qed

lemma sift_down_result: "hole_ok h nd i x \<Longrightarrow> sift_result (h[i := x]) nd (sift_down h nd i x)"
proof (induction h nd i x rule: sift_down.induct)
  case (1 h nd i x)
  let ?c = "small_child h i"
  show ?case
  proof (cases "2 * i + 1 < length h \<and> \<not> fst (h ! ?c) \<ge> fst x")
    case True
    then have p: "?c < length h" "?c \<noteq> i" using small_child_props [of i h] by auto
    have "sift_down h nd i x = sift_down (h[i := h ! ?c]) (set_idx nd (snd (h ! ?c)) (int i)) ?c x"
      using True by (subst sift_down.simps) (simp add: Let_def)
    with sift_result_step [OF "1.prems" p] "1.IH" [OF refl True hole_ok_move [OF "1.prems" p]]
    show ?thesis by simp
  next
    case False
    then have "sift_down h nd i x = (h[i := x], set_idx nd (snd x) (int i))"
      by (subst sift_down.simps) (auto simp: Let_def)
    with sift_result_fill [OF "1.prems"] show ?thesis by simp
  qed
qed

section \<open>Heap operations on slots\<close>

type_synonym timer_heap = "timer_slot list \<times> timer_nodes"

definition heap_push_slots :: "timer_slot \<Rightarrow> timer_heap \<Rightarrow> timer_heap" where
  "heap_push_slots x q = sift_up (fst q @ [x]) (snd q) (length (fst q)) x"

text \<open>Removing the root: its node leaves the heap, the last slot is sifted from the top.\<close>

definition heap_pop_slots :: "timer_heap \<Rightarrow> timer_heap" where
  "heap_pop_slots q = (case q of (h, nd) \<Rightarrow>
     let nd1 = set_idx nd (snd (h ! 0)) (- 1); h1 = butlast h in
     if h1 \<noteq> [] then sift_down h1 nd1 0 (last h) else (h1, nd1))"

definition heap_remove_slots :: "nat \<Rightarrow> timer_heap \<Rightarrow> timer_heap" where
  "heap_remove_slots i q = (case q of (h, nd) \<Rightarrow>
     let nd1 = set_idx nd (snd (h ! i)) (- 1); h1 = butlast h; n = length h - 1 in
     if i = n then (h1, nd1)
     else if 0 < i \<and> fst (h ! n) < fst (h ! parent i) then sift_up h1 nd1 i (h ! n)
     else sift_down h1 nd1 i (h ! n))"

text \<open>The loop \<open>for (i = n / 2 - 1; i >= 0; i--) __sift_down(h, n, i, h[i])\<close>.\<close>

fun heap_rebuild :: "nat \<Rightarrow> timer_heap \<Rightarrow> timer_heap" where
  "heap_rebuild 0 q = q"
| "heap_rebuild (Suc i) q = heap_rebuild i (sift_down (fst q) (snd q) i (fst q ! i))"

definition heap_inv :: "timer_heap \<Rightarrow> bool" where
  "heap_inv q = (heap_from 0 (fst q) \<and> indexed (fst q) (snd q))"

lemma indexed_hole: "indexed h nd \<Longrightarrow> i < length h \<Longrightarrow> hole_ok h nd i (h ! i)"
  by (simp add: indexed_def hole_ok_def)

lemma heap_from_hole:
  assumes "heap_from k h" "i < length h"
  shows "hole_at k h i"
proof -
  have "key h (parent i) \<le> key h j"
    if "0 < i" "k \<le> parent i" "0 < j" "j < length h" "parent j = i" for j
  proof -
    from assms that have "key h (parent i) \<le> key h i" by (simp add: heap_from_def)
    moreover have "k \<le> i" using that parent_less [of i] by linarith
    with assms that have "key h i \<le> key h j" by (auto simp: heap_from_def)
    ultimately show ?thesis by simp
  qed
  with assms show ?thesis by (simp add: hole_at_def heap_from_def)
qed

lemma heap_root_min:
  assumes "heap_from 0 h" "j < length h"
  shows "key h 0 \<le> key h j"
  using assms(2)
proof (induction j rule: less_induct)
  case (less j)
  show ?case
  proof (cases "j = 0")
    case False
    then have "parent j < j" by simp
    with less have "key h 0 \<le> key h (parent j)" by simp
    also have "\<dots> \<le> key h j" using assms(1) less.prems False by (simp add: heap_from_def)
    finally show ?thesis .
  qed simp
qed

lemma sift_resultD:
  assumes "sift_result h nd r"
  shows "mset (fst r) = mset h" "indexed (fst r) (snd r)" "idx_frame (snd ` set h) nd (snd r)"
  using assms by (simp_all add: sift_result_def)

lemma heap_push_slots_ok:
  assumes "heap_inv (h, nd)" "snd x \<notin> snd ` set h"
  defines "r \<equiv> heap_push_slots x (h, nd)"
  shows "heap_inv r" "mset (fst r) = mset h + {#x#}"
    "idx_frame (insert (snd x) (snd ` set h)) nd (snd r)"
proof -
  from assms(1) have hp: "heap_from 0 h" and ix: "indexed h nd" by (auto simp: heap_inv_def)
  let ?h = "h @ [x]" and ?n = "length h"
  have k: "key ?h j = key h j" if "j < ?n" for j using that by (simp add: key_def nth_append)
  have par: "parent j \<noteq> ?n" if "0 < j" "j < Suc ?n" for j using parent_less [of j] that by linarith
  have "hole_at 0 ?h ?n"
  proof -
    have "key ?h (parent j) \<le> key ?h j" if "0 < j" "j < ?n" for j
    proof -
      have "parent j < ?n" using parent_less [of j] that by linarith
      with that hp k show ?thesis by (simp add: heap_from_def)
    qed
    then show ?thesis using par by (auto simp: hole_at_def less_Suc_eq)
  qed
  with par have "heap_from 0 (fst (sift_up ?h nd ?n x))" by (intro sift_up_heap) auto
  moreover have "hole_ok ?h nd ?n x"
    using ix assms(2) by (auto simp: hole_ok_def indexed_def idx_at_def nth_append image_image)
  note res = sift_resultD [OF sift_up_result [OF this]]
  ultimately show "heap_inv r" "mset (fst r) = mset h + {#x#}"
    "idx_frame (insert (snd x) (snd ` set h)) nd (snd r)"
    by (simp_all add: r_def heap_push_slots_def heap_inv_def)
qed

lemma parent_le: "parent j \<le> j"
  by (simp add: parent_def)

text \<open>Taking slot \<open>i\<close> out and moving the last slot into the hole.\<close>

lemma remove_mset:
  assumes "Suc i < length h"
  shows "mset (h ! i # (butlast h)[i := last h]) = mset h"
proof -
  from assms have ne: "h \<noteq> []" and i: "i < length (butlast h)" by auto
  then have "mset ((butlast h)[i := last h]) = add_mset (last h) (mset (butlast h) - {#butlast h ! i#})"
    by (simp add: mset_update)
  moreover have "butlast h ! i \<in># mset (butlast h)" using i by (metis nth_mem set_mset_mset)
  moreover have "butlast h ! i = h ! i" using i by (simp add: nth_butlast)
  moreover have "mset h = add_mset (last h) (mset (butlast h))"
    using ne by (metis append_butlast_last_id mset_append mset.simps(1) mset.simps(2) union_mset_add_mset_right add.right_neutral)
  ultimately show ?thesis by simp
qed

lemma remove_hole:
  assumes "heap_inv (h, nd)" "Suc i < length h"
  defines "h1 \<equiv> butlast h" and "nd1 \<equiv> set_idx nd (snd (h ! i)) (- 1)"
  shows "hole_at 0 h1 i" "hole_ok h1 nd1 i (last h)" "snd (h ! i) \<notin> snd ` set (h1[i := last h])"
proof -
  from assms(1) have hp: "heap_from 0 h" and ix: "indexed h nd" by (auto simp: heap_inv_def)
  from assms(2) have i: "i < length h1" by (simp add: h1_def)
  have len: "length h1 = length h - 1" by (simp add: h1_def)
  have nth: "h1 ! j = h ! j" if "j < length h1" for j using that by (simp add: h1_def nth_butlast)
  have "hole_at 0 h i" using hp assms(2) by (intro heap_from_hole) auto
  moreover have "key h1 j = key h j \<and> key h1 (parent j) = key h (parent j)" if "j < length h1" for j
    using that parent_le [of j] by (simp add: key_def nth)
  ultimately show "hole_at 0 h1 i" using i len by (simp add: hole_at_def)
  have dm: "distinct (map snd (h ! i # h1[i := last h]))"
    using ix distinct_snd_mset [OF remove_mset [OF assms(2)]] by (simp add: h1_def indexed_def)
  then show "snd (h ! i) \<notin> snd ` set (h1[i := last h])" by simp
  have "idx_at h1 nd1 j" if "j < length h1" "j \<noteq> i" for j
  proof -
    have "snd (h ! j) \<noteq> snd (h ! i)"
      using that ix assms(2) len by (auto simp: indexed_def distinct_conv_nth)
    with that ix len show ?thesis by (simp add: idx_at_def indexed_def nth nd1_def set_idx_def)
  qed
  with dm i show "hole_ok h1 nd1 i (last h)" by (simp add: hole_ok_def)
qed

text \<open>What every removal leaves: a heap of the other slots, the removed node marked out of it.\<close>

definition heap_removed :: "timer_slot list \<Rightarrow> timer_nodes \<Rightarrow> nat \<Rightarrow> timer_heap \<Rightarrow> bool" where
  "heap_removed h nd i r = (heap_inv r \<and> mset h = add_mset (h ! i) (mset (fst r)) \<and>
     idx_frame (snd ` set h) nd (snd r) \<and> tm_heap_idx (snd r (snd (h ! i))) = - 1)"

lemma heap_removedI:
  assumes "heap_inv (h, nd)" "Suc i < length h"
    and "heap_from 0 (fst r)"
    and res: "sift_result ((butlast h)[i := last h]) (set_idx nd (snd (h ! i)) (- 1)) r"
  shows "heap_removed h nd i r"
proof -
  note r = sift_resultD [OF res]
  let ?h = "(butlast h)[i := last h]" and ?nd = "set_idx nd (snd (h ! i)) (- 1)"
  have m: "mset h = add_mset (h ! i) (mset (fst r))"
    using remove_mset [OF assms(2)] r(1) by simp
  then have "set h = insert (h ! i) (set (fst r))" by (metis set_mset_mset set_mset_add_mset_insert)
  moreover have "set ?h = set (fst r)" using r(1) by (metis set_mset_mset)
  ultimately have S: "snd ` set h = insert (snd (h ! i)) (snd ` set ?h)" by simp
  have "idx_frame (snd ` set h) nd ?nd" using S by (intro idx_frame_set) simp
  moreover have "idx_frame (snd ` set h) ?nd (snd r)" using r(3) S by (simp add: idx_frame_def)
  ultimately have "idx_frame (snd ` set h) nd (snd r)" by (rule idx_frame_trans)
  moreover have "snd r (snd (h ! i)) = ?nd (snd (h ! i))"
    using r(3) remove_hole(3) [OF assms(1,2)] by (simp add: idx_frame_def)
  ultimately show ?thesis using assms(3) r(2) m
    by (simp add: heap_removed_def heap_inv_def set_idx_def)
qed

lemma heap_removed_last:
  assumes "heap_inv (h, nd)" "h \<noteq> []"
  shows "heap_removed h nd (length h - 1) (butlast h, set_idx nd (snd (last h)) (- 1))"
proof -
  from assms(1) have hp: "heap_from 0 h" and ix: "indexed h nd" by (auto simp: heap_inv_def)
  have h: "h = butlast h @ [last h]" using assms(2) by simp
  have l: "h ! (length h - 1) = last h" using assms(2) by (simp add: last_conv_nth)
  have nth: "butlast h ! j = h ! j" if "j < length h - 1" for j using that by (simp add: nth_butlast)
  have "heap_from 0 (butlast h)"
  proof -
    have "parent j < length h - 1" if "j < length h - 1" for j using that parent_le [of j] by linarith
    with hp nth show ?thesis by (simp add: heap_from_def key_def)
  qed
  moreover have "indexed (butlast h) (set_idx nd (snd (last h)) (- 1))"
  proof -
    have d: "distinct (map snd (butlast h) @ [snd (last h)])"
      using ix h by (metis indexed_def map_append list.map(1) list.map(2))
    have "idx_at (butlast h) (set_idx nd (snd (last h)) (- 1)) j" if "j < length h - 1" for j
    proof -
      have "snd (h ! j) \<noteq> snd (last h)"
        using d that nth [OF that] by (metis distinct_append disjoint_iff length_butlast list.set_intros(1) length_map nth_map nth_mem)
      then show ?thesis using ix that by (simp add: idx_at_def indexed_def nth set_idx_def)
    qed
    with d show ?thesis by (simp add: indexed_def)
  qed
  moreover have "mset h = add_mset (last h) (mset (butlast h))"
    by (subst h) simp
  moreover have "idx_frame (snd ` set h) nd (set_idx nd (snd (last h)) (- 1))"
    using assms(2) by (intro idx_frame_set) simp
  ultimately show ?thesis by (simp add: heap_removed_def heap_inv_def l [simplified] set_idx_def)
qed

lemma heap_pop_slots_ok:
  assumes "heap_inv (h, nd)" "h \<noteq> []"
  shows "heap_removed h nd 0 (heap_pop_slots (h, nd))"
proof (cases "length h = 1")
  case True
  then have "butlast h = []" "last h = h ! 0" by (cases h; simp)+
  with True heap_removed_last [OF assms] show ?thesis by (simp add: heap_pop_slots_def Let_def)
next
  case False
  with assms(2) have l: "Suc 0 < length h" by (cases h) auto
  then have "butlast h \<noteq> []" by (cases h) auto
  moreover note rh = remove_hole [OF assms(1) l]
  have "heap_removed h nd 0 (sift_down (butlast h) (set_idx nd (snd (h ! 0)) (- 1)) 0 (last h))"
    using rh by (intro heap_removedI [OF assms(1) l] sift_down_heap sift_down_result) auto
  ultimately show ?thesis by (simp add: heap_pop_slots_def Let_def)
qed

lemma heap_remove_slots_ok:
  assumes "heap_inv (h, nd)" "i < length h"
  shows "heap_removed h nd i (heap_remove_slots i (h, nd))"
proof (cases "i = length h - 1")
  case True
  from assms have "h \<noteq> []" by auto
  with True heap_removed_last [OF assms(1)] show ?thesis
    by (simp add: heap_remove_slots_def Let_def last_conv_nth)
next
  case False
  with assms have l: "Suc i < length h" and ne: "h \<noteq> []" by auto
  note rh = remove_hole [OF assms(1) l]
  from assms(1) have hp: "heap_from 0 h" by (simp add: heap_inv_def)
  have len: "length (butlast h) = length h - 1" by simp
  have k: "key (butlast h) j = key h j" if "j < length h - 1" for j
    using that by (simp add: key_def nth_butlast)
  let ?nd = "set_idx nd (snd (h ! i)) (- 1)"
  show ?thesis
  proof (cases "0 < i \<and> fst (last h) < fst (h ! parent i)")
    case True
    have up: "fst (last h) \<le> key (butlast h) j"
      if "0 < j" "j < length (butlast h)" "parent j = i" for j
    proof -
      have "fst (last h) \<le> key h (parent i)" using True by (simp add: key_def)
      also have "\<dots> \<le> key h i" using hp True l by (simp add: heap_from_def)
      also have "\<dots> \<le> key h j" using hp that by (auto simp: heap_from_def)
      finally show ?thesis using k that by simp
    qed
    have "heap_removed h nd i (sift_up (butlast h) ?nd i (last h))"
      using rh up by (intro heap_removedI [OF assms(1) l] sift_up_heap sift_up_result) auto
    with True False ne show ?thesis by (simp add: heap_remove_slots_def Let_def last_conv_nth)
  next
    case down: False
    have "key (butlast h) (parent i) \<le> fst (last h)" if "0 < i"
    proof -
      have "parent i < length h - 1" using l parent_le [of i] by linarith
      with down that k show ?thesis by (simp add: key_def)
    qed
    with rh have "heap_removed h nd i (sift_down (butlast h) ?nd i (last h))"
      by (intro heap_removedI [OF assms(1) l] sift_down_heap sift_down_result) auto
    moreover have "\<not> (0 < i \<and> fst (h ! (length h - 1)) < fst (h ! parent i))"
      using down ne by (simp add: last_conv_nth)
    ultimately show ?thesis using False ne by (auto simp: heap_remove_slots_def Let_def last_conv_nth)
  qed
qed

lemma heap_from_half: "heap_from (length h div 2) h"
proof -
  have "parent j < length h div 2" if "0 < j" "j < length h" for j
    using that unfolding parent_def by linarith
  then show ?thesis unfolding heap_from_def by (meson not_le)
qed

lemma heap_rebuild_ok:
  assumes "indexed h nd" "heap_from i h" "i \<le> length h"
  shows "heap_inv (heap_rebuild i (h, nd)) \<and> mset (fst (heap_rebuild i (h, nd))) = mset h \<and>
    idx_frame (snd ` set h) nd (snd (heap_rebuild i (h, nd)))"
  using assms
proof (induction i arbitrary: h nd)
  case 0
  then show ?case by (simp add: heap_inv_def idx_frame_refl)
next
  case (Suc i)
  let ?r = "sift_down h nd i (h ! i)"
  from Suc.prems have "i < length h" by simp
  then have res: "sift_result h nd ?r"
    using sift_down_result [OF indexed_hole [OF Suc.prems(1)]] by simp
  note r = sift_resultD [OF res]
  have "\<not> i \<le> parent i" if "0 < i" using parent_less [OF that] by simp
  moreover have "hole_at i h i"
    using \<open>i < length h\<close> calculation Suc.prems(2)
    by (simp add: hole_at_def heap_from_def)
  ultimately have "heap_from i (fst ?r)" by (intro sift_down_heap) auto
  moreover have "length (fst ?r) = length h" using r(1) by (metis size_mset)
  moreover have "set (fst ?r) = set h" using r(1) by (metis set_mset_mset)
  ultimately show ?case
    using Suc.IH [of "fst ?r" "snd ?r"] r \<open>i < length h\<close> by (auto intro: idx_frame_trans)
qed

section \<open>The contract of a queue of deadlines\<close>

locale deadline_queue =
  fixes inv :: "'q \<Rightarrow> bool" and slots :: "'q \<Rightarrow> timer_slot multiset"
    and push :: "timer_slot \<Rightarrow> 'q \<Rightarrow> 'q" and peek :: "'q \<Rightarrow> timer_slot" and pop :: "'q \<Rightarrow> 'q"
  assumes push_inv: "inv q \<Longrightarrow> snd x \<notin> snd ` set_mset (slots q) \<Longrightarrow> inv (push x q)"
    and push_slots: "inv q \<Longrightarrow> snd x \<notin> snd ` set_mset (slots q) \<Longrightarrow> slots (push x q) = add_mset x (slots q)"
    and pop_inv: "inv q \<Longrightarrow> slots q \<noteq> {#} \<Longrightarrow> inv (pop q)"
    and pop_slots: "inv q \<Longrightarrow> slots q \<noteq> {#} \<Longrightarrow> slots q = add_mset (peek q) (slots (pop q))"
    and top_min: "inv q \<Longrightarrow> x \<in># slots q \<Longrightarrow> fst (peek q) \<le> fst x"

primrec dq_drain :: "('q \<Rightarrow> timer_slot) \<Rightarrow> ('q \<Rightarrow> 'q) \<Rightarrow> nat \<Rightarrow> 'q \<Rightarrow> timer_slot list" where
  "dq_drain peek pop 0 q = []"
| "dq_drain peek pop (Suc n) q = peek q # dq_drain peek pop n (pop q)"

context deadline_queue
begin

lemma drain_slots: "inv q \<Longrightarrow> size (slots q) = n \<Longrightarrow> mset (dq_drain peek pop n q) = slots q"
proof (induction n arbitrary: q)
  case (Suc n)
  then have ne: "slots q \<noteq> {#}" by auto
  note p = pop_slots [OF Suc.prems(1) ne]
  from p Suc.prems(2) have "size (slots (pop q)) = n" by (metis size_add_mset nat.inject)
  with Suc.IH [OF pop_inv [OF Suc.prems(1) ne]] show ?case by (simp add: p [symmetric])
qed simp

lemma drain_sorted: "inv q \<Longrightarrow> size (slots q) = n \<Longrightarrow> sorted (map fst (dq_drain peek pop n q))"
proof (induction n arbitrary: q)
  case (Suc n)
  then have ne: "slots q \<noteq> {#}" by auto
  note p = pop_slots [OF Suc.prems(1) ne] and i = pop_inv [OF Suc.prems(1) ne]
  from p Suc.prems(2) have n: "size (slots (pop q)) = n" by (metis size_add_mset nat.inject)
  have "fst (peek q) \<le> fst x" if "x \<in> set (dq_drain peek pop n (pop q))" for x
  proof -
    from that drain_slots [OF i n] have "x \<in># slots (pop q)" by (metis set_mset_mset)
    then have "x \<in># slots q" by (subst p) simp
    with Suc.prems(1) show ?thesis by (rule top_min)
  qed
  with Suc.IH [OF i n] show ?case by simp
qed simp

lemma push_drain_equivalence:
  assumes "inv q" "slots q = {#}" "distinct (map snd xs)"
  shows "map fst (dq_drain peek pop (length xs) (fold push xs q)) = sort (map fst xs)"
proof -
  have "inv (fold push xs q) \<and> slots (fold push xs q) = slots q + mset xs"
    if "inv q" "distinct (map snd xs)" "snd ` set xs \<inter> snd ` set_mset (slots q) = {}" for q
    using that
  proof (induction xs arbitrary: q)
    case (Cons x xs)
    then have "snd x \<notin> snd ` set_mset (slots q)" by auto
    with Cons.prems Cons.IH [of "push x q"] show ?case by (auto simp: push_inv push_slots)
  qed simp
  from this [OF assms(1,3)] assms(2)
  have f: "inv (fold push xs q)" "slots (fold push xs q) = mset xs" by auto
  then have "size (slots (fold push xs q)) = length xs" by simp
  note d = drain_slots [OF f(1) this] drain_sorted [OF f(1) this]
  have "mset (map fst (dq_drain peek pop (length xs) (fold push xs q))) = mset (map fst xs)"
    using d(1) f(2) by (simp add: mset_map)
  with d(2) show ?thesis by (intro properties_for_sort [symmetric]) simp_all
qed

end

definition heap_top_slot :: "timer_heap \<Rightarrow> timer_slot" where
  "heap_top_slot q = fst q ! 0"

interpretation dq: deadline_queue heap_inv "\<lambda>q. mset (fst q)" heap_push_slots heap_top_slot heap_pop_slots
proof
  fix q :: timer_heap and x :: timer_slot
  assume "heap_inv q" "snd x \<notin> snd ` set_mset (mset (fst q))"
  then show "heap_inv (heap_push_slots x q)" "mset (fst (heap_push_slots x q)) = add_mset x (mset (fst q))"
    using heap_push_slots_ok [of "fst q" "snd q" x] by simp_all
next
  fix q :: timer_heap
  assume "heap_inv q" "mset (fst q) \<noteq> {#}"
  then have "heap_removed (fst q) (snd q) 0 (heap_pop_slots q)"
    using heap_pop_slots_ok [of "fst q" "snd q"] by simp
  then show "heap_inv (heap_pop_slots q)"
    "mset (fst q) = add_mset (heap_top_slot q) (mset (fst (heap_pop_slots q)))"
    by (simp_all add: heap_removed_def heap_top_slot_def)
next
  fix q :: timer_heap and x :: timer_slot
  assume q: "heap_inv q" and "x \<in># mset (fst q)"
  then obtain j where "j < length (fst q)" "x = fst q ! j" by (auto simp: in_set_conv_nth)
  with q heap_root_min [of "fst q" j] show "fst (heap_top_slot q) \<le> fst x"
    by (simp add: heap_inv_def heap_top_slot_def key_def)
qed

end
