(* ===== verification/Timer.thy ===== *)
theory Timer
  imports Timer_Heap
begin

text \<open>
  The timers of an event loop (src/src/evt/timer.c) and the drain that fires them
  (\<open>__xtc_drain_due_timers\<close> of src/src/evt/loop.c), over the heap of \<open>Timer_Heap\<close>.

  A node is reached by its address. The loop record holds the heap array (its first
  \<open>n_timers\<close> slots), the array's capacity and the nodes; \<open>tl_live\<close> is a ghost that says which
  nodes are allocated. Results of calls outside the file are arguments: the slab's address
  or failure, the clock, the outcome of \<open>realloc\<close>, which timers a cancel on another thread
  claims while the owner pops. The invariant counts owners: a node's reference count is
  the heap's reference plus the references held outside, and the node is allocated
  exactly as long as that count is positive.
\<close>

section \<open>State\<close>

record timer_loop =
  tl_timers :: "timer_slot list"
  tl_cap :: nat
  tl_nodes :: timer_nodes
  tl_live :: "nat \<Rightarrow> bool"
  tl_park :: "nat \<Rightarrow> nat option"
  tl_woken :: "nat list"

text \<open>What the outside answers during one call.\<close>

record timer_env =
  te_slab_rc :: xtc_err
  te_calloc_rc :: xtc_err
  te_new :: "nat option"
  te_clock_rc :: xtc_err
  te_now :: int
  te_grow_rc :: xtc_err

abbreviation (input) tl_node :: "timer_loop \<Rightarrow> nat \<Rightarrow> xtc_timer" where
  "tl_node l t \<equiv> tl_nodes l t"

definition tl_set :: "timer_loop \<Rightarrow> nat \<Rightarrow> (xtc_timer \<Rightarrow> xtc_timer) \<Rightarrow> timer_loop" where
  "tl_set l t f = l\<lparr>tl_nodes := (tl_nodes l)(t := f (tl_nodes l t))\<rparr>"

definition tl_with :: "timer_loop \<Rightarrow> timer_heap \<Rightarrow> timer_loop" where
  "tl_with l q = l\<lparr>tl_timers := fst q, tl_nodes := snd q\<rparr>"

definition timer_free :: "timer_loop \<Rightarrow> nat \<Rightarrow> timer_loop" where
  "timer_free l t = l\<lparr>tl_live := (tl_live l)(t := False)\<rparr>"

section \<open>Operations\<close>

definition timer_grow :: "xtc_err \<Rightarrow> timer_loop \<Rightarrow> xtc_err \<times> timer_loop" where
  "timer_grow rc l =
     (if rc \<noteq> XTC_OK then (rc, l)
      else (XTC_OK, l\<lparr>tl_cap := if tl_cap l = 0 then 8 else tl_cap l * 2\<rparr>))"

definition park_release :: "nat option \<Rightarrow> timer_loop \<Rightarrow> timer_loop" where
  "park_release p l = (case p of None \<Rightarrow> l | Some t \<Rightarrow>
     if tm_refs (tl_node l t) = 0 then l
     else let l1 = tl_set l t (\<lambda>n. n\<lparr>tm_refs := tm_refs n - 1\<rparr>) in
       if tm_refs (tl_node l t) \<noteq> 1 then l1 else timer_free l1 t)"

definition is_cancelled :: "timer_loop \<Rightarrow> nat \<Rightarrow> bool" where
  "is_cancelled l t = (tm_fired (tl_node l t) = XTC_TIMER_CANCELLED)"

definition heap_remove_at :: "nat \<Rightarrow> timer_loop \<Rightarrow> timer_loop" where
  "heap_remove_at i l = tl_with l (heap_remove_slots i (tl_timers l, tl_nodes l))"

text \<open>The scan of the sweep: \<open>kept\<close> is the prefix \<open>h[0 .. n)\<close> already compacted.\<close>

fun sweep_scan :: "timer_slot list \<Rightarrow> timer_slot list \<Rightarrow> timer_loop \<Rightarrow> timer_loop" where
  "sweep_scan kept [] l = l\<lparr>tl_timers := kept\<rparr>"
| "sweep_scan kept (x # xs) l =
     (if is_cancelled l (snd x)
      then sweep_scan kept xs
        (park_release (Some (snd x)) (tl_set l (snd x) (\<lambda>n. n\<lparr>tm_heap_idx := - 1\<rparr>)))
      else sweep_scan (kept @ [x]) xs (tl_set l (snd x) (\<lambda>n. n\<lparr>tm_heap_idx := int (length kept)\<rparr>)))"

definition sweep_cancelled :: "timer_loop \<Rightarrow> timer_loop" where
  "sweep_cancelled l =
     (let l1 = sweep_scan [] (tl_timers l) l in
      tl_with l1 (heap_rebuild (length (tl_timers l1) div 2) (tl_timers l1, tl_nodes l1)))"

text \<open>The room a push needs: sweep a full heap, grow it only if it stays more than half full.\<close>

definition heap_make_room :: "xtc_err \<Rightarrow> timer_loop \<Rightarrow> xtc_err \<times> timer_loop" where
  "heap_make_room grow_rc l =
     (if tl_cap l \<le> length (tl_timers l) then
        let l1 = if tl_timers l \<noteq> [] then sweep_cancelled l else l in
        if tl_cap l1 = 0 \<or> tl_cap l1 div 2 < length (tl_timers l1) then timer_grow grow_rc l1
        else (XTC_OK, l1)
      else (XTC_OK, l))"

definition timer_heap_push :: "xtc_err \<Rightarrow> nat \<Rightarrow> timer_loop \<Rightarrow> xtc_err \<times> timer_loop" where
  "timer_heap_push grow_rc t l =
     (case heap_make_room grow_rc l of (rc, l1) \<Rightarrow>
        if rc \<noteq> XTC_OK then (rc, l1)
        else let l2 = if tm_fired (tl_node l1 t) = XTC_TIMER_FIRED
                      then tl_set l1 t (\<lambda>n. n\<lparr>tm_fired := 0\<rparr>) else l1 in
          (XTC_OK, tl_with l2
             (heap_push_slots (tm_deadline_ns (tl_node l2 t), t) (tl_timers l2, tl_nodes l2))))"

definition heap_top :: "timer_loop \<Rightarrow> nat option" where
  "heap_top l = (if tl_timers l = [] then None else Some (snd (tl_timers l ! 0)))"

definition heap_pop :: "timer_loop \<Rightarrow> nat option \<times> timer_loop" where
  "heap_pop l =
     (if tl_timers l = [] then (None, l)
      else (Some (snd (tl_timers l ! 0)),
            tl_with l (heap_pop_slots (tl_timers l, tl_nodes l))))"

text \<open>The mark a cancel leaves on a node.\<close>

definition timer_mark :: "timer_loop \<Rightarrow> nat \<Rightarrow> timer_loop" where
  "timer_mark l t = tl_set l t (\<lambda>n. n\<lparr>tm_fired := XTC_TIMER_CANCELLED, tm_cancelled := True\<rparr>)"

lemma sift_down_length: "length (fst (sift_down h nd i x)) = length h"
  by (induction h nd i x rule: sift_down.induct) (subst sift_down.simps, simp add: Let_def)

lemma heap_pop_slots_length: "length (fst (heap_pop_slots (h, nd))) = length h - 1"
  by (cases h rule: rev_cases) (simp_all add: heap_pop_slots_def Let_def sift_down_length)

lemma tl_set_sel [simp]:
  "tl_timers (tl_set l t f) = tl_timers l" "tl_cap (tl_set l t f) = tl_cap l"
  "tl_live (tl_set l t f) = tl_live l" "tl_park (tl_set l t f) = tl_park l"
  "tl_nodes (tl_set l t f) = (tl_nodes l)(t := f (tl_nodes l t))"
  by (simp_all add: tl_set_def)

lemma tl_with_sel [simp]:
  "tl_timers (tl_with l q) = fst q" "tl_cap (tl_with l q) = tl_cap l"
  "tl_live (tl_with l q) = tl_live l" "tl_park (tl_with l q) = tl_park l" "tl_nodes (tl_with l q) = snd q"
  by (simp_all add: tl_with_def)

lemma park_release_sel [simp]:
  "tl_timers (park_release p l) = tl_timers l" "tl_cap (park_release p l) = tl_cap l"
  "tl_park (park_release p l) = tl_park l"
  by (simp_all add: park_release_def Let_def timer_free_def split: option.split)

lemma heap_pop_length [simp]: "length (tl_timers (snd (heap_pop l))) = length (tl_timers l) - 1"
  by (simp add: heap_pop_def heap_pop_slots_length)

lemma timer_mark_timers [simp]: "tl_timers (timer_mark l t) = tl_timers l"
  by (simp add: timer_mark_def)

text \<open>
  The owner's pop. A timer in \<open>race\<close> is one that a cancel on another thread claims between
  the owner's check of \<open>fired\<close> and its compare-and-swap.
\<close>

function timer_heap_pop_due ::
  "(nat \<Rightarrow> bool) \<Rightarrow> int \<Rightarrow> timer_loop \<Rightarrow> nat option \<times> timer_loop" where
  "timer_heap_pop_due race now_ns l =
     (case heap_top l of
        None \<Rightarrow> (None, l)
      | Some t \<Rightarrow>
          if is_cancelled l t then
            timer_heap_pop_due race now_ns (park_release (Some t) (snd (heap_pop l)))
          else if fst (tl_timers l ! 0) > now_ns then (None, l)
          else let l1 = if race t \<and> tm_fired (tl_node l t) = 0 then timer_mark l t else l in
            if tm_fired (tl_node l1 t) = 0
            then heap_pop (tl_set l1 t (\<lambda>n. n\<lparr>tm_fired := XTC_TIMER_FIRED\<rparr>))
            else timer_heap_pop_due race now_ns (park_release (Some t) (snd (heap_pop l1))))"
  by pat_completeness auto
termination
  by (relation "measure (\<lambda>(race, now_ns, l). length (tl_timers l))")
    (auto simp: heap_top_def split: if_splits)

function timer_heap_next_deadline :: "timer_loop \<Rightarrow> int \<times> timer_loop" where
  "timer_heap_next_deadline l =
     (if tl_timers l \<noteq> [] \<and> is_cancelled l (snd (tl_timers l ! 0))
      then timer_heap_next_deadline
        (park_release (Some (snd (tl_timers l ! 0))) (snd (heap_pop l)))
      else (if tl_timers l = [] then - 1 else fst (tl_timers l ! 0), l))"
  by pat_completeness auto
termination
  by (relation "measure (\<lambda>l. length (tl_timers l))") auto

declare timer_heap_pop_due.simps [simp del] timer_heap_next_deadline.simps [simp del]

definition timer_zero :: xtc_timer where
  "timer_zero = \<lparr>tm_deadline_ns = 0, tm_cb = 0, tm_user = 0, tm_waiter = None, tm_heap_idx = 0,
     tm_cancelled = False, tm_fired = 0, tm_sim_late = False, tm_from_slab = False, tm_refs = 0\<rparr>"

definition timer_init :: "int \<Rightarrow> nat \<Rightarrow> nat \<Rightarrow> bool \<Rightarrow> xtc_timer" where
  "timer_init deadline fn user out = timer_zero\<lparr>tm_deadline_ns := deadline,
     tm_refs := (if out then 2 else 1), tm_cb := fn, tm_user := user, tm_waiter := None,
     tm_cancelled := False, tm_fired := 0, tm_heap_idx := - 1, tm_from_slab := True\<rparr>"

text \<open>A null loop is \<open>None\<close>; the result carries the handle stored through \<open>out_timer\<close>.\<close>

definition xtc_timer_set ::
  "timer_env \<Rightarrow> timer_loop option \<Rightarrow> int \<Rightarrow> nat \<Rightarrow> nat \<Rightarrow> bool \<Rightarrow>
     xtc_err \<times> nat option \<times> timer_loop option" where
  "xtc_timer_set e lo delay_ns fn user out = (case lo of None \<Rightarrow> (XTC_E_INVAL, None, None) | Some l \<Rightarrow>
     if delay_ns < 0 then (XTC_E_INVAL, None, Some l)
     else if te_slab_rc e \<noteq> XTC_OK then (te_slab_rc e, None, Some l)
     else case te_new e of None \<Rightarrow> (XTC_E_RESOURCE, None, Some l) | Some t \<Rightarrow>
       let l1 = (tl_set l t (\<lambda>_. timer_zero))\<lparr>tl_live := (tl_live l)(t := True)\<rparr> in
       if te_clock_rc e \<noteq> XTC_OK then (te_clock_rc e, None, Some (timer_free l1 t))
       else
         let l2 = tl_set l1 t (\<lambda>_. timer_init (wrap64 (te_now e + delay_ns)) fn user out) in
         (case timer_heap_push (te_grow_rc e) t l2 of (rc, l3) \<Rightarrow>
            if rc \<noteq> XTC_OK then (rc, None, Some (timer_free l3 t))
            else (XTC_OK, if out then Some t else None, Some l3)))"

text \<open>A task's park timer: owned by the heap and by the task's \<open>park_timer\<close> slot.\<close>

definition park_init :: "int \<Rightarrow> nat \<Rightarrow> xtc_timer" where
  "park_init deadline w = timer_zero\<lparr>tm_deadline_ns := deadline, tm_waiter := Some w, tm_heap_idx := - 1,
     tm_cancelled := False, tm_fired := 0, tm_from_slab := False, tm_refs := 2\<rparr>"

definition task_park_on_timer_at ::
  "timer_env \<Rightarrow> nat option \<Rightarrow> bool \<Rightarrow> int \<Rightarrow> timer_loop \<Rightarrow> xtc_err \<times> timer_loop" where
  "task_park_on_timer_at e self fd_parked deadline_ns l = (case self of None \<Rightarrow> (XTC_E_INVAL, l) | Some w \<Rightarrow>
     if tl_park l w \<noteq> None \<or> fd_parked then (XTC_E_INVAL, l)
     else if te_calloc_rc e \<noteq> XTC_OK then (te_calloc_rc e, l)
     else case te_new e of None \<Rightarrow> (XTC_E_NOMEM, l) | Some t \<Rightarrow>
       let l1 = (tl_set l t (\<lambda>_. park_init deadline_ns w))\<lparr>tl_live := (tl_live l)(t := True)\<rparr> in
       (case timer_heap_push (te_grow_rc e) t l1 of (rc, l2) \<Rightarrow>
          if rc \<noteq> XTC_OK then (rc, timer_free l2 t)
          else (XTC_OK, l2\<lparr>tl_park := (tl_park l2)(w := Some t)\<rparr>)))"

definition xtc_task_park_on_timer ::
  "timer_env \<Rightarrow> nat option \<Rightarrow> bool \<Rightarrow> int \<Rightarrow> timer_loop \<Rightarrow> xtc_err \<times> timer_loop" where
  "xtc_task_park_on_timer e self fd_parked delay_ns l =
     (if self = None \<or> delay_ns < 0 then (XTC_E_INVAL, l)
      else if te_clock_rc e \<noteq> XTC_OK then (te_clock_rc e, l)
      else task_park_on_timer_at e self fd_parked (wrap64 (te_now e + delay_ns)) l)"

definition timer_try_cancel :: "bool \<Rightarrow> nat \<Rightarrow> timer_loop \<Rightarrow> bool \<times> timer_loop" where
  "timer_try_cancel on_owner t l =
     (if tm_fired (tl_node l t) \<noteq> 0 then (False, l)
      else let l1 = timer_mark l t in
        if on_owner \<and> 0 \<le> tm_heap_idx (tl_node l1 t)
        then (True, park_release (Some t) (heap_remove_at (nat (tm_heap_idx (tl_node l1 t))) l1))
        else (True, l1))"

definition xtc_timer_cancel :: "bool \<Rightarrow> nat option \<Rightarrow> timer_loop \<Rightarrow> xtc_err \<times> timer_loop" where
  "xtc_timer_cancel on_owner p l = (case p of None \<Rightarrow> (XTC_E_INVAL, l)
     | Some t \<Rightarrow> (XTC_OK, snd (timer_try_cancel on_owner t l)))"

definition xtc_timer_release :: "nat option \<Rightarrow> timer_loop \<Rightarrow> xtc_err \<times> timer_loop" where
  "xtc_timer_release p l = (case p of None \<Rightarrow> (XTC_E_INVAL, l)
     | Some t \<Rightarrow> if \<not> tm_from_slab (tl_node l t) then (XTC_E_INVAL, l)
         else (XTC_OK, park_release (Some t) l))"

definition task_cancel_park_timer :: "bool \<Rightarrow> nat option \<Rightarrow> timer_loop \<Rightarrow> timer_loop" where
  "task_cancel_park_timer on_owner self l = (case self of None \<Rightarrow> l | Some w \<Rightarrow>
     let l1 = l\<lparr>tl_park := (tl_park l)(w := None)\<rparr> in
     (case tl_park l w of None \<Rightarrow> l1
      | Some pt \<Rightarrow> park_release (Some pt) (snd (xtc_timer_cancel on_owner (Some pt) l1))))"

section \<open>The invariant\<close>

definition in_heap :: "timer_loop \<Rightarrow> nat \<Rightarrow> bool" where
  "in_heap l t = (t \<in> snd ` set (tl_timers l))"

text \<open>\<open>ext t\<close> counts the references to \<open>t\<close> held outside the heap.\<close>

definition owners :: "(nat \<Rightarrow> nat) \<Rightarrow> timer_loop \<Rightarrow> nat \<Rightarrow> nat" where
  "owners ext l t = (if in_heap l t then 1 else 0) + ext t"

definition tl_refs_ok :: "(nat \<Rightarrow> nat) \<Rightarrow> timer_loop \<Rightarrow> bool" where
  "tl_refs_ok ext l = (\<forall>t. (tl_live l t \<longleftrightarrow> 0 < owners ext l t) \<and>
     (tl_live l t \<longrightarrow> tm_refs (tl_nodes l t) = int (owners ext l t)))"

definition tl_heap_ok :: "timer_loop \<Rightarrow> bool" where
  "tl_heap_ok l = (heap_inv (tl_timers l, tl_nodes l) \<and>
     (\<forall>x \<in> set (tl_timers l). fst x = tm_deadline_ns (tl_nodes l (snd x))) \<and>
     (\<forall>t. tl_live l t \<longrightarrow> \<not> in_heap l t \<longrightarrow> tm_heap_idx (tl_nodes l t) = - 1) \<and>
     length (tl_timers l) \<le> tl_cap l)"

definition tl_inv :: "(nat \<Rightarrow> nat) \<Rightarrow> timer_loop \<Rightarrow> bool" where
  "tl_inv ext l = (tl_refs_ok ext l \<and> tl_heap_ok l)"

text \<open>No node in the heap is claimed by a pop, and the flag \<open>cancelled\<close> follows the arbiter.\<close>

definition tl_unclaimed :: "timer_loop \<Rightarrow> bool" where
  "tl_unclaimed l = (\<forall>x \<in> set (tl_timers l). tm_fired (tl_nodes l (snd x)) \<in> {0, XTC_TIMER_CANCELLED} \<and>
     (tm_cancelled (tl_nodes l (snd x)) \<longrightarrow> is_cancelled l (snd x)))"

lemma heap_inv_cong:
  assumes "heap_inv (h, nd)" "\<And>t. t \<in> snd ` set h \<Longrightarrow> tm_heap_idx (nd' t) = tm_heap_idx (nd t)"
  shows "heap_inv (h, nd')"
  using assms by (auto simp: heap_inv_def indexed_def idx_at_def)

lemma tl_set_inv:
  assumes "tl_inv ext l"
    and "\<And>n. tm_refs (f n) = tm_refs n" "\<And>n. tm_deadline_ns (f n) = tm_deadline_ns n"
      "\<And>n. tm_heap_idx (f n) = tm_heap_idx n"
  shows "tl_inv ext (tl_set l t f)"
proof -
  let ?l = "tl_set l t f"
  have n: "tm_heap_idx (tl_nodes ?l u) = tm_heap_idx (tl_nodes l u)" "tm_refs (tl_nodes ?l u) = tm_refs (tl_nodes l u)"
    "tm_deadline_ns (tl_nodes ?l u) = tm_deadline_ns (tl_nodes l u)" for u
    using assms(2-4) by simp_all
  have i: "in_heap ?l = in_heap l" "owners ext ?l = owners ext l" by (simp_all add: fun_eq_iff in_heap_def owners_def)
  have "heap_inv (tl_timers l, tl_nodes l)" using assms(1) by (simp add: tl_inv_def tl_heap_ok_def)
  then have "heap_inv (tl_timers l, tl_nodes ?l)" by (rule heap_inv_cong) (rule n)
  with assms(1) show ?thesis
    by (simp add: tl_inv_def tl_refs_ok_def tl_heap_ok_def n i del: tl_set_sel(5))
qed

lemma park_release_refs:
  assumes ok: "tl_refs_ok ext l" and t: "0 < ext t"
  shows "tl_refs_ok (ext(t := ext t - 1)) (park_release (Some t) l)"
    "tl_nodes (park_release (Some t) l) = (tl_nodes l)(t := (tl_nodes l t)\<lparr>tm_refs := tm_refs (tl_nodes l t) - 1\<rparr>)"
    "tl_live (park_release (Some t) l) u \<Longrightarrow> tl_live l u"
proof -
  have live: "tl_live l t" and r: "tm_refs (tl_nodes l t) = int (owners ext l t)"
    using ok t by (auto simp: tl_refs_ok_def owners_def)
  have pos: "0 < owners ext l t" using t by (simp add: owners_def)
  have ow: "owners (ext(t := ext t - 1)) (park_release (Some t) l) u =
      (if u = t then owners ext l t - 1 else owners ext l u)" for u
    using t by (simp add: owners_def in_heap_def)
  show nd: "tl_nodes (park_release (Some t) l) = (tl_nodes l)(t := (tl_nodes l t)\<lparr>tm_refs := tm_refs (tl_nodes l t) - 1\<rparr>)"
    using r pos by (simp add: park_release_def Let_def timer_free_def)
  have lv: "tl_live (park_release (Some t) l) u = (if u = t then owners ext l t \<noteq> 1 else tl_live l u)" for u
    using r pos live by (simp add: park_release_def Let_def timer_free_def)
  then show "tl_live (park_release (Some t) l) u \<Longrightarrow> tl_live l u" using live by (simp split: if_splits)
  show "tl_refs_ok (ext(t := ext t - 1)) (park_release (Some t) l)"
    unfolding tl_refs_ok_def
  proof
    fix u
    have "(tl_live l u \<longleftrightarrow> 0 < owners ext l u) \<and> (tl_live l u \<longrightarrow> tm_refs (tl_nodes l u) = int (owners ext l u))"
      using ok by (simp add: tl_refs_ok_def)
    then show "(tl_live (park_release (Some t) l) u \<longleftrightarrow> 0 < owners (ext(t := ext t - 1)) (park_release (Some t) l) u) \<and>
      (tl_live (park_release (Some t) l) u \<longrightarrow> tm_refs (tl_nodes (park_release (Some t) l) u) =
        int (owners (ext(t := ext t - 1)) (park_release (Some t) l) u))"
      unfolding ow nd lv using r pos by (cases "u = t") auto
  qed
qed

lemma park_release_inv:
  assumes inv: "tl_inv ext l" and t: "0 < ext t"
  shows "tl_inv (ext(t := ext t - 1)) (park_release (Some t) l)"
proof -
  let ?l = "park_release (Some t) l"
  from inv have "tl_refs_ok ext l" by (simp add: tl_inv_def)
  note p = park_release_refs [OF this t]
  have ih: "in_heap ?l u = in_heap l u" for u by (simp add: in_heap_def)
  have n: "tm_heap_idx (tl_nodes ?l u) = tm_heap_idx (tl_nodes l u)"
      "tm_deadline_ns (tl_nodes ?l u) = tm_deadline_ns (tl_nodes l u)" for u by (simp_all add: p(2))
  have "heap_inv (tl_timers l, tl_nodes l)" using inv by (simp add: tl_inv_def tl_heap_ok_def)
  then have "heap_inv (tl_timers l, tl_nodes ?l)" by (rule heap_inv_cong) (rule n)
  then show ?thesis using inv p(1,3) by (simp add: tl_inv_def tl_heap_ok_def n ih)
qed

text \<open>A removal passes the heap's reference to whoever removed the node.\<close>

lemma removed_inv:
  assumes inv: "tl_inv ext l" and r: "heap_removed (tl_timers l) (tl_nodes l) i q"
  defines "t \<equiv> snd (tl_timers l ! i)"
  shows "tl_inv (ext(t := Suc (ext t))) (tl_with l q)" "\<not> in_heap (tl_with l q) t"
    "set (tl_timers l) = insert (tl_timers l ! i) (set (fst q))"
    "in_heap l t"
proof -
  let ?h = "tl_timers l" and ?l = "tl_with l q"
  from r have m: "mset ?h = add_mset (?h ! i) (mset (fst q))"
    and fr: "idx_frame (snd ` set ?h) (tl_nodes l) (snd q)" and hi: "heap_inv q"
    and out: "tm_heap_idx (snd q t) = - 1" by (auto simp: heap_removed_def t_def)
  from m show s: "set ?h = insert (?h ! i) (set (fst q))" by (metis set_mset_mset set_mset_add_mset_insert)
  have "distinct (map snd ?h)" using inv by (simp add: tl_inv_def tl_heap_ok_def heap_inv_def indexed_def)
  moreover have "mset (?h ! i # fst q) = mset ?h" using m by simp
  ultimately have "distinct (map snd (?h ! i # fst q))" using distinct_snd_mset by blast
  then have nin: "t \<notin> snd ` set (fst q)" by (simp add: t_def)
  then show nt: "\<not> in_heap ?l t" by (simp add: in_heap_def)
  show it: "in_heap l t" using s by (simp add: in_heap_def t_def)
  have ih: "in_heap l u = (u = t \<or> in_heap ?l u)" for u
    using s by (auto simp: in_heap_def t_def)
  have ow: "owners (ext(t := Suc (ext t))) ?l u = owners ext l u" for u
    using ih nt by (auto simp: owners_def)
  note ff = idx_frame_fields [OF fr]
  have "tl_refs_ok (ext(t := Suc (ext t))) ?l"
    using inv by (simp add: tl_inv_def tl_refs_ok_def ow ff)
  moreover have "length (fst q) \<le> tl_cap l"
    using inv arg_cong [OF m, of size] by (simp add: tl_inv_def tl_heap_ok_def)
  moreover have "tm_heap_idx (snd q u) = - 1" if "tl_live l u" "\<not> in_heap ?l u" for u
  proof (cases "u = t")
    case False
    with that ih have "\<not> in_heap l u" by simp
    with inv that ff(8) show ?thesis by (simp add: tl_inv_def tl_heap_ok_def in_heap_def)
  qed (simp add: out)
  ultimately show "tl_inv (ext(t := Suc (ext t))) ?l"
    using inv hi s by (simp add: tl_inv_def tl_heap_ok_def ff)
qed

section \<open>The sweep\<close>

text \<open>What heap maintenance leaves alone: everything of a node but its index and its count.\<close>

definition node_sig :: "xtc_timer \<Rightarrow> xtc_timer" where
  "node_sig n = n\<lparr>tm_heap_idx := 0, tm_refs := 0\<rparr>"

lemma node_sig_fired: "node_sig (n\<lparr>tm_fired := v\<rparr>) = (node_sig n)\<lparr>tm_fired := v\<rparr>"
  by (cases n) (simp add: node_sig_def)

definition tl_frame :: "timer_loop \<Rightarrow> timer_loop \<Rightarrow> bool" where
  "tl_frame l l' = ((\<forall>t. node_sig (tl_nodes l' t) = node_sig (tl_nodes l t)) \<and>
     tl_park l' = tl_park l \<and> tl_woken l' = tl_woken l)"

lemma tl_frame_refl [simp]: "tl_frame l l"
  by (simp add: tl_frame_def)

lemma tl_frame_trans: "tl_frame a b \<Longrightarrow> tl_frame b c \<Longrightarrow> tl_frame a c"
  by (simp add: tl_frame_def)

lemma tl_frame_fields:
  assumes "tl_frame l l'"
  shows "tm_deadline_ns (tl_nodes l' t) = tm_deadline_ns (tl_nodes l t)"
    "tm_fired (tl_nodes l' t) = tm_fired (tl_nodes l t)"
    "tm_cancelled (tl_nodes l' t) = tm_cancelled (tl_nodes l t)"
    "tm_from_slab (tl_nodes l' t) = tm_from_slab (tl_nodes l t)"
    "tm_waiter (tl_nodes l' t) = tm_waiter (tl_nodes l t)"
    "tm_sim_late (tl_nodes l' t) = tm_sim_late (tl_nodes l t)"
proof -
  from assms have e: "node_sig (tl_nodes l' t) = node_sig (tl_nodes l t)" by (simp add: tl_frame_def)
  show "tm_deadline_ns (tl_nodes l' t) = tm_deadline_ns (tl_nodes l t)"
    using arg_cong [OF e, of tm_deadline_ns] by (simp add: node_sig_def)
  show "tm_fired (tl_nodes l' t) = tm_fired (tl_nodes l t)"
    using arg_cong [OF e, of tm_fired] by (simp add: node_sig_def)
  show "tm_cancelled (tl_nodes l' t) = tm_cancelled (tl_nodes l t)"
    using arg_cong [OF e, of tm_cancelled] by (simp add: node_sig_def)
  show "tm_from_slab (tl_nodes l' t) = tm_from_slab (tl_nodes l t)"
    using arg_cong [OF e, of tm_from_slab] by (simp add: node_sig_def)
  show "tm_waiter (tl_nodes l' t) = tm_waiter (tl_nodes l t)"
    using arg_cong [OF e, of tm_waiter] by (simp add: node_sig_def)
  show "tm_sim_late (tl_nodes l' t) = tm_sim_late (tl_nodes l t)"
    using arg_cong [OF e, of tm_sim_late] by (simp add: node_sig_def)
qed

lemma idx_frame_tl: "idx_frame S (tl_nodes l) (snd q) \<Longrightarrow> tl_frame l (tl_with l q)"
proof -
  assume a: "idx_frame S (tl_nodes l) (snd q)"
  have "node_sig (snd q t) = node_sig (tl_nodes l t)" for t
  proof -
    from a have "(snd q t)\<lparr>tm_heap_idx := 0\<rparr> = (tl_nodes l t)\<lparr>tm_heap_idx := 0\<rparr>"
      by (simp add: idx_frame_def)
    from arg_cong [OF this, of node_sig] show ?thesis by (simp add: node_sig_def)
  qed
  then show ?thesis by (simp add: tl_frame_def tl_with_def)
qed

lemma tl_frame_set: "(\<And>n. node_sig (f n) = node_sig n) \<Longrightarrow> tl_frame l (tl_set l t f)"
  by (simp add: tl_frame_def tl_set_def)

lemma tl_frame_release: "tl_frame l (park_release p l)"
  by (auto simp: tl_frame_def park_release_def Let_def timer_free_def tl_set_def node_sig_def
      split: option.split)

text \<open>The state between two rounds of the scan, the slots \<open>kept\<close> compacted and \<open>xs\<close> still to come.\<close>

definition scan_ok :: "(nat \<Rightarrow> nat) \<Rightarrow> timer_slot list \<Rightarrow> timer_slot list \<Rightarrow> timer_loop \<Rightarrow> bool" where
  "scan_ok ext kept xs l = (tl_refs_ok ext (l\<lparr>tl_timers := kept @ xs\<rparr>) \<and>
     distinct (map snd (kept @ xs)) \<and>
     (\<forall>t. tl_live l t \<longrightarrow> t \<notin> snd ` set (kept @ xs) \<longrightarrow> tm_heap_idx (tl_nodes l t) = - 1) \<and>
     (\<forall>j < length kept. idx_at kept (tl_nodes l) j))"

lemma snd_nth_neq: "t \<notin> snd ` set h \<Longrightarrow> j < length h \<Longrightarrow> snd (h ! j) \<noteq> t"
  by (metis image_eqI nth_mem)

lemma scan_keep:
  assumes "scan_ok ext kept (x # xs) l"
  shows "scan_ok ext (kept @ [x]) xs (tl_set l (snd x) (\<lambda>n. n\<lparr>tm_heap_idx := int (length kept)\<rparr>))"
proof -
  let ?l = "tl_set l (snd x) (\<lambda>n. n\<lparr>tm_heap_idx := int (length kept)\<rparr>)"
  have d: "snd x \<notin> snd ` set kept" using assms by (auto simp: scan_ok_def)
  have "idx_at (kept @ [x]) (tl_nodes ?l) j" if "j < Suc (length kept)" for j
  proof (cases "j = length kept")
    case False
    with that have j: "j < length kept" by simp
    with assms have "idx_at kept (tl_nodes l) j" by (simp add: scan_ok_def)
    with j snd_nth_neq [OF d j] show ?thesis by (simp add: idx_at_def nth_append)
  qed (simp add: idx_at_def)
  moreover have "tl_refs_ok ext (?l\<lparr>tl_timers := kept @ x # xs\<rparr>)"
    using assms by (simp add: scan_ok_def tl_refs_ok_def owners_def in_heap_def)
  moreover have "tm_heap_idx (tl_nodes ?l u) = - 1"
    if "tl_live l u" "u \<notin> snd ` set (kept @ x # xs)" for u
    using assms that by (simp add: scan_ok_def)
  ultimately show ?thesis using assms by (simp add: scan_ok_def)
qed

lemma scan_drop:
  assumes s: "scan_ok ext kept (x # xs) l"
  shows "scan_ok ext kept xs
    (park_release (Some (snd x)) (tl_set l (snd x) (\<lambda>n. n\<lparr>tm_heap_idx := - 1\<rparr>)))"
proof -
  let ?t = "snd x"
  let ?l = "(tl_set l ?t (\<lambda>n. n\<lparr>tm_heap_idx := - 1\<rparr>))\<lparr>tl_timers := kept @ xs\<rparr>"
  let ?r = "park_release (Some ?t) (tl_set l ?t (\<lambda>n. n\<lparr>tm_heap_idx := - 1\<rparr>))"
  have d: "?t \<notin> snd ` set kept" "?t \<notin> snd ` set xs" using s by (auto simp: scan_ok_def)
  have "tl_refs_ok (ext(?t := Suc (ext ?t))) ?l"
    using s d by (auto simp: scan_ok_def tl_refs_ok_def owners_def in_heap_def)
  note p = park_release_refs [OF this, of ?t]
  have r: "park_release (Some ?t) ?l = ?r\<lparr>tl_timers := kept @ xs\<rparr>"
    by (simp add: park_release_def Let_def timer_free_def tl_set_def)
  have nr: "tl_nodes ?r = (tl_nodes ?l)(?t := (tl_nodes ?l ?t)\<lparr>tm_refs := tm_refs (tl_nodes ?l ?t) - 1\<rparr>)"
    using p(2) by (simp add: r)
  have "tl_refs_ok ext (?r\<lparr>tl_timers := kept @ xs\<rparr>)" using p(1) by (simp add: r)
  moreover have "tm_heap_idx (tl_nodes ?r u) = (if u = ?t then - 1 else tm_heap_idx (tl_nodes l u))" for u
    by (simp add: nr)
  moreover have "tl_live l u" if "tl_live ?r u" for u
    using p(3) [of u] that by (simp add: r)
  moreover have "snd (kept ! j) \<noteq> ?t" if "j < length kept" for j
    by (rule snd_nth_neq [OF d(1) that])
  ultimately show ?thesis using s by (auto simp: scan_ok_def idx_at_def)
qed

definition uncancelled :: "timer_loop \<Rightarrow> timer_slot list \<Rightarrow> timer_slot list" where
  "uncancelled l xs = filter (\<lambda>x. \<not> is_cancelled l (snd x)) xs"

lemma uncancelled_frame: "tl_frame l l' \<Longrightarrow> uncancelled l' xs = uncancelled l xs"
  by (simp add: uncancelled_def is_cancelled_def tl_frame_fields)

lemma sweep_scan_ok:
  "scan_ok ext kept xs l \<Longrightarrow>
    scan_ok ext (kept @ uncancelled l xs) [] (sweep_scan kept xs l) \<and>
    tl_timers (sweep_scan kept xs l) = kept @ uncancelled l xs \<and>
    tl_cap (sweep_scan kept xs l) = tl_cap l \<and> tl_frame l (sweep_scan kept xs l)"
proof (induction kept xs l rule: sweep_scan.induct)
  case (1 kept l)
  have "tl_frame l (l\<lparr>tl_timers := kept\<rparr>)" by (simp add: tl_frame_def)
  moreover have "scan_ok ext kept [] (l\<lparr>tl_timers := kept\<rparr>)" using 1 by (simp add: scan_ok_def)
  ultimately show ?case by (simp add: uncancelled_def)
next
  case (2 kept x xs l)
  show ?case
  proof (cases "is_cancelled l (snd x)")
    case True
    let ?l = "park_release (Some (snd x)) (tl_set l (snd x) (\<lambda>n. n\<lparr>tm_heap_idx := - 1\<rparr>))"
    have f: "tl_frame l ?l"
      by (rule tl_frame_trans [OF tl_frame_set tl_frame_release]) (simp add: node_sig_def)
    from 2(1) [OF True scan_drop [OF 2(3)]] True f uncancelled_frame [OF f] show ?thesis
      by (simp add: uncancelled_def) (blast intro: tl_frame_trans)
  next
    case False
    let ?l = "tl_set l (snd x) (\<lambda>n. n\<lparr>tm_heap_idx := int (length kept)\<rparr>)"
    have f: "tl_frame l ?l" by (rule tl_frame_set) (simp add: node_sig_def)
    from 2(2) [OF False scan_keep [OF 2(3)]] False f uncancelled_frame [OF f] show ?thesis
      by (simp add: uncancelled_def) (blast intro: tl_frame_trans)
  qed
qed

lemma sweep_cancelled_ok:
  assumes inv: "tl_inv ext l"
  defines "r \<equiv> sweep_cancelled l"
  shows "tl_inv ext r" "mset (tl_timers r) = mset (uncancelled l (tl_timers l))"
    "tl_cap r = tl_cap l" "tl_frame l r"
proof -
  let ?s = "sweep_scan [] (tl_timers l) l"
  let ?q = "heap_rebuild (length (tl_timers ?s) div 2) (tl_timers ?s, tl_nodes ?s)"
  have "scan_ok ext [] (tl_timers l) l"
    using inv by (simp add: scan_ok_def tl_inv_def tl_heap_ok_def heap_inv_def indexed_def in_heap_def)
  from sweep_scan_ok [OF this]
  have s: "scan_ok ext (tl_timers ?s) [] ?s" "tl_timers ?s = uncancelled l (tl_timers l)"
    "tl_cap ?s = tl_cap l" "tl_frame l ?s" by simp_all
  have r: "r = tl_with ?s ?q" by (simp add: r_def sweep_cancelled_def Let_def)
  have ix: "indexed (tl_timers ?s) (tl_nodes ?s)" using s(1) by (simp add: indexed_def scan_ok_def)
  have "length (tl_timers ?s) div 2 \<le> length (tl_timers ?s)" by simp
  from heap_rebuild_ok [OF ix heap_from_half this]
  have q: "heap_inv ?q" "mset (fst ?q) = mset (tl_timers ?s)"
    "idx_frame (snd ` set (tl_timers ?s)) (tl_nodes ?s) (snd ?q)" by auto
  then have st: "set (fst ?q) = set (tl_timers ?s)" by (metis set_mset_mset)
  note ff = idx_frame_fields [OF q(3)]
  show fr: "tl_frame l r" unfolding r by (rule tl_frame_trans [OF s(4) idx_frame_tl [OF q(3)]])
  show "mset (tl_timers r) = mset (uncancelled l (tl_timers l))" using q(2) s(2) by (simp add: r)
  show c: "tl_cap r = tl_cap l" using s(3) by (simp add: r)
  have "length (fst ?q) = length (uncancelled l (tl_timers l))" using q(2) s(2) by (metis size_mset)
  also have "\<dots> \<le> length (tl_timers l)" by (simp add: uncancelled_def)
  also have "\<dots> \<le> tl_cap l" using inv by (simp add: tl_inv_def tl_heap_ok_def)
  finally have len: "length (tl_timers r) \<le> tl_cap r" using c by (simp add: r)
  have ih: "in_heap r t = (t \<in> snd ` set (tl_timers ?s))" for t by (simp add: in_heap_def r st)
  have "tl_refs_ok ext r"
    using s(1) by (simp add: scan_ok_def tl_refs_ok_def owners_def ih in_heap_def r ff st)
  moreover have "fst x = tm_deadline_ns (tl_nodes r (snd x))" if "x \<in> set (tl_timers r)" for x
  proof -
    from that have "x \<in> set (tl_timers ?s)" by (simp add: r st)
    then have "x \<in> set (tl_timers l)" by (simp add: s(2) uncancelled_def)
    with inv tl_frame_fields(1) [OF fr] show ?thesis by (simp add: tl_inv_def tl_heap_ok_def)
  qed
  moreover have "tm_heap_idx (tl_nodes r t) = - 1" if "tl_live r t" "\<not> in_heap r t" for t
  proof -
    from that(2) have n: "t \<notin> snd ` set (tl_timers ?s)" by (simp add: ih)
    from s(1) that(1) n ff(8) [OF n] show ?thesis by (simp add: scan_ok_def r)
  qed
  ultimately show "tl_inv ext r" using q(1) len by (simp add: tl_inv_def tl_heap_ok_def r)
qed

section \<open>Push\<close>

lemma timer_grow_ok:
  assumes "tl_inv ext l"
  shows "tl_inv ext (snd (timer_grow rc l))" "tl_frame l (snd (timer_grow rc l))"
    "tl_timers (snd (timer_grow rc l)) = tl_timers l"
    "fst (timer_grow rc l) = rc"
    "rc = XTC_OK \<Longrightarrow> length (tl_timers l) < tl_cap (snd (timer_grow rc l))"
  using assms
  by (auto simp: timer_grow_def tl_inv_def tl_refs_ok_def tl_heap_ok_def owners_def in_heap_def tl_frame_def)

lemma heap_make_room_ok:
  fixes rc :: xtc_err
  assumes inv: "tl_inv ext l"
  defines "r \<equiv> snd (heap_make_room rc l)"
  shows "tl_inv ext r" "tl_frame l r"
    "fst (heap_make_room rc l) = XTC_OK \<Longrightarrow> length (tl_timers r) < tl_cap r"
    "set (tl_timers r) \<subseteq> set (tl_timers l)"
    "\<And>x. x \<in> set (tl_timers l) \<Longrightarrow> \<not> is_cancelled l (snd x) \<Longrightarrow> x \<in> set (tl_timers r)"
proof -
  let ?l = "if tl_timers l \<noteq> [] then sweep_cancelled l else l"
  note sw = sweep_cancelled_ok [OF inv]
  have sws: "set (tl_timers (sweep_cancelled l)) = set (uncancelled l (tl_timers l))"
    using sw(2) by (metis set_mset_mset)
  have i: "tl_inv ext ?l" "tl_frame l ?l" "tl_cap ?l = tl_cap l" using inv sw by simp_all
  have st: "set (tl_timers ?l) = set (uncancelled l (tl_timers l))" using sws by (simp add: uncancelled_def)
  note g = timer_grow_ok [OF i(1), of rc]
  have r: "r = (if tl_cap l \<le> length (tl_timers l) then
      if tl_cap ?l = 0 \<or> tl_cap ?l div 2 < length (tl_timers ?l) then snd (timer_grow rc ?l) else ?l
    else l)"
    by (simp add: r_def heap_make_room_def Let_def)
  show "tl_inv ext r" using inv i(1) g(1) by (simp add: r)
  show "tl_frame l r" using i(2) tl_frame_trans [OF i(2) g(2)] by (simp add: r)
  show "set (tl_timers r) \<subseteq> set (tl_timers l)" using st g(3) by (auto simp: r uncancelled_def)
  show "\<And>x. x \<in> set (tl_timers l) \<Longrightarrow> \<not> is_cancelled l (snd x) \<Longrightarrow> x \<in> set (tl_timers r)"
    using st g(3) by (auto simp: r uncancelled_def)
  show "length (tl_timers r) < tl_cap r" if "fst (heap_make_room rc l) = XTC_OK"
  proof (cases "tl_cap l \<le> length (tl_timers l)")
    case True
    show ?thesis
    proof (cases "tl_cap ?l = 0 \<or> tl_cap ?l div 2 < length (tl_timers ?l)")
      case c: True
      with True that have "rc = XTC_OK" using g(4) by (simp add: heap_make_room_def Let_def)
      with True c g(3,5) show ?thesis by (simp add: r)
    next
      case False
      then have "length (tl_timers ?l) \<le> tl_cap ?l div 2" "0 < tl_cap ?l" by auto
      then have "length (tl_timers ?l) < tl_cap ?l" by linarith
      moreover have "r = ?l" using True False by (simp only: r if_True if_False)
      ultimately show ?thesis by simp
    qed
  qed (simp add: r)
qed

lemma push_inv:
  assumes inv: "tl_inv (ext(t := Suc (ext t))) l" and t: "\<not> in_heap l t"
    and room: "length (tl_timers l) < tl_cap l"
  defines "r \<equiv> tl_with l (heap_push_slots (tm_deadline_ns (tl_nodes l t), t) (tl_timers l, tl_nodes l))"
  shows "tl_inv ext r" "mset (tl_timers r) = add_mset (tm_deadline_ns (tl_nodes l t), t) (mset (tl_timers l))"
    "tl_frame l r"
proof -
  let ?x = "(tm_deadline_ns (tl_nodes l t), t)"
  let ?q = "heap_push_slots ?x (tl_timers l, tl_nodes l)"
  have "heap_inv (tl_timers l, tl_nodes l)" "snd ?x \<notin> snd ` set (tl_timers l)"
    using inv t by (simp_all add: tl_inv_def tl_heap_ok_def in_heap_def)
  note q = heap_push_slots_ok [OF this]
  note ff = idx_frame_fields [OF q(3)]
  show m: "mset (tl_timers r) = add_mset ?x (mset (tl_timers l))" using q(2) by (simp add: r_def)
  then have st: "set (tl_timers r) = insert ?x (set (tl_timers l))"
    by (metis set_mset_mset set_mset_add_mset_insert)
  have ih: "in_heap r u = (u = t \<or> in_heap l u)" for u by (simp add: in_heap_def st)
  have ow: "owners ext r u = owners (ext(t := Suc (ext t))) l u" for u
    using t by (simp add: owners_def ih)
  have nd: "tl_nodes r = snd ?q" by (simp add: r_def)
  have "length (tl_timers r) = Suc (length (tl_timers l))" using arg_cong [OF m, of size] by simp
  then have len: "length (tl_timers r) \<le> tl_cap r" using room by (simp add: r_def)
  have "tl_refs_ok ext r" using inv by (simp add: tl_inv_def tl_refs_ok_def ow ff nd) (simp add: r_def)
  moreover have "tm_heap_idx (tl_nodes r u) = - 1" if "tl_live r u" "\<not> in_heap r u" for u
  proof -
    have "u \<notin> insert (snd ?x) (snd ` set (tl_timers l))" using that(2) by (simp add: in_heap_def st)
    from ff(8) [OF this] inv that ih show ?thesis by (simp add: nd tl_inv_def tl_heap_ok_def) (simp add: r_def)
  qed
  moreover have "fst x = tm_deadline_ns (tl_nodes r (snd x))" if "x \<in> set (tl_timers r)" for x
    using that inv by (auto simp: nd ff st tl_inv_def tl_heap_ok_def)
  ultimately show "tl_inv ext r" using q(1) len by (simp add: tl_inv_def tl_heap_ok_def r_def)
  show "tl_frame l r" unfolding r_def by (rule idx_frame_tl [OF q(3)])
qed

lemma timer_heap_push_ok:
  fixes rc :: xtc_err
  assumes inv: "tl_inv (ext(t := Suc (ext t))) l" and t: "\<not> in_heap l t"
  defines "p \<equiv> timer_heap_push rc t l"
  shows "fst p \<noteq> XTC_OK \<Longrightarrow> tl_inv (ext(t := Suc (ext t))) (snd p) \<and> \<not> in_heap (snd p) t \<and> tl_frame l (snd p)"
    "fst p = XTC_OK \<Longrightarrow> tl_inv ext (snd p) \<and>
       set (tl_timers (snd p)) \<subseteq> insert (tm_deadline_ns (tl_nodes l t), t) (set (tl_timers l)) \<and>
       in_heap (snd p) t \<and>
       tl_frame (if tm_fired (tl_nodes l t) = XTC_TIMER_FIRED then tl_set l t (\<lambda>n. n\<lparr>tm_fired := 0\<rparr>) else l) (snd p)"
    "x \<in> set (tl_timers l) \<Longrightarrow> \<not> is_cancelled l (snd x) \<Longrightarrow> x \<in> set (tl_timers (snd p))"
    "set (tl_timers (snd p)) \<subseteq> insert (tm_deadline_ns (tl_nodes l t), t) (set (tl_timers l))"
proof -
  let ?m = "snd (heap_make_room rc l)" and ?z = "\<lambda>n :: xtc_timer. n\<lparr>tm_fired := 0\<rparr>"
  note m = heap_make_room_ok [OF inv, where rc = rc]
  note mf = tl_frame_fields [OF m(2)]
  have mt: "\<not> in_heap ?m t" using t m(4) by (auto simp: in_heap_def)
  define l2 where "l2 = (if tm_fired (tl_nodes ?m t) = XTC_TIMER_FIRED then tl_set ?m t ?z else ?m)"
  have i2: "tl_inv (ext(t := Suc (ext t))) l2"
    using m(1) tl_set_inv [OF m(1), of ?z t] by (simp add: l2_def)
  have t2: "tl_timers l2 = tl_timers ?m" "tl_cap l2 = tl_cap ?m" "\<not> in_heap l2 t"
    "tm_deadline_ns (tl_nodes l2 t) = tm_deadline_ns (tl_nodes l t)"
    using mt mf(1) by (simp_all add: l2_def in_heap_def)
  have f2: "tl_frame (if tm_fired (tl_nodes l t) = XTC_TIMER_FIRED then tl_set l t ?z else l) l2"
  proof -
    have "node_sig (?z (tl_nodes ?m t)) = node_sig (?z (tl_nodes l t))"
    proof -
      have "node_sig (tl_nodes ?m t) = node_sig (tl_nodes l t)" using m(2) by (simp add: tl_frame_def)
      then show ?thesis by (simp add: node_sig_fired)
    qed
    then show ?thesis using m(2) mf(2) by (simp add: l2_def tl_frame_def tl_set_def)
  qed
  show "tl_inv (ext(t := Suc (ext t))) (snd p) \<and> \<not> in_heap (snd p) t \<and> tl_frame l (snd p)" if "fst p \<noteq> XTC_OK"
    using that m(1,2) mt by (simp add: p_def timer_heap_push_def Let_def split_beta split: if_splits)
  let ?r = "tl_with l2 (heap_push_slots (tm_deadline_ns (tl_nodes l2 t), t) (tl_timers l2, tl_nodes l2))"
  have ok: "fst (heap_make_room rc l) = XTC_OK" "snd p = ?r" if "fst p = XTC_OK"
    using that by (simp_all add: p_def timer_heap_push_def Let_def split_beta l2_def split: if_splits)
  have pr: "tl_inv ext ?r" "set (tl_timers ?r) = insert (tm_deadline_ns (tl_nodes l t), t) (set (tl_timers ?m))"
      "tl_frame l2 ?r" if "fst p = XTC_OK"
  proof -
    have "length (tl_timers l2) < tl_cap l2" using m(3) [OF ok(1) [OF that]] t2 by simp
    note q = push_inv [OF i2 t2(3) this]
    show "tl_inv ext ?r" "tl_frame l2 ?r" by (rule q(1), rule q(3))
    show "set (tl_timers ?r) = insert (tm_deadline_ns (tl_nodes l t), t) (set (tl_timers ?m))"
      using arg_cong [OF q(2), of set_mset] t2 by simp
  qed
  show "tl_inv ext (snd p) \<and>
       set (tl_timers (snd p)) \<subseteq> insert (tm_deadline_ns (tl_nodes l t), t) (set (tl_timers l)) \<and>
       in_heap (snd p) t \<and>
       tl_frame (if tm_fired (tl_nodes l t) = XTC_TIMER_FIRED then tl_set l t ?z else l) (snd p)"
    if "fst p = XTC_OK"
    using pr [OF that] m(4) tl_frame_trans [OF f2 pr(3) [OF that]] ok(2) [OF that]
    by (auto simp: in_heap_def)
  have fail: "snd p = ?m" if "fst p \<noteq> XTC_OK"
    using that by (simp add: p_def timer_heap_push_def Let_def split_beta split: if_splits)
  show "x \<in> set (tl_timers (snd p))" if "x \<in> set (tl_timers l)" "\<not> is_cancelled l (snd x)"
    using pr(2) m(5) [OF that] ok(2) fail by (cases "fst p = XTC_OK") auto
  show "set (tl_timers (snd p)) \<subseteq> insert (tm_deadline_ns (tl_nodes l t), t) (set (tl_timers l))"
  proof (cases "fst p = XTC_OK")
    case True
    with pr(2) ok(2) m(4) show ?thesis by auto
  next
    case False
    with fail m(4) show ?thesis by auto
  qed
qed

section \<open>Pop\<close>

lemma heap_pop_ok:
  assumes inv: "tl_inv ext l" and ne: "tl_timers l \<noteq> []"
  defines "t \<equiv> snd (tl_timers l ! 0)" and "r \<equiv> snd (heap_pop l)"
  shows "fst (heap_pop l) = Some t" "tl_inv (ext(t := Suc (ext t))) r" "\<not> in_heap r t"
    "set (tl_timers l) = insert (tl_timers l ! 0) (set (tl_timers r))" "tl_frame l r"
proof -
  let ?q = "heap_pop_slots (tl_timers l, tl_nodes l)"
  from inv have "heap_inv (tl_timers l, tl_nodes l)" by (simp add: tl_inv_def tl_heap_ok_def)
  from heap_pop_slots_ok [OF this ne] have rm: "heap_removed (tl_timers l) (tl_nodes l) 0 ?q" .
  have r: "r = tl_with l ?q" using ne by (simp add: r_def heap_pop_def)
  show "fst (heap_pop l) = Some t" using ne by (simp add: heap_pop_def t_def)
  from removed_inv [OF inv rm] show "tl_inv (ext(t := Suc (ext t))) r" "\<not> in_heap r t"
    "set (tl_timers l) = insert (tl_timers l ! 0) (set (tl_timers r))"
    by (simp_all add: r t_def)
  from rm show "tl_frame l r" unfolding r heap_removed_def by (blast intro: idx_frame_tl)
qed

lemma unclaimed_frame:
  "tl_frame l r \<Longrightarrow> set (tl_timers r) \<subseteq> set (tl_timers l) \<Longrightarrow> tl_unclaimed l \<Longrightarrow> tl_unclaimed r"
  by (auto simp: tl_unclaimed_def is_cancelled_def tl_frame_fields)

text \<open>Dropping the root, as the pop and the peek do with a cancelled one.\<close>

lemma drop_root_ok:
  assumes inv: "tl_inv ext l" and top: "heap_top l = Some t"
  defines "r \<equiv> park_release (Some t) (snd (heap_pop l))"
  shows "tl_inv ext r" "set (tl_timers l) = insert (tl_timers l ! 0) (set (tl_timers r))"
    "tl_frame l r" "\<not> in_heap r t" "snd (tl_timers l ! 0) = t" "tl_unclaimed l \<Longrightarrow> tl_unclaimed r"
proof -
  from top have ne: "tl_timers l \<noteq> []" and t: "t = snd (tl_timers l ! 0)"
    by (auto simp: heap_top_def split: if_splits)
  note p = heap_pop_ok [OF inv ne, folded t]
  from park_release_inv [OF p(2), of t] show "tl_inv ext r" by (simp add: r_def)
  show st: "set (tl_timers l) = insert (tl_timers l ! 0) (set (tl_timers r))" using p(4) by (simp add: r_def)
  show fr: "tl_frame l r" unfolding r_def by (rule tl_frame_trans [OF p(5) tl_frame_release])
  show "\<not> in_heap r t" using p(3) by (simp add: r_def in_heap_def)
  show "snd (tl_timers l ! 0) = t" by (simp add: t)
  show "tl_unclaimed r" if "tl_unclaimed l" using st by (intro unclaimed_frame [OF fr _ that]) auto
qed

text \<open>The slots a pop may return: not cancelled, and not claimed by a racing cancel.\<close>

definition poppable :: "(nat \<Rightarrow> bool) \<Rightarrow> timer_loop \<Rightarrow> timer_slot set" where
  "poppable race l = {x \<in> set (tl_timers l). \<not> is_cancelled l (snd x) \<and> \<not> race (snd x)}"

text \<open>What a pop keeps of every node and task.\<close>

definition pop_same :: "timer_loop \<Rightarrow> timer_loop \<Rightarrow> bool" where
  "pop_same l l' = (tl_park l' = tl_park l \<and> (\<forall>u. tm_deadline_ns (tl_nodes l' u) = tm_deadline_ns (tl_nodes l u)))"

lemma pop_same_trans: "pop_same a b \<Longrightarrow> pop_same b c \<Longrightarrow> pop_same a c"
  by (simp add: pop_same_def)

lemma frame_pop_same: "tl_frame l l' \<Longrightarrow> pop_same l l'"
  by (simp add: pop_same_def tl_frame_fields) (simp add: tl_frame_def)

definition pop_post :: "(nat \<Rightarrow> bool) \<Rightarrow> int \<Rightarrow> (nat \<Rightarrow> nat) \<Rightarrow> timer_loop \<Rightarrow> nat option \<times> timer_loop \<Rightarrow> bool" where
  "pop_post race now_ns ext l p = (tl_unclaimed (snd p) \<and> pop_same l (snd p) \<and> (case fst p of
     None \<Rightarrow> tl_inv ext (snd p) \<and> (\<forall>x \<in> poppable race l. now_ns < fst x) \<and>
       poppable race (snd p) = poppable race l
   | Some t \<Rightarrow> tl_inv (ext(t := Suc (ext t))) (snd p) \<and> \<not> in_heap (snd p) t \<and>
       (\<exists>d \<le> now_ns. (d, t) \<in> poppable race l \<and> (\<forall>x \<in> poppable race l. d \<le> fst x) \<and>
          poppable race (snd p) = poppable race l - {(d, t)}) \<and>
       tm_fired (tl_nodes (snd p) t) = XTC_TIMER_FIRED \<and> \<not> tm_cancelled (tl_nodes (snd p) t)))"

lemma pop_post_cong:
  assumes "poppable race l' = poppable race l" "pop_same l l'" "pop_post race n ext l' p"
  shows "pop_post race n ext l p"
  using assms(1,3) pop_same_trans [OF assms(2)] unfolding pop_post_def by (simp split: option.splits)

lemma heap_root_least:
  assumes "tl_inv ext l" "x \<in> set (tl_timers l)"
  shows "fst (tl_timers l ! 0) \<le> fst x"
proof -
  from assms(2) obtain j where "j < length (tl_timers l)" "x = tl_timers l ! j"
    by (auto simp: in_set_conv_nth)
  with assms(1) heap_root_min [of "tl_timers l" j] show ?thesis
    by (simp add: tl_inv_def tl_heap_ok_def heap_inv_def key_def)
qed

lemma timer_mark_ok:
  assumes "tl_inv ext l"
  shows "tl_inv ext (timer_mark l t)" "tl_unclaimed l \<Longrightarrow> tl_unclaimed (timer_mark l t)"
    "race t \<Longrightarrow> poppable race (timer_mark l t) = poppable race l"
    "is_cancelled (timer_mark l t) u = (u = t \<or> is_cancelled l u)"
proof -
  show "tl_inv ext (timer_mark l t)" unfolding timer_mark_def by (rule tl_set_inv [OF assms]) simp_all
  show c: "is_cancelled (timer_mark l t) u = (u = t \<or> is_cancelled l u)" for u
    by (simp add: timer_mark_def is_cancelled_def)
  show "race t \<Longrightarrow> poppable race (timer_mark l t) = poppable race l"
    by (auto simp: poppable_def c)
  show "tl_unclaimed l \<Longrightarrow> tl_unclaimed (timer_mark l t)"
    by (simp add: tl_unclaimed_def timer_mark_def is_cancelled_def)
qed

lemma drop_root_poppable:
  assumes "tl_inv ext l" "heap_top l = Some t" "is_cancelled l t"
  shows "poppable race (park_release (Some t) (snd (heap_pop l))) = poppable race l"
proof -
  note d = drop_root_ok [OF assms(1,2)]
  let ?r = "park_release (Some t) (snd (heap_pop l))"
  have "is_cancelled ?r u = is_cancelled l u" for u
    using d(3) by (simp add: is_cancelled_def tl_frame_fields)
  then show ?thesis using d(2,5) assms(3) by (auto simp: poppable_def)
qed

lemma poppable_pop:
  assumes "set (tl_timers l) = insert x (set (tl_timers r))" "\<not> in_heap r (snd x)"
    and c: "\<And>u. u \<noteq> snd x \<Longrightarrow> is_cancelled r u = is_cancelled l u"
  shows "poppable race r = poppable race l - {x}"
proof (rule set_eqI)
  fix y
  have "snd y \<noteq> snd x" if "y \<in> set (tl_timers r)" using that assms(2) by (metis image_eqI in_heap_def)
  then show "(y \<in> poppable race r) = (y \<in> poppable race l - {x})"
    using assms(1) c [of "snd y"] by (auto simp: poppable_def)
qed

lemma pop_due_post:
  "tl_inv ext l \<Longrightarrow> tl_unclaimed l \<Longrightarrow> pop_post race now_ns ext l (timer_heap_pop_due race now_ns l)"
proof (induction race now_ns l rule: timer_heap_pop_due.induct)
  case (1 race now_ns l)
  note inv = "1.prems"(1) and un = "1.prems"(2)
  show ?case
  proof (cases "heap_top l")
    case None
    then have "tl_timers l = []" by (simp add: heap_top_def split: if_splits)
    with None inv un show ?thesis
      by (subst timer_heap_pop_due.simps) (simp add: pop_post_def pop_same_def poppable_def)
  next
    case (Some t)
    then have ne: "tl_timers l \<noteq> []" and t: "t = snd (tl_timers l ! 0)"
      by (auto simp: heap_top_def split: if_splits)
    have x0: "tl_timers l ! 0 \<in> set (tl_timers l)" using ne by simp
    let ?due = "\<not> fst (tl_timers l ! 0) > now_ns"
    let ?l1 = "if race t \<and> tm_fired (tl_node l t) = 0 then timer_mark l t else l"
    note mk = timer_mark_ok [OF inv, where t = t]
    have l1: "tl_inv ext ?l1" "tl_unclaimed ?l1" "heap_top ?l1 = Some t" "poppable race ?l1 = poppable race l"
      using inv un ne t mk(1,2) mk(3) [where race = race] by (simp_all add: heap_top_def)
    have f0: "tm_fired (tl_node l t) = 0 \<or> is_cancelled l t"
      using un x0 t by (auto simp: tl_unclaimed_def is_cancelled_def)
    consider (canc) "is_cancelled l t" | (later) "\<not> is_cancelled l t" "\<not> ?due"
      | (lost) "\<not> is_cancelled l t" ?due "race t" | (won) "\<not> is_cancelled l t" ?due "\<not> race t" by blast
    then show ?thesis
    proof cases
      case canc
      note d = drop_root_ok [OF inv Some]
      from "1.IH"(1) [OF Some canc d(1) d(6) [OF un]] Some canc show ?thesis
        using drop_root_poppable [OF inv Some canc, of race] frame_pop_same [OF d(3)]
        by (subst timer_heap_pop_due.simps) (auto intro: pop_post_cong)
    next
      case later
      then have "\<forall>x \<in> poppable race l. now_ns < fst x"
        using heap_root_least [OF inv] by (fastforce simp: poppable_def)
      with later Some inv un show ?thesis
        by (subst timer_heap_pop_due.simps) (simp add: pop_post_def pop_same_def)
    next
      case lost
      with f0 have e: "?l1 = timer_mark l t" by simp
      have canc: "is_cancelled ?l1 t" unfolding e using mk(4) by simp
      then have nz: "tm_fired (tl_node ?l1 t) \<noteq> 0" by (simp add: is_cancelled_def)
      note d = drop_root_ok [OF l1(1,3)]
      have ps: "pop_same l ?l1" by (simp add: pop_same_def timer_mark_def)
      have pc: "poppable race (park_release (Some t) (snd (heap_pop ?l1))) = poppable race l"
        using drop_root_poppable [OF l1(1,3) canc, of race] l1(4) by simp
      have "pop_post race now_ns ext l
          (timer_heap_pop_due race now_ns (park_release (Some t) (snd (heap_pop ?l1))))"
        by (rule pop_post_cong [OF pc pop_same_trans [OF ps frame_pop_same [OF d(3)]] "1.IH"(2)]) (use lost Some nz d(1) d(6) [OF l1(2)] in simp_all)
      with lost Some nz show ?thesis by (subst timer_heap_pop_due.simps) (simp add: Let_def)
    next
      case won
      let ?f = "\<lambda>n :: xtc_timer. n\<lparr>tm_fired := XTC_TIMER_FIRED\<rparr>"
      let ?s = "tl_set l t ?f"
      let ?r = "snd (heap_pop ?s)"
      have "tl_inv ext ?s" by (rule tl_set_inv [OF inv]) simp_all
      moreover have "tl_timers ?s \<noteq> []" using ne by simp
      ultimately have p: "fst (heap_pop ?s) = Some t" "tl_inv (ext(t := Suc (ext t))) ?r" "\<not> in_heap ?r t"
        "set (tl_timers l) = insert (tl_timers l ! 0) (set (tl_timers ?r))" "tl_frame ?s ?r"
        using heap_pop_ok [of ext ?s] t by simp_all
      have fr: "tm_fired (tl_node ?r u) = (if u = t then XTC_TIMER_FIRED else tm_fired (tl_node l u))" for u
        using tl_frame_fields(2) [OF p(5), of u] by simp
      have nt: "snd x \<noteq> t" if "x \<in> set (tl_timers ?r)" for x
        using p(3) that by (metis image_eqI in_heap_def)
      have top: "(fst (tl_timers l ! 0), t) = tl_timers l ! 0" using t by simp
      have "poppable race ?r = poppable race l - {(fst (tl_timers l ! 0), t)}"
        unfolding top by (rule poppable_pop [OF p(4)]) (use p(3) t fr in \<open>simp_all add: is_cancelled_def\<close>)
      moreover have "(fst (tl_timers l ! 0), t) \<in> poppable race l"
        unfolding top using won x0 t by (simp add: poppable_def)
      moreover have "fst (tl_timers l ! 0) \<le> fst x" if "x \<in> poppable race l" for x
        using that heap_root_least [OF inv] by (simp add: poppable_def)
      moreover have cr: "tm_cancelled (tl_node ?r u) = tm_cancelled (tl_node l u)" for u
        using tl_frame_fields(3) [OF p(5), of u] by simp
      moreover have "tl_unclaimed ?r"
        using un p(4) nt by (simp add: tl_unclaimed_def fr cr is_cancelled_def)
      moreover have "\<not> tm_cancelled (tl_node l t)" using un x0 won(1) t by (auto simp: tl_unclaimed_def)
      moreover have "pop_same l ?r"
        by (rule pop_same_trans [OF _ frame_pop_same [OF p(5)]]) (simp add: pop_same_def)
      moreover have "timer_heap_pop_due race now_ns l = heap_pop ?s"
        using won Some f0 by (subst timer_heap_pop_due.simps) (simp add: Let_def)
      ultimately show ?thesis using p(1-3) fr [of t] won(2)
        by (simp add: pop_post_def) (metis linorder_not_less)
    qed
  qed
qed

section \<open>Peek, cancel and release\<close>

definition no_race :: "nat \<Rightarrow> bool" where
  "no_race t = False"

lemma next_deadline_ok:
  "tl_inv ext l \<Longrightarrow> tl_unclaimed l \<Longrightarrow>
    (case timer_heap_next_deadline l of (d, r) \<Rightarrow>
       tl_inv ext r \<and> tl_unclaimed r \<and> poppable no_race r = poppable no_race l \<and> pop_same l r \<and>
       (if poppable no_race l = {} then d = - 1
        else d \<in> fst ` poppable no_race l \<and> (\<forall>x \<in> poppable no_race l. d \<le> fst x)))"
proof (induction l rule: timer_heap_next_deadline.induct)
  case (1 l)
  let ?x = "tl_timers l ! 0"
  show ?case
  proof (cases "tl_timers l \<noteq> [] \<and> is_cancelled l (snd ?x)")
    case True
    let ?r = "park_release (Some (snd ?x)) (snd (heap_pop l))"
    have top: "heap_top l = Some (snd ?x)" using True by (simp add: heap_top_def)
    note d = drop_root_ok [OF "1.prems"(1) top]
    have pe: "poppable no_race ?r = poppable no_race l"
      using drop_root_poppable [OF "1.prems"(1) top, of no_race] True by simp
    from "1.IH" [OF True d(1) d(6) [OF "1.prems"(2)], unfolded pe] True
      pop_same_trans [OF frame_pop_same [OF d(3)]]
    show ?thesis by (subst timer_heap_next_deadline.simps) (simp add: split_beta)
  next
    case False
    show ?thesis
    proof (cases "tl_timers l = []")
      case True
      with "1.prems" show ?thesis
        by (subst timer_heap_next_deadline.simps) (simp add: poppable_def pop_same_def)
    next
      case ne: False
      with False have x: "?x \<in> poppable no_race l" by (simp add: poppable_def no_race_def)
      moreover have "fst ?x \<le> fst y" if "y \<in> poppable no_race l" for y
        using that heap_root_least [OF "1.prems"(1)] by (simp add: poppable_def)
      ultimately show ?thesis using "1.prems" ne False
        by (subst timer_heap_next_deadline.simps) (auto simp: pop_same_def)
    qed
  qed
qed

lemma heap_idx_iff:
  assumes "tl_inv ext l" "tl_live l t"
  shows "0 \<le> tm_heap_idx (tl_nodes l t) \<longleftrightarrow> in_heap l t"
    "in_heap l t \<Longrightarrow> nat (tm_heap_idx (tl_nodes l t)) < length (tl_timers l) \<and>
       snd (tl_timers l ! nat (tm_heap_idx (tl_nodes l t))) = t"
proof -
  have i: "tm_heap_idx (tl_nodes l t) = int j" if "j < length (tl_timers l)" "snd (tl_timers l ! j) = t" for j
    using assms(1) that by (auto simp: tl_inv_def tl_heap_ok_def heap_inv_def indexed_def idx_at_def)
  have ex: "\<exists>j < length (tl_timers l). snd (tl_timers l ! j) = t" if "in_heap l t"
    using that by (auto simp: in_heap_def in_set_conv_nth) (metis snd_conv)
  then show "in_heap l t \<Longrightarrow> nat (tm_heap_idx (tl_nodes l t)) < length (tl_timers l) \<and>
       snd (tl_timers l ! nat (tm_heap_idx (tl_nodes l t))) = t" using i by force
  have "\<not> in_heap l t \<Longrightarrow> tm_heap_idx (tl_nodes l t) = - 1"
    using assms by (simp add: tl_inv_def tl_heap_ok_def)
  then show "0 \<le> tm_heap_idx (tl_nodes l t) \<longleftrightarrow> in_heap l t" using i ex by fastforce
qed

lemma try_cancel_ok:
  fixes on_owner :: bool
  assumes inv: "tl_inv ext l" and un: "tl_unclaimed l" and live: "tl_live l t" and z: "tm_fired (tl_nodes l t) = 0"
    and ext: "0 < ext t"
  defines "r \<equiv> snd (timer_try_cancel on_owner t l)"
  shows "fst (timer_try_cancel on_owner t l)" "tl_inv ext r" "tl_unclaimed r" "is_cancelled r t"
    "in_heap r t \<longleftrightarrow> in_heap l t \<and> \<not> on_owner"
    "poppable race r = {x \<in> poppable race l. snd x \<noteq> t}"
proof -
  let ?m = "timer_mark l t"
  note mk = timer_mark_ok [OF inv, where t = t]
  have lm: "tl_live ?m t" "in_heap ?m t = in_heap l t" using live by (simp_all add: timer_mark_def in_heap_def)
  note hx = heap_idx_iff [OF mk(1) lm(1)]
  show "fst (timer_try_cancel on_owner t l)" using z by (simp add: timer_try_cancel_def Let_def)
  have pm: "poppable race ?m = {x \<in> poppable race l. snd x \<noteq> t}" by (auto simp: poppable_def mk(4))
  have "tl_inv ext r \<and> tl_unclaimed r \<and> is_cancelled r t \<and> (in_heap r t \<longleftrightarrow> in_heap l t \<and> \<not> on_owner) \<and>
    poppable race r = {x \<in> poppable race l. snd x \<noteq> t}"
  proof (cases "on_owner \<and> in_heap l t")
    case False
    then have "r = ?m" using z hx(1) lm(2) by (auto simp: r_def timer_try_cancel_def Let_def)
    with mk un lm(2) pm False show ?thesis by auto
  next
    case True
    let ?i = "nat (tm_heap_idx (tl_node ?m t))"
    let ?q = "heap_remove_slots ?i (tl_timers ?m, tl_nodes ?m)"
    have i: "?i < length (tl_timers ?m)" "snd (tl_timers ?m ! ?i) = t" using hx(2) True lm(2) by auto
    have r: "r = park_release (Some t) (tl_with ?m ?q)"
      using z hx(1) lm(2) True by (simp add: r_def timer_try_cancel_def Let_def heap_remove_at_def)
    have "heap_inv (tl_timers ?m, tl_nodes ?m)" using mk(1) by (simp add: tl_inv_def tl_heap_ok_def)
    from heap_remove_slots_ok [OF this i(1)]
    have rm: "heap_removed (tl_timers ?m) (tl_nodes ?m) ?i ?q" .
    note re = removed_inv [OF mk(1) rm, unfolded i(2)]
    have "idx_frame (snd ` set (tl_timers ?m)) (tl_nodes ?m) (snd ?q)" using rm by (simp add: heap_removed_def)
    from tl_frame_trans [OF idx_frame_tl [OF this] tl_frame_release]
    have fr: "tl_frame ?m r" by (simp add: r)
    have st: "set (tl_timers ?m) = insert (tl_timers ?m ! ?i) (set (tl_timers r))" using re(3) by (simp add: r)
    have cn: "is_cancelled r u = is_cancelled ?m u" for u using fr by (simp add: is_cancelled_def tl_frame_fields)
    have nh: "\<not> in_heap r t" using re(2) by (simp add: r in_heap_def)
    have "poppable race r = poppable race ?m - {tl_timers ?m ! ?i}"
      by (rule poppable_pop [OF st]) (use nh i(2) cn in simp_all)
    also have "\<dots> = poppable race ?m" using i(2) by (auto simp: pm)
    finally have "poppable race r = {x \<in> poppable race l. snd x \<noteq> t}" using pm by simp
    moreover have "tl_inv ext r" using park_release_inv [OF re(1), of t] by (simp add: r)
    moreover have "tl_unclaimed r" by (rule unclaimed_frame [OF fr _ mk(2) [OF un]]) (use st in auto)
    ultimately show ?thesis using cn mk(4) nh True by simp
  qed
  then show "tl_inv ext r" "tl_unclaimed r" "is_cancelled r t" "in_heap r t \<longleftrightarrow> in_heap l t \<and> \<not> on_owner"
    "poppable race r = {x \<in> poppable race l. snd x \<noteq> t}"
    by blast+
qed

lemma park_release_unclaimed: "tl_unclaimed l \<Longrightarrow> tl_unclaimed (park_release p l)"
  by (rule unclaimed_frame [OF tl_frame_release]) simp_all

section \<open>Arming\<close>

lemma alloc_inv:
  assumes inv: "tl_inv ext l" and t: "\<not> tl_live l t" and n: "tm_refs n = int k" "0 < k" "tm_heap_idx n = - 1"
  shows "tl_inv (ext(t := k)) ((tl_set l t (\<lambda>_. n))\<lparr>tl_live := (tl_live l)(t := True)\<rparr>)" (is "tl_inv ?e ?l")
proof -
  have o: "\<not> in_heap l t" "ext t = 0" using inv t by (auto simp: tl_inv_def tl_refs_ok_def owners_def split: if_splits)
  have ih: "in_heap ?l u = in_heap l u" for u by (simp add: in_heap_def)
  have nt: "snd x \<noteq> t" if "x \<in> set (tl_timers l)" for x using o(1) that by (metis image_eqI in_heap_def)
  have "tl_refs_ok ?e ?l"
    unfolding tl_refs_ok_def
  proof
    fix u
    have "(tl_live l u \<longleftrightarrow> 0 < owners ext l u) \<and> (tl_live l u \<longrightarrow> tm_refs (tl_nodes l u) = int (owners ext l u))"
      using inv by (simp add: tl_inv_def tl_refs_ok_def)
    then show "(tl_live ?l u \<longleftrightarrow> 0 < owners ?e ?l u) \<and> (tl_live ?l u \<longrightarrow> tm_refs (tl_nodes ?l u) = int (owners ?e ?l u))"
      using n o by (cases "u = t") (simp_all add: owners_def ih)
  qed
  moreover have "heap_inv (tl_timers l, tl_nodes l)" using inv by (simp add: tl_inv_def tl_heap_ok_def)
  then have "heap_inv (tl_timers l, tl_nodes ?l)" by (rule heap_inv_cong) (use o(1) in \<open>auto simp: in_heap_def\<close>)
  ultimately show ?thesis using inv n(3) nt by (simp add: tl_inv_def tl_heap_ok_def ih)
qed

lemma free_inv:
  assumes inv: "tl_inv ext l" and t: "\<not> in_heap l t"
  shows "tl_inv (ext(t := 0)) (timer_free l t)"
proof -
  have ih: "in_heap (timer_free l t) u = in_heap l u" for u by (simp add: in_heap_def timer_free_def)
  have "tl_refs_ok (ext(t := 0)) (timer_free l t)"
    unfolding tl_refs_ok_def
  proof
    fix u
    have "(tl_live l u \<longleftrightarrow> 0 < owners ext l u) \<and> (tl_live l u \<longrightarrow> tm_refs (tl_nodes l u) = int (owners ext l u))"
      using inv by (simp add: tl_inv_def tl_refs_ok_def)
    then show "(tl_live (timer_free l t) u \<longleftrightarrow> 0 < owners (ext(t := 0)) (timer_free l t) u) \<and>
      (tl_live (timer_free l t) u \<longrightarrow> tm_refs (tl_nodes (timer_free l t) u) = int (owners (ext(t := 0)) (timer_free l t) u))"
      using t by (cases "u = t") (simp_all add: owners_def ih, simp_all add: timer_free_def)
  qed
  moreover have "tl_heap_ok (timer_free l t)"
    using inv by (simp add: tl_inv_def tl_heap_ok_def ih) (simp add: timer_free_def)
  ultimately show ?thesis by (simp add: tl_inv_def)
qed

text \<open>Arming a fresh node \<open>n\<close> that has \<open>k\<close> owners besides the heap.\<close>

lemma arm_ok:
  assumes inv: "tl_inv ext l" and un: "tl_unclaimed l" and nl: "\<not> tl_live l t"
    and n: "tm_refs n = int (Suc k)" "tm_heap_idx n = - 1" "tm_fired n = 0" "\<not> tm_cancelled n"
    and p: "timer_heap_push rc0 t ((tl_set l t (\<lambda>_. n))\<lparr>tl_live := (tl_live l)(t := True)\<rparr>) = (rc, r)"
  shows "rc \<noteq> XTC_OK \<Longrightarrow> tl_inv ext (timer_free r t) \<and> tl_unclaimed (timer_free r t) \<and>
      poppable no_race (timer_free r t) = poppable no_race l"
    "rc = XTC_OK \<Longrightarrow> tl_inv (ext(t := k)) r \<and> tl_unclaimed r \<and>
      poppable no_race r = insert (tm_deadline_ns n, t) (poppable no_race l)"
    "tl_park r = tl_park l"
proof -
  let ?l2 = "(tl_set l t (\<lambda>_. n))\<lparr>tl_live := (tl_live l)(t := True)\<rparr>" and ?x = "(tm_deadline_ns n, t)"
  let ?e = "ext(t := k)"
  have o: "\<not> in_heap l t" "ext t = 0" using inv nl by (auto simp: tl_inv_def tl_refs_ok_def owners_def split: if_splits)
  have nt: "snd x \<noteq> t" if "x \<in> set (tl_timers l)" for x using o(1) that by (metis image_eqI in_heap_def)
  have "tl_inv (ext(t := Suc k)) ?l2" by (rule alloc_inv [OF inv nl n(1) _ n(2)]) simp
  then have i2: "tl_inv (?e(t := Suc (?e t))) ?l2" by simp
  have h2: "\<not> in_heap ?l2 t" using o by (simp add: in_heap_def)
  note pu = timer_heap_push_ok [OF i2 h2, where rc = rc0, unfolded p fst_conv snd_conv]
  have x2: "(tm_deadline_ns (tl_nodes ?l2 t), t) = ?x" and f2: "tm_fired (tl_nodes ?l2 t) = 0" using n(3) by simp_all
  have fr: "tl_frame ?l2 r" using pu(1,2) f2 by (cases "rc = XTC_OK") auto
  then show "tl_park r = tl_park l" by (simp add: tl_frame_def)
  have c: "is_cancelled r u = (u \<noteq> t \<and> is_cancelled l u)" for u
    using tl_frame_fields(2) [OF fr, of u] f2 by (simp add: is_cancelled_def)
  have sub: "set (tl_timers r) \<subseteq> insert ?x (set (tl_timers l))" using pu(4) x2 by simp
  have keep: "x \<in> set (tl_timers r)" if "x \<in> set (tl_timers l)" "\<not> is_cancelled l (snd x)" for x
  proof -
    have "\<not> is_cancelled ?l2 (snd x)" using that nt by (auto simp: is_cancelled_def)
    with pu(3) that show ?thesis by simp
  qed
  have un': "tl_unclaimed r"
  proof -
    have "tm_fired (tl_nodes r u) = (if u = t then 0 else tm_fired (tl_nodes l u))"
      "tm_cancelled (tl_nodes r u) = (u \<noteq> t \<and> tm_cancelled (tl_nodes l u))" for u
      using tl_frame_fields(2,3) [OF fr, of u] n(3,4) by simp_all
    then show ?thesis using un sub nt by (auto simp: tl_unclaimed_def c)
  qed
  show "tl_inv ext (timer_free r t) \<and> tl_unclaimed (timer_free r t) \<and>
      poppable no_race (timer_free r t) = poppable no_race l" if "rc \<noteq> XTC_OK"
  proof -
    from that pu(1) have b: "tl_inv (?e(t := Suc (?e t))) r" "\<not> in_heap r t" by auto
    have "ext = (?e(t := Suc (?e t)))(t := 0)" using o(2) by auto
    with free_inv [OF b] have "tl_inv ext (timer_free r t)" by simp
    moreover have "tl_unclaimed (timer_free r t)" using un' by (simp add: tl_unclaimed_def timer_free_def is_cancelled_def)
    moreover have "poppable no_race (timer_free r t) = poppable no_race l"
    proof -
      have "?x \<notin> set (tl_timers r)" using b(2) by (metis image_eqI in_heap_def snd_conv)
      with sub have "set (tl_timers r) \<subseteq> set (tl_timers l)" by blast
      moreover have "is_cancelled (timer_free r t) = is_cancelled r" "tl_timers (timer_free r t) = tl_timers r"
        by (auto simp: is_cancelled_def timer_free_def)
      ultimately show ?thesis using nt keep by (auto simp: poppable_def c)
    qed
    ultimately show ?thesis by blast
  qed
  show "tl_inv ?e r \<and> tl_unclaimed r \<and> poppable no_race r = insert ?x (poppable no_race l)" if "rc = XTC_OK"
  proof -
    from that pu(2) x2 have b: "tl_inv ?e r" "in_heap r t" by auto
    from b(2) obtain y where "y \<in> set (tl_timers r)" "snd y = t" by (auto simp: in_heap_def)
    with sub nt [of y] have xr: "?x \<in> set (tl_timers r)" by (metis insert_iff subsetD)
    have "poppable no_race r = insert ?x (poppable no_race l)"
      using sub xr nt keep by (auto simp: poppable_def c no_race_def)
    with b un' show ?thesis by blast
  qed
qed

text \<open>A node allocated, cleared and given back leaves everything as it was.\<close>

lemma zeroed_free_ok:
  assumes inv: "tl_inv ext l" and un: "tl_unclaimed l" and nl: "\<not> tl_live l t"
  defines "r \<equiv> timer_free ((tl_set l t (\<lambda>_. timer_zero))\<lparr>tl_live := (tl_live l)(t := True)\<rparr>) t"
  shows "tl_inv ext r" "tl_unclaimed r" "poppable no_race r = poppable no_race l"
proof -
  have o: "\<not> in_heap l t" using inv nl by (auto simp: tl_inv_def tl_refs_ok_def owners_def split: if_splits)
  have nt: "snd x \<noteq> t" if "x \<in> set (tl_timers l)" for x using o that by (metis image_eqI in_heap_def)
  have lv: "tl_live r u = tl_live l u" and nd: "tl_nodes r u = (if u = t then timer_zero else tl_nodes l u)"
    and ih: "in_heap r u = in_heap l u" for u
    using nl by (simp_all add: r_def timer_free_def in_heap_def)
  have tc: "tl_timers r = tl_timers l" "tl_cap r = tl_cap l" by (simp_all add: r_def timer_free_def)
  have "heap_inv (tl_timers l, tl_nodes l)" using inv by (simp add: tl_inv_def tl_heap_ok_def)
  then have "heap_inv (tl_timers l, tl_nodes r)"
    by (rule heap_inv_cong) (use o in \<open>auto simp: nd in_heap_def\<close>)
  moreover have "u \<noteq> t" if "tl_live l u" for u using that nl by auto
  ultimately show "tl_inv ext r" using inv nt
    by (simp add: tl_inv_def tl_refs_ok_def tl_heap_ok_def owners_def lv nd ih tc)
  show "tl_unclaimed r" using un nt by (simp add: tl_unclaimed_def tc nd is_cancelled_def)
  show "poppable no_race r = poppable no_race l" using nt by (auto simp: poppable_def tc nd is_cancelled_def)
qed

definition set_post :: "timer_env \<Rightarrow> int \<Rightarrow> bool \<Rightarrow> (nat \<Rightarrow> nat) \<Rightarrow> timer_loop \<Rightarrow> xtc_err \<Rightarrow> nat option \<Rightarrow> timer_loop \<Rightarrow> bool" where
  "set_post e delay_ns out ext l rc ht r = (tl_unclaimed r \<and> tl_park r = tl_park l \<and>
     (if rc = XTC_OK
      then \<exists>t. te_new e = Some t \<and> ht = (if out then Some t else None) \<and>
        tl_inv (ext(t := if out then 1 else 0)) r \<and>
        poppable no_race r = insert (wrap64 (te_now e + delay_ns), t) (poppable no_race l)
      else ht = None \<and> tl_inv ext r \<and> poppable no_race r = poppable no_race l))"

lemma set_post_same: "rc \<noteq> XTC_OK \<Longrightarrow> tl_inv ext l \<Longrightarrow> tl_unclaimed l \<Longrightarrow> set_post e d out ext l rc None l"
  by (simp add: set_post_def)

lemma timer_set_ok:
  assumes inv: "tl_inv ext l" and un: "tl_unclaimed l" and fresh: "\<And>t. te_new e = Some t \<Longrightarrow> \<not> tl_live l t"
  shows "\<exists>rc ht r. xtc_timer_set e (Some l) delay_ns fn user out = (rc, ht, Some r) \<and>
    set_post e delay_ns out ext l rc ht r"
proof (cases "delay_ns < 0 \<or> te_slab_rc e \<noteq> XTC_OK \<or> te_new e = None")
  case True
  then show ?thesis using inv un
    by (auto simp: xtc_timer_set_def intro!: set_post_same)
next
  case False
  then obtain t where t: "te_new e = Some t" and d: "\<not> delay_ns < 0" "te_slab_rc e = XTC_OK" by auto
  from fresh [OF t] have nl: "\<not> tl_live l t" .
  let ?l1 = "(tl_set l t (\<lambda>_. timer_zero))\<lparr>tl_live := (tl_live l)(t := True)\<rparr>"
  let ?n = "timer_init (wrap64 (te_now e + delay_ns)) fn user out"
  let ?l2 = "tl_set ?l1 t (\<lambda>_. ?n)"
  have l2: "?l2 = (tl_set l t (\<lambda>_. ?n))\<lparr>tl_live := (tl_live l)(t := True)\<rparr>" by (simp add: tl_set_def)
  show ?thesis
  proof (cases "te_clock_rc e = XTC_OK")
    case False
    have "tl_park (timer_free ?l1 t) = tl_park l" by (simp add: timer_free_def)
    with False d t zeroed_free_ok [OF inv un nl] show ?thesis
      by (auto simp: xtc_timer_set_def Let_def set_post_def)
  next
    case True
    obtain rc r where p: "timer_heap_push (te_grow_rc e) t ?l2 = (rc, r)" by fastforce
    have res: "xtc_timer_set e (Some l) delay_ns fn user out =
        (if rc \<noteq> XTC_OK then (rc, None, Some (timer_free r t)) else (XTC_OK, if out then Some t else None, Some r))"
      using True d t p by (simp add: xtc_timer_set_def Let_def)
    have n: "tm_refs ?n = int (Suc (if out then 1 else 0))" "tm_heap_idx ?n = - 1" "tm_fired ?n = 0"
      "\<not> tm_cancelled ?n" "tm_deadline_ns ?n = wrap64 (te_now e + delay_ns)"
      by (simp_all add: timer_init_def timer_zero_def)
    note a = arm_ok [OF inv un nl n(1-4) p [unfolded l2]]
    have "tl_park (timer_free r t) = tl_park l" using a(3) by (simp add: timer_free_def)
    with res a n(5) t show ?thesis by (cases "rc = XTC_OK") (simp_all add: set_post_def)
  qed
qed

lemma park_ok:
  assumes inv: "tl_inv ext l" and un: "tl_unclaimed l" and fresh: "\<And>t. te_new e = Some t \<Longrightarrow> \<not> tl_live l t"
    and p: "task_park_on_timer_at e self fd_parked d l = (rc, r)"
  shows "rc \<noteq> XTC_OK \<Longrightarrow> tl_inv ext r \<and> tl_unclaimed r \<and> tl_park r = tl_park l \<and>
      poppable no_race r = poppable no_race l"
    "rc = XTC_OK \<Longrightarrow> \<exists>w t. self = Some w \<and> te_new e = Some t \<and> tl_park l w = None \<and>
      tl_inv (ext(t := 1)) r \<and> tl_unclaimed r \<and> tl_park r = (tl_park l)(w := Some t) \<and>
      poppable no_race r = insert (d, t) (poppable no_race l)"
proof -
  have "(rc \<noteq> XTC_OK \<longrightarrow> tl_inv ext r \<and> tl_unclaimed r \<and> tl_park r = tl_park l \<and>
      poppable no_race r = poppable no_race l) \<and>
    (rc = XTC_OK \<longrightarrow> (\<exists>w t. self = Some w \<and> te_new e = Some t \<and> tl_park l w = None \<and>
      tl_inv (ext(t := 1)) r \<and> tl_unclaimed r \<and> tl_park r = (tl_park l)(w := Some t) \<and>
      poppable no_race r = insert (d, t) (poppable no_race l)))"
  proof (cases "\<exists>w t. self = Some w \<and> te_new e = Some t \<and> tl_park l w = None \<and> \<not> fd_parked \<and> te_calloc_rc e = XTC_OK")
    case False
    with p have "rc \<noteq> XTC_OK" "r = l"
      by (auto simp: task_park_on_timer_at_def split: option.splits if_splits)
    with inv un show ?thesis by simp
  next
    case True
    then obtain w t where w: "self = Some w" "te_new e = Some t" "tl_park l w = None" "\<not> fd_parked" "te_calloc_rc e = XTC_OK"
      by blast
    let ?n = "park_init d w"
    obtain rc' r' where q: "timer_heap_push (te_grow_rc e) t ((tl_set l t (\<lambda>_. ?n))\<lparr>tl_live := (tl_live l)(t := True)\<rparr>) = (rc', r')"
      by fastforce
    have n: "tm_refs ?n = int (Suc 1)" "tm_heap_idx ?n = - 1" "tm_fired ?n = 0" "\<not> tm_cancelled ?n" "tm_deadline_ns ?n = d"
      by (simp_all add: park_init_def)
    note a = arm_ok [OF inv un fresh [OF w(2)] n(1-4) q]
    have r: "rc = (if rc' = XTC_OK then XTC_OK else rc')"
      "r = (if rc' = XTC_OK then r'\<lparr>tl_park := (tl_park r')(w := Some t)\<rparr> else timer_free r' t)"
      using p w q by (auto simp: task_park_on_timer_at_def split: if_splits)
    have pk: "tl_park (timer_free r' t) = tl_park l" using a(3) by (simp add: timer_free_def)
    have same: "tl_inv f (r'\<lparr>tl_park := g\<rparr>) = tl_inv f r'" "tl_unclaimed (r'\<lparr>tl_park := g\<rparr>) = tl_unclaimed r'"
      "poppable no_race (r'\<lparr>tl_park := g\<rparr>) = poppable no_race r'" for f g
      by (simp_all add: tl_inv_def tl_refs_ok_def tl_heap_ok_def owners_def in_heap_def tl_unclaimed_def poppable_def is_cancelled_def)
    show ?thesis using a n(5) r w pk by (cases "rc' = XTC_OK") (simp_all add: same)
  qed
  then show "rc \<noteq> XTC_OK \<Longrightarrow> tl_inv ext r \<and> tl_unclaimed r \<and> tl_park r = tl_park l \<and>
      poppable no_race r = poppable no_race l"
    "rc = XTC_OK \<Longrightarrow> \<exists>w t. self = Some w \<and> te_new e = Some t \<and> tl_park l w = None \<and>
      tl_inv (ext(t := 1)) r \<and> tl_unclaimed r \<and> tl_park r = (tl_park l)(w := Some t) \<and>
      poppable no_race r = insert (d, t) (poppable no_race l)"
    by simp_all
qed

section \<open>The drain\<close>

text \<open>
  One round of \<open>__xtc_drain_due_timers\<close> on the timer it popped. \<open>late\<close> is the simulator's
  coin for the fault that fires a timer once a microsecond late; \<open>cb\<close> is what the
  callback does to the loop's timers.
\<close>

definition fire_late :: "(nat \<Rightarrow> bool) \<Rightarrow> xtc_err \<Rightarrow> int \<Rightarrow> nat \<Rightarrow> timer_loop \<Rightarrow> bool \<times> timer_loop" where
  "fire_late late grow_rc now_ns t l =
     (if \<not> tm_sim_late (tl_node l t) \<and> late t then
        (case timer_heap_push grow_rc t (tl_set l t (\<lambda>n. n\<lparr>tm_sim_late := True,
             tm_deadline_ns := wrap64 (now_ns + 1000), tm_heap_idx := - 1\<rparr>)) of
           (rc, l1) \<Rightarrow> (rc = XTC_OK, l1))
      else (False, l))"

definition wake_waiter :: "nat \<Rightarrow> timer_loop \<Rightarrow> timer_loop" where
  "wake_waiter t l = (case tm_waiter (tl_node l t) of None \<Rightarrow> l | Some w \<Rightarrow>
     let l1 = l\<lparr>tl_woken := tl_woken l @ [w]\<rparr> in
     if tl_park l1 w = Some t
     then park_release (Some t) (l1\<lparr>tl_park := (tl_park l1)(w := None)\<rparr>) else l1)"

definition fire_timer :: "(nat \<Rightarrow> timer_loop \<Rightarrow> timer_loop) \<Rightarrow> nat \<Rightarrow> timer_loop \<Rightarrow> timer_loop" where
  "fire_timer cb t l =
     park_release (Some t) (wake_waiter t (cb t (tl_set l t (\<lambda>n. n\<lparr>tm_fired := 1\<rparr>))))"

text \<open>The loop of the drain: the timers fired, in order. \<open>None\<close> is fuel run out.\<close>

fun drain_loop :: "nat \<Rightarrow> (nat \<Rightarrow> bool) \<Rightarrow> (nat \<Rightarrow> bool) \<Rightarrow> xtc_err \<Rightarrow> (nat \<Rightarrow> timer_loop \<Rightarrow> timer_loop) \<Rightarrow>
    int \<Rightarrow> timer_loop \<Rightarrow> (nat list \<times> timer_loop) option" where
  "drain_loop 0 race late grow_rc cb now_ns l = None"
| "drain_loop (Suc n) race late grow_rc cb now_ns l =
     (case timer_heap_pop_due race now_ns l of
        (None, l1) \<Rightarrow> Some ([], l1)
      | (Some t, l1) \<Rightarrow>
          if \<not> tm_cancelled (tl_node l1 t) then
            (case fire_late late grow_rc now_ns t l1 of
               (True, l2) \<Rightarrow> drain_loop n race late grow_rc cb now_ns l2
             | (False, l2) \<Rightarrow>
                 map_option (\<lambda>(ts, r). (t # ts, r))
                   (drain_loop n race late grow_rc cb now_ns (fire_timer cb t l2)))
          else drain_loop n race late grow_rc cb now_ns (park_release (Some t) l1))"

definition drain_due_timers :: "nat \<Rightarrow> timer_env \<Rightarrow> (nat \<Rightarrow> bool) \<Rightarrow> (nat \<Rightarrow> bool) \<Rightarrow>
    (nat \<Rightarrow> timer_loop \<Rightarrow> timer_loop) \<Rightarrow> timer_loop \<Rightarrow> (xtc_err \<times> nat list \<times> timer_loop) option" where
  "drain_due_timers fuel e race late cb l =
     (if te_clock_rc e \<noteq> XTC_OK then Some (te_clock_rc e, [], l)
      else map_option (\<lambda>(ts, r). (XTC_OK, ts, r)) (drain_loop fuel race late (te_grow_rc e) cb (te_now e) l))"

text \<open>
  The references outside the heap: \<open>ext\<close> those of handles and of a drain in progress, and one
  for the park slot that holds the timer. No two slots hold the same timer.
\<close>

definition slot_refs :: "timer_loop \<Rightarrow> nat \<Rightarrow> nat" where
  "slot_refs l t = (if t \<in> ran (tl_park l) then 1 else 0)"

definition total_refs :: "(nat \<Rightarrow> nat) \<Rightarrow> timer_loop \<Rightarrow> nat \<Rightarrow> nat" where
  "total_refs ext l t = ext t + slot_refs l t"

definition parks_inj :: "timer_loop \<Rightarrow> bool" where
  "parks_inj l = (\<forall>v w t. tl_park l v = Some t \<longrightarrow> tl_park l w = Some t \<longrightarrow> v = w)"

lemma total_upd: "total_refs (ext(t := n)) l = (total_refs ext l)(t := n + slot_refs l t)"
  by (simp add: total_refs_def fun_eq_iff)

lemma total_cong: "tl_park l' = tl_park l \<Longrightarrow> total_refs ext l' = total_refs ext l"
  by (rule HOL.ext) (simp add: total_refs_def slot_refs_def)

lemma parks_inj_cong: "tl_park l' = tl_park l \<Longrightarrow> parks_inj l' = parks_inj l"
  by (simp add: parks_inj_def)

lemma slot_cleared:
  assumes "parks_inj l" "tl_park l w = Some t" "tl_park r = (tl_park l)(w := None)"
  shows "parks_inj r" "total_refs ext r = (total_refs ext l)(t := total_refs ext l t - 1)"
    "0 < total_refs ext l t"
proof -
  show "parks_inj r" using assms by (simp add: parks_inj_def)
  have "ran (tl_park r) = ran (tl_park l) - {t}"
    using assms unfolding parks_inj_def ran_def by (simp add: set_eq_iff) (metis option.inject)
  moreover have "t \<in> ran (tl_park l)" using assms(2) by (rule ranI)
  ultimately show "total_refs ext r = (total_refs ext l)(t := total_refs ext l t - 1)" "0 < total_refs ext l t"
    by (auto simp: total_refs_def slot_refs_def fun_eq_iff)
qed

lemma slot_filled:
  assumes "parks_inj l" "tl_park l w = None" "t \<notin> ran (tl_park l)" "tl_park r = (tl_park l)(w := Some t)"
  shows "parks_inj r" "total_refs ext r = (total_refs ext l)(t := Suc (ext t))"
proof -
  have "tl_park l v \<noteq> Some t" for v using assms(3) by (auto intro: ranI)
  with assms show "parks_inj r" by (auto simp: parks_inj_def split: if_splits)
  have "ran (tl_park r) = insert t (ran (tl_park l))"
    using assms by simp
  then show "total_refs ext r = (total_refs ext l)(t := Suc (ext t))"
    by (auto simp: total_refs_def slot_refs_def fun_eq_iff)
qed

definition quiet_cb :: "nat \<Rightarrow> timer_loop \<Rightarrow> timer_loop" where
  "quiet_cb t l = l"

lemma park_change_inv: "tl_inv ext l \<Longrightarrow> tl_inv ext (l\<lparr>tl_woken := ws, tl_park := p\<rparr>)"
  by (simp add: tl_inv_def tl_refs_ok_def tl_heap_ok_def owners_def in_heap_def)

lemma woken_inv [simp]: "tl_inv ext (l\<lparr>tl_woken := ws\<rparr>) = tl_inv ext l"
  by (simp add: tl_inv_def tl_refs_ok_def tl_heap_ok_def owners_def in_heap_def)

lemma fire_timer_ok:
  assumes inv: "tl_inv ((total_refs ext l)(t := Suc (total_refs ext l t))) l" and t: "\<not> in_heap l t"
    and parks: "parks_inj l" and un: "tl_unclaimed l"
  defines "r \<equiv> fire_timer quiet_cb t l"
  shows "tl_inv (total_refs ext r) r" "parks_inj r" "tl_unclaimed r" "poppable race r = poppable race l"
    "tm_deadline_ns (tl_nodes r u) = tm_deadline_ns (tl_nodes l u)" "tl_timers r = tl_timers l"
proof -
  let ?s = "tl_set l t (\<lambda>n. n\<lparr>tm_fired := 1\<rparr>)" and ?e = "(total_refs ext l)(t := Suc (total_refs ext l t))"
  have s: "tl_inv ?e ?s" by (rule tl_set_inv [OF inv]) simp_all
  have r: "r = park_release (Some t) (wake_waiter t ?s)" by (simp add: r_def fire_timer_def quiet_cb_def)
  have ws: "tl_timers (wake_waiter t ?s) = tl_timers l" "tm_deadline_ns (tl_nodes (wake_waiter t ?s) v) = tm_deadline_ns (tl_nodes l v)"
    "tm_fired (tl_nodes (wake_waiter t ?s) v) = (if v = t then 1 else tm_fired (tl_nodes l v))"
    "tm_cancelled (tl_nodes (wake_waiter t ?s) v) = tm_cancelled (tl_nodes l v)" for v
    by (simp_all add: wake_waiter_def Let_def park_release_def timer_free_def split: option.split)
  have rs: "tl_timers r = tl_timers l" "tm_deadline_ns (tl_nodes r v) = tm_deadline_ns (tl_nodes l v)"
    "tm_fired (tl_nodes r v) = (if v = t then 1 else tm_fired (tl_nodes l v))"
    "tm_cancelled (tl_nodes r v) = tm_cancelled (tl_nodes l v)" for v
    using tl_frame_fields [OF tl_frame_release [of "wake_waiter t ?s" "Some t"], of v] ws by (simp_all add: r)
  have nt: "snd x \<noteq> t" if "x \<in> set (tl_timers l)" for x using t that by (metis image_eqI in_heap_def)
  show "tm_deadline_ns (tl_nodes r u) = tm_deadline_ns (tl_nodes l u)" "tl_timers r = tl_timers l" using rs by simp_all
  show "tl_unclaimed r" using un nt by (simp add: tl_unclaimed_def rs is_cancelled_def)
  show "poppable race r = poppable race l" using nt by (auto simp: poppable_def rs is_cancelled_def)
  have "tl_inv (total_refs ext r) r \<and> parks_inj r"
  proof (cases "\<exists>w. tm_waiter (tl_node l t) = Some w \<and> tl_park l w = Some t")
    case False
    then have w: "wake_waiter t ?s = ?s \<or> (\<exists>v. wake_waiter t ?s = ?s\<lparr>tl_woken := v\<rparr>)"
      by (auto simp: wake_waiter_def Let_def split: option.split)
    then have "tl_inv ?e (wake_waiter t ?s)" and pk: "tl_park r = tl_park l"
      using s by (auto simp: r)
    from park_release_inv [OF this(1), of t] have "tl_inv (total_refs ext l) r" by (simp add: r)
    with total_cong [OF pk] parks_inj_cong [OF pk] parks show ?thesis by simp
  next
    case True
    then obtain w where w: "tm_waiter (tl_node l t) = Some w" "tl_park l w = Some t" by blast
    let ?p = "?s\<lparr>tl_woken := tl_woken ?s @ [w], tl_park := (tl_park l)(w := None)\<rparr>"
    have ww: "wake_waiter t ?s = park_release (Some t) ?p"
      using w by (simp add: wake_waiter_def Let_def tl_set_def)
    from park_change_inv [OF s] have "tl_inv ?e ?p" .
    from park_release_inv [OF this, of t] have i: "tl_inv (total_refs ext l) (wake_waiter t ?s)" by (simp add: ww)
    have "tl_park r = (tl_park l)(w := None)" by (simp add: r ww)
    note c = slot_cleared(1) [OF parks w(2) this] slot_cleared(2,3) [OF parks w(2) this, where ext = ext]
    from park_release_inv [OF i c(3)] c show ?thesis by (simp add: r)
  qed
  then show "tl_inv (total_refs ext r) r" "parks_inj r" by blast+
qed

lemma pop_due_length:
  "fst (timer_heap_pop_due race now_ns l) = Some t \<Longrightarrow>
    length (tl_timers (snd (timer_heap_pop_due race now_ns l))) < length (tl_timers l)"
proof (induction race now_ns l rule: timer_heap_pop_due.induct)
  case (1 race now_ns l)
  note eq = timer_heap_pop_due.simps [of race now_ns l]
  show ?case
  proof (cases "heap_top l")
    case None
    with "1.prems" show ?thesis by (simp add: eq)
  next
    case (Some u)
    then have "tl_timers l \<noteq> []" by (simp add: heap_top_def split: if_splits)
    then have lt: "length (tl_timers l) - 1 < length (tl_timers l)" by simp
    let ?l1 = "if race u \<and> tm_fired (tl_node l u) = 0 then timer_mark l u else l"
    have l1: "tl_timers ?l1 = tl_timers l" by simp
    consider "is_cancelled l u" | "\<not> is_cancelled l u" "fst (tl_timers l ! 0) > now_ns"
      | "\<not> is_cancelled l u" "\<not> fst (tl_timers l ! 0) > now_ns" "tm_fired (tl_node ?l1 u) = 0"
      | "\<not> is_cancelled l u" "\<not> fst (tl_timers l ! 0) > now_ns" "tm_fired (tl_node ?l1 u) \<noteq> 0" by blast
    then show ?thesis
    proof cases
      case 1
      with "1.IH"(1) [OF Some 1] "1.prems" Some lt show ?thesis by (simp add: eq)
    next
      case 2
      with "1.prems" Some show ?thesis by (simp add: eq)
    next
      case 3
      with Some lt l1 show ?thesis by (simp add: eq Let_def)
    next
      case 4
      with "1.IH"(2) [OF Some 4(1,2) refl 4(3)] "1.prems" Some lt l1 show ?thesis by (simp add: eq Let_def)
    qed
  qed
qed

lemma poppable_slot:
  assumes "tl_inv ext l" "x \<in> poppable race l"
  shows "fst x = tm_deadline_ns (tl_nodes l (snd x))"
  using assms by (simp add: poppable_def tl_inv_def tl_heap_ok_def)

definition no_late :: "nat \<Rightarrow> bool" where
  "no_late t = False"

lemma fire_late_none [simp]: "fire_late no_late rc now_ns t l = (False, l)"
  by (simp add: fire_late_def no_late_def)

definition drain_post :: "(nat \<Rightarrow> bool) \<Rightarrow> int \<Rightarrow> (nat \<Rightarrow> nat) \<Rightarrow> timer_loop \<Rightarrow> nat list \<Rightarrow> timer_loop \<Rightarrow> bool" where
  "drain_post race now_ns ext l ts r = (tl_inv (total_refs ext r) r \<and> parks_inj r \<and> tl_unclaimed r \<and>
     set ts = snd ` {x \<in> poppable race l. fst x \<le> now_ns} \<and> distinct ts \<and>
     sorted (map (\<lambda>t. tm_deadline_ns (tl_nodes l t)) ts) \<and>
     poppable race r = {x \<in> poppable race l. now_ns < fst x})"

lemma drain_post_Cons:
  assumes inv: "tl_inv e l"
    and d: "d \<le> now_ns" "(d, t) \<in> poppable race l" "\<forall>x \<in> poppable race l. d \<le> fst x"
    and m: "poppable race m = poppable race l - {(d, t)}" "\<not> in_heap m t"
      "\<And>u. tm_deadline_ns (tl_nodes m u) = tm_deadline_ns (tl_nodes l u)"
    and post: "drain_post race now_ns ext m ts r"
  shows "drain_post race now_ns ext l (t # ts) r"
proof -
  have ts: "set ts = snd ` {x \<in> poppable race m. fst x \<le> now_ns}"
    using post by (simp add: drain_post_def)
  have "snd ` poppable race m \<subseteq> snd ` set (tl_timers m)" by (rule image_mono) (simp add: poppable_def)
  then have nt: "t \<notin> snd ` poppable race m" using m(2) by (auto simp: in_heap_def)
  have S: "{x \<in> poppable race l. fst x \<le> now_ns} = insert (d, t) {x \<in> poppable race m. fst x \<le> now_ns}"
    unfolding m(1) using d(1,2) by auto
  have "insert t (set ts) = snd ` {x \<in> poppable race l. fst x \<le> now_ns}"
    by (simp only: S ts image_insert snd_conv)
  moreover have "t \<notin> set ts" unfolding ts using nt by (metis (no_types, lifting) image_iff mem_Collect_eq)
  moreover have "tm_deadline_ns (tl_nodes l t) \<le> tm_deadline_ns (tl_nodes l u)" if "u \<in> set ts" for u
  proof -
    from that ts obtain x where x: "x \<in> poppable race m" "u = snd x" by auto
    with m(1) have x': "x \<in> poppable race l" by simp
    have "tm_deadline_ns (tl_nodes l t) = d" using poppable_slot [OF inv d(2)] by simp
    also have "d \<le> fst x" using d(3) x' by blast
    also have "fst x = tm_deadline_ns (tl_nodes l u)" using poppable_slot [OF inv x'] x(2) by simp
    finally show ?thesis .
  qed
  moreover have "poppable race r = {x \<in> poppable race l. now_ns < fst x}"
  proof -
    have "poppable race r = {x \<in> poppable race m. now_ns < fst x}" using post by (simp add: drain_post_def)
    also have "\<dots> = {x \<in> poppable race l. now_ns < fst x}" unfolding m(1) using d(1) by auto
    finally show ?thesis .
  qed
  ultimately show ?thesis using post by (simp add: drain_post_def m(3))
qed

lemma drain_loop_ok:
  "tl_inv (total_refs ext l) l \<Longrightarrow> tl_unclaimed l \<Longrightarrow> parks_inj l \<Longrightarrow> length (tl_timers l) < fuel \<Longrightarrow>
    \<exists>ts r. drain_loop fuel race no_late rc quiet_cb now_ns l = Some (ts, r) \<and> drain_post race now_ns ext l ts r"
proof (induction fuel arbitrary: l)
  case (Suc n)
  note post = pop_due_post [OF Suc.prems(1,2), of race now_ns]
  obtain p l1 where p: "timer_heap_pop_due race now_ns l = (p, l1)" by fastforce
  show ?case
  proof (cases p)
    case None
    with post p have r: "tl_inv (total_refs ext l) l1" "tl_unclaimed l1" "\<forall>x \<in> poppable race l. now_ns < fst x"
      "poppable race l1 = poppable race l" "tl_park l1 = tl_park l"
      by (simp_all add: pop_post_def pop_same_def)
    then have "parks_inj l1" "total_refs ext l1 = total_refs ext l" "{x \<in> poppable race l. now_ns < fst x} = poppable race l"
      "{x \<in> poppable race l. fst x \<le> now_ns} = {}"
      using Suc.prems(3) parks_inj_cong [of l1 l] total_cong [of l1 l] by auto
    with r have "drain_post race now_ns ext l [] l1" unfolding drain_post_def by auto
    with None p show ?thesis by simp
  next
    case (Some t)
    let ?e = "(total_refs ext l)(t := Suc (total_refs ext l t))"
    from post p Some obtain d where r: "tl_inv ?e l1" "tl_unclaimed l1" "\<not> in_heap l1 t" "d \<le> now_ns"
      "(d, t) \<in> poppable race l" "\<forall>x \<in> poppable race l. d \<le> fst x"
      "poppable race l1 = poppable race l - {(d, t)}" "\<not> tm_cancelled (tl_nodes l1 t)" "pop_same l l1"
      by (auto simp: pop_post_def)
    have pk: "tl_park l1 = tl_park l" using r(9) by (simp add: pop_same_def)
    have "tl_inv ((total_refs ext l1)(t := Suc (total_refs ext l1 t))) l1" using r(1) total_cong [OF pk] by simp
    moreover have "parks_inj l1" using Suc.prems(3) parks_inj_cong [OF pk] by simp
    ultimately have f: "tl_inv (total_refs ext (fire_timer quiet_cb t l1)) (fire_timer quiet_cb t l1)"
      "parks_inj (fire_timer quiet_cb t l1)" "tl_unclaimed (fire_timer quiet_cb t l1)"
      "poppable race (fire_timer quiet_cb t l1) = poppable race l1"
      "\<And>u. tm_deadline_ns (tl_nodes (fire_timer quiet_cb t l1) u) = tm_deadline_ns (tl_nodes l1 u)"
      "tl_timers (fire_timer quiet_cb t l1) = tl_timers l1"
      using fire_timer_ok [OF _ r(3) _ r(2)] by blast+
    let ?m = "fire_timer quiet_cb t l1"
    have "length (tl_timers ?m) < n"
      using pop_due_length [of race now_ns l t] p Some Suc.prems(4) f(6) by simp
    from Suc.IH [OF f(1,3,2) this] obtain ts r' where
      ih: "drain_loop n race no_late rc quiet_cb now_ns ?m = Some (ts, r')" "drain_post race now_ns ext ?m ts r'"
      by blast
    have "\<not> in_heap ?m t" using r(3) f(6) by (simp add: in_heap_def)
    moreover have "tm_deadline_ns (tl_nodes ?m u) = tm_deadline_ns (tl_nodes l u)" for u
      using f(5) r(9) by (simp add: pop_same_def)
    moreover have "poppable race ?m = poppable race l - {(d, t)}" using f(4) r(7) by simp
    ultimately have "drain_post race now_ns ext l (t # ts) r'"
      using ih(2) by (intro drain_post_Cons [OF Suc.prems(1) r(4-6)]) auto
    moreover have "drain_loop (Suc n) race no_late rc quiet_cb now_ns l = Some (t # ts, r')"
      using p Some r(8) ih(1) by simp
    ultimately show ?thesis by blast
  qed
qed simp

section \<open>Runs of the interface\<close>

text \<open>
  One call of the interface. \<open>TPop\<close> hands the heap's reference to the owner's drain, which
  drops it with \<open>TDone\<close>. A step is refused (\<open>None\<close>) when the caller breaks the reference
  discipline of the header, or the slab hands out an address still in use.
\<close>

datatype timer_op =
    TSet timer_env int nat nat bool
  | TCancel bool nat
  | TRelease nat
  | TPop "nat \<Rightarrow> bool" int
  | TDone nat
  | TPeek
  | TPark timer_env nat bool int
  | TUnpark bool nat
  | TDrain timer_env "nat \<Rightarrow> bool"

fun timer_step :: "timer_op \<Rightarrow> timer_loop \<times> (nat \<Rightarrow> nat) \<Rightarrow> (timer_loop \<times> (nat \<Rightarrow> nat)) option" where
  "timer_step (TSet e delay_ns fn user out) (l, ext) =
     (if (case te_new e of None \<Rightarrow> True | Some t \<Rightarrow> \<not> tl_live l t)
      then (case xtc_timer_set e (Some l) delay_ns fn user out of (rc, ht, lo) \<Rightarrow>
        (case lo of None \<Rightarrow> None | Some r \<Rightarrow>
           Some (r, case ht of None \<Rightarrow> ext | Some t \<Rightarrow> ext(t := ext t + 1))))
      else None)"
| "timer_step (TCancel on_owner t) (l, ext) =
     (if 0 < ext t then Some (snd (xtc_timer_cancel on_owner (Some t) l), ext) else None)"
| "timer_step (TRelease t) (l, ext) =
     (if 0 < ext t \<and> tm_from_slab (tl_nodes l t)
      then Some (snd (xtc_timer_release (Some t) l), ext(t := ext t - 1)) else None)"
| "timer_step (TPop race now_ns) (l, ext) =
     (case timer_heap_pop_due race now_ns l of (p, r) \<Rightarrow>
        Some (r, case p of None \<Rightarrow> ext | Some t \<Rightarrow> ext(t := ext t + 1)))"
| "timer_step (TDone t) (l, ext) =
     (if 0 < ext t then Some (park_release (Some t) l, ext(t := ext t - 1)) else None)"
| "timer_step TPeek (l, ext) = Some (snd (timer_heap_next_deadline l), ext)"
| "timer_step (TPark e w fd_parked delay_ns) (l, ext) =
     (if (case te_new e of None \<Rightarrow> True | Some t \<Rightarrow> \<not> tl_live l t)
      then Some (snd (xtc_task_park_on_timer e (Some w) fd_parked delay_ns l), ext) else None)"
| "timer_step (TUnpark on_owner w) (l, ext) = Some (task_cancel_park_timer on_owner (Some w) l, ext)"
| "timer_step (TDrain e race) (l, ext) =
     map_option (\<lambda>(rc, ts, r). (r, ext))
       (drain_due_timers (Suc (length (tl_timers l))) e race no_late quiet_cb l)"

fun timer_run :: "timer_op list \<Rightarrow> timer_loop \<times> (nat \<Rightarrow> nat) \<Rightarrow> (timer_loop \<times> (nat \<Rightarrow> nat)) option" where
  "timer_run [] s = Some s"
| "timer_run (a # as) s = (case timer_step a s of None \<Rightarrow> None | Some s' \<Rightarrow> timer_run as s')"

definition loop_start :: "timer_loop \<times> (nat \<Rightarrow> nat)" where
  "loop_start = (\<lparr>tl_timers = [], tl_cap = 0, tl_nodes = \<lambda>_. timer_zero, tl_live = \<lambda>_. False,
     tl_park = \<lambda>_. None, tl_woken = []\<rparr>, \<lambda>_. 0)"

definition run_ok :: "timer_loop \<times> (nat \<Rightarrow> nat) \<Rightarrow> bool" where
  "run_ok s = (tl_inv (total_refs (snd s) (fst s)) (fst s) \<and> tl_unclaimed (fst s) \<and> parks_inj (fst s))"

lemma run_okI:
  assumes "tl_inv f r" "tl_unclaimed r" "parks_inj l" "tl_park r = tl_park l" "f = total_refs ext l"
  shows "run_ok (r, ext)"
  using assms total_cong [OF assms(4)] parks_inj_cong [OF assms(4)] by (simp add: run_ok_def)

lemma run_okD:
  assumes "run_ok (l, ext)"
  shows "tl_inv (total_refs ext l) l" "tl_unclaimed l" "parks_inj l"
  using assms by (simp_all add: run_ok_def)

lemma dead_refs:
  assumes "tl_inv (total_refs ext l) l" "\<not> tl_live l t"
  shows "ext t = 0" "slot_refs l t = 0" "t \<notin> ran (tl_park l)"
  using assms by (auto simp: tl_inv_def tl_refs_ok_def owners_def total_refs_def slot_refs_def split: if_splits)

lemma try_cancel_park [simp]: "tl_park (snd (timer_try_cancel on_owner t l)) = tl_park l"
  by (simp add: timer_try_cancel_def Let_def heap_remove_at_def timer_mark_def)

lemma try_cancel_inv:
  assumes "tl_inv e l" "tl_unclaimed l" "0 < e t"
  shows "tl_inv e (snd (timer_try_cancel on_owner t l)) \<and> tl_unclaimed (snd (timer_try_cancel on_owner t l))"
proof (cases "tm_fired (tl_nodes l t) = 0")
  case True
  have "tl_live l t" using assms(1,3) by (simp add: tl_inv_def tl_refs_ok_def owners_def)
  with try_cancel_ok [OF assms(1,2) _ True assms(3)] show ?thesis by simp
next
  case False
  with assms show ?thesis by (simp add: timer_try_cancel_def)
qed

text \<open>Each kind of step keeps the run invariant.\<close>

lemma set_step_ok:
  assumes s: "run_ok (l, ext)" and st: "timer_step (TSet e delay_ns fn user out) (l, ext) = Some s'"
  shows "run_ok s'"
proof -
  note i = run_okD [OF s]
  have fresh: "\<not> tl_live l t" if "te_new e = Some t" for t
    using st that by (simp split: if_splits)
  obtain rc ht r where p: "xtc_timer_set e (Some l) delay_ns fn user out = (rc, ht, Some r)"
    "set_post e delay_ns out (total_refs ext l) l rc ht r"
    using timer_set_ok [OF i(1,2) fresh] by blast
  with st have s': "s' = (r, case ht of None \<Rightarrow> ext | Some t \<Rightarrow> ext(t := ext t + 1))"
    by (simp split: if_splits option.splits)
  show ?thesis
  proof (cases "rc = XTC_OK")
    case True
    with p(2) obtain t where t: "te_new e = Some t" "ht = (if out then Some t else None)"
      "tl_inv ((total_refs ext l)(t := if out then 1 else 0)) r" "tl_unclaimed r" "tl_park r = tl_park l"
      by (auto simp: set_post_def)
    note z = dead_refs [OF i(1) fresh [OF t(1)]]
    show ?thesis
      unfolding s' by (rule run_okI [OF t(3,4) i(3) t(5)]) (use z t(2) in \<open>auto simp: total_upd total_refs_def fun_eq_iff\<close>)
  next
    case False
    with p(2) have r: "tl_inv (total_refs ext l) r" "tl_unclaimed r" "tl_park r = tl_park l" "ht = None"
      by (simp_all add: set_post_def)
    then show ?thesis unfolding s' using i(3) by (intro run_okI [OF r(1,2) i(3) r(3)]) simp
  qed
qed

lemma park_step_ok:
  assumes s: "run_ok (l, ext)" and st: "timer_step (TPark e w fd_parked delay_ns) (l, ext) = Some s'"
  shows "run_ok s'"
proof -
  note i = run_okD [OF s]
  have fresh: "\<not> tl_live l t" if "te_new e = Some t" for t
    using st that by (simp split: if_splits)
  let ?d = "wrap64 (te_now e + delay_ns)"
  obtain rc r where p: "task_park_on_timer_at e (Some w) fd_parked ?d l = (rc, r)" by fastforce
  note k = park_ok [OF i(1,2) fresh p]
  from st p have "s' = (l, ext) \<or> s' = (r, ext)"
    by (auto simp: xtc_task_park_on_timer_def split: if_splits)
  moreover have "run_ok (r, ext)"
  proof (cases "rc = XTC_OK")
    case True
    with k(2) obtain t where t: "te_new e = Some t" "tl_park l w = None"
      "tl_inv ((total_refs ext l)(t := 1)) r" "tl_unclaimed r" "tl_park r = (tl_park l)(w := Some t)" by blast
    note z = dead_refs [OF i(1) fresh [OF t(1)]]
    note f = slot_filled(1) [OF i(3) t(2) z(3) t(5)] slot_filled(2) [OF i(3) t(2) z(3) t(5), where ext = ext]
    from t f z(1) show ?thesis by (simp add: run_ok_def)
  next
    case False
    with k(1) have r: "tl_inv (total_refs ext l) r" "tl_unclaimed r" "tl_park r = tl_park l" by blast+
    then show ?thesis using i(3) by (intro run_okI [OF r(1,2) i(3) r(3)]) simp
  qed
  ultimately show ?thesis using s by blast
qed

lemma unpark_step_ok:
  assumes s: "run_ok (l, ext)"
  shows "run_ok (task_cancel_park_timer on_owner (Some w) l, ext)"
proof (cases "tl_park l w")
  case None
  then have "task_cancel_park_timer on_owner (Some w) l = l"
    by (simp add: task_cancel_park_timer_def fun_upd_idem)
  with s show ?thesis by simp
next
  case (Some t)
  note i = run_okD [OF s]
  let ?l = "l\<lparr>tl_park := (tl_park l)(w := None)\<rparr>"
  let ?m = "snd (timer_try_cancel on_owner t ?l)"
  let ?r = "park_release (Some t) ?m"
  have r: "task_cancel_park_timer on_owner (Some w) l = ?r"
    using Some by (simp add: task_cancel_park_timer_def xtc_timer_cancel_def)
  have "tl_park ?r = (tl_park l)(w := None)" by simp
  note c = slot_cleared(1) [OF i(3) Some this] slot_cleared(2,3) [OF i(3) Some this, where ext = ext]
  have "tl_inv (total_refs ext l) ?l" "tl_unclaimed ?l"
    using i by (simp_all add: tl_inv_def tl_refs_ok_def tl_heap_ok_def owners_def in_heap_def tl_unclaimed_def is_cancelled_def)
  from try_cancel_inv [OF this c(3)] have m: "tl_inv (total_refs ext l) ?m" "tl_unclaimed ?m" by blast+
  from park_release_inv [OF m(1) c(3)] park_release_unclaimed [OF m(2)] c show ?thesis
    by (simp add: r run_ok_def)
qed

lemma release_step_ok:
  assumes s: "run_ok (l, ext)" and t: "0 < ext t"
  shows "run_ok (park_release (Some t) l, ext(t := ext t - 1))"
proof -
  note i = run_okD [OF s]
  have "0 < total_refs ext l t" using t by (simp add: total_refs_def)
  from park_release_inv [OF i(1) this] have "tl_inv ((total_refs ext l)(t := total_refs ext l t - 1)) (park_release (Some t) l)" .
  moreover have "(total_refs ext l)(t := total_refs ext l t - 1) = total_refs (ext(t := ext t - 1)) l"
    using t by (auto simp: total_refs_def fun_eq_iff)
  ultimately show ?thesis
    using park_release_unclaimed [OF i(2)] by (intro run_okI [OF _ _ i(3)]) simp_all
qed

lemma pop_step_ok:
  assumes s: "run_ok (l, ext)" and p: "timer_heap_pop_due race now_ns l = (q, r)"
  shows "run_ok (r, case q of None \<Rightarrow> ext | Some t \<Rightarrow> ext(t := ext t + 1))"
proof -
  note i = run_okD [OF s]
  from pop_due_post [OF i(1,2), of race now_ns] p have pp: "pop_post race now_ns (total_refs ext l) l (q, r)" by simp
  then have r: "tl_unclaimed r" "tl_park r = tl_park l" by (simp_all add: pop_post_def pop_same_def)
  show ?thesis
  proof (cases q)
    case None
    with pp have "tl_inv (total_refs ext l) r" by (simp add: pop_post_def)
    with None show ?thesis using run_okI [OF _ r(1) i(3) r(2)] by simp
  next
    case (Some t)
    with pp have "tl_inv ((total_refs ext l)(t := Suc (total_refs ext l t))) r" by (simp add: pop_post_def)
    from run_okI [OF this r(1) i(3) r(2), of "ext(t := ext t + 1)"] Some show ?thesis
      by (simp add: total_upd) (simp add: total_refs_def)
  qed
qed

lemma timer_step_ok: "run_ok s \<Longrightarrow> timer_step a s = Some s' \<Longrightarrow> run_ok s'"
proof -
  assume s: "run_ok s" and st: "timer_step a s = Some s'"
  obtain l ext where l: "s = (l, ext)" by (cases s)
  note ok = s [unfolded l] and i = run_okD [OF s [unfolded l]]
  show ?thesis
  proof (cases a)
    case (TSet e delay_ns fn user out)
    with set_step_ok [OF ok] st l show ?thesis by blast
  next
    case (TCancel on_owner t)
    with st l have t: "0 < ext t" and s': "s' = (snd (timer_try_cancel on_owner t l), ext)"
      by (auto simp: xtc_timer_cancel_def split: if_splits)
    have "0 < total_refs ext l t" using t by (simp add: total_refs_def)
    from try_cancel_inv [OF i(1,2) this] show ?thesis
      unfolding s' by (intro run_okI [OF _ _ i(3)]) auto
  next
    case (TRelease t)
    with st l release_step_ok [OF ok] show ?thesis by (auto simp: xtc_timer_release_def split: if_splits)
  next
    case (TPop race now_ns)
    with st l pop_step_ok [OF ok, of race now_ns] show ?thesis by (auto split: prod.splits)
  next
    case (TDone t)
    with st l release_step_ok [OF ok] show ?thesis by (auto split: if_splits)
  next
    case TPeek
    obtain d r where d: "timer_heap_next_deadline l = (d, r)" by fastforce
    with next_deadline_ok [OF i(1,2)] have "tl_inv (total_refs ext l) r" "tl_unclaimed r" "tl_park r = tl_park l"
      by (auto simp: pop_same_def)
    then have "run_ok (r, ext)" by (intro run_okI [OF _ _ i(3)]) auto
    with st l TPeek d show ?thesis by simp
  next
    case (TPark e w fd_parked delay_ns)
    with park_step_ok [OF ok] st l show ?thesis by blast
  next
    case (TUnpark on_owner w)
    with unpark_step_ok [OF ok] st l show ?thesis by auto
  next
    case (TDrain e race)
    obtain ts r where "drain_loop (Suc (length (tl_timers l))) race no_late (te_grow_rc e) quiet_cb (te_now e) l = Some (ts, r)"
      "drain_post race (te_now e) ext l ts r"
      using drain_loop_ok [OF i lessI] by blast
    with st l TDrain ok show ?thesis
      by (auto simp: drain_due_timers_def drain_post_def run_ok_def split: if_splits)
  qed
qed

lemma timer_run_inv: "run_ok s \<Longrightarrow> timer_run as s = Some s' \<Longrightarrow> run_ok s'"
proof (induction as arbitrary: s)
  case (Cons a as)
  then obtain s1 where "timer_step a s = Some s1" "timer_run as s1 = Some s'" by (auto split: option.splits)
  with Cons timer_step_ok [of s a s1] show ?case by blast
qed simp

lemma loop_start_ok: "run_ok loop_start"
  by (simp add: run_ok_def loop_start_def tl_inv_def tl_refs_ok_def tl_heap_ok_def owners_def in_heap_def
      heap_inv_def heap_from_def indexed_def tl_unclaimed_def parks_inj_def total_refs_def slot_refs_def)

lemma timer_run_ok: "timer_run as loop_start = Some (l, ext) \<Longrightarrow> run_ok (l, ext)"
  using timer_run_inv [OF loop_start_ok] by blast

lemma make_room_cap:
  assumes "tl_inv ext l"
  shows "tl_cap (snd (heap_make_room rc l)) \<le> max (tl_cap l) (max 8 (4 * length (uncancelled l (tl_timers l))))"
proof -
  let ?l = "if tl_timers l \<noteq> [] then sweep_cancelled l else l"
  note sw = sweep_cancelled_ok [OF assms]
  have "length (tl_timers (sweep_cancelled l)) = length (uncancelled l (tl_timers l))" using sw(2) by (metis size_mset)
  then have n: "length (tl_timers ?l) = length (uncancelled l (tl_timers l))" "tl_cap ?l = tl_cap l"
    using sw(3) by (auto simp: uncancelled_def)
  show ?thesis
  proof (cases "tl_cap l \<le> length (tl_timers l) \<and> (tl_cap ?l = 0 \<or> tl_cap ?l div 2 < length (tl_timers ?l))")
    case True
    then have "tl_cap l = 0 \<or> tl_cap l * 2 \<le> 4 * length (uncancelled l (tl_timers l))" using n by linarith
    moreover have "snd (heap_make_room rc l) = snd (timer_grow rc ?l)"
      using True by (simp add: heap_make_room_def Let_def)
    ultimately show ?thesis using n(2) by (auto simp: timer_grow_def)
  next
    case False
    then have "snd (heap_make_room rc l) = l \<or> snd (heap_make_room rc l) = ?l"
      by (auto simp: heap_make_room_def Let_def)
    then show ?thesis using n(2) by auto
  qed
qed

lemma heap_push_cap: "tl_cap (snd (timer_heap_push rc t l)) = tl_cap (snd (heap_make_room rc l))"
  by (simp add: timer_heap_push_def Let_def split_beta)

section \<open>Properties\<close>

definition sample_env :: "nat \<Rightarrow> timer_env" where
  "sample_env t = \<lparr>te_slab_rc = XTC_OK, te_calloc_rc = XTC_OK, te_new = Some t, te_clock_rc = XTC_OK,
     te_now = 100, te_grow_rc = XTC_OK\<rparr>"

text \<open>Five timers: one of a parked task, one cancelled from another thread, one by the owner.\<close>

definition sample_ops :: "timer_op list" where
  "sample_ops = [TSet (sample_env 1) 50 7 0 True, TSet (sample_env 2) 10 7 0 False,
     TSet (sample_env 3) 30 7 0 True, TSet (sample_env 4) 20 7 0 True, TPark (sample_env 5) 0 False 15,
     TCancel False 3, TCancel True 4]"

definition timer_sample :: "timer_loop \<times> (nat \<Rightarrow> nat)" where
  "timer_sample = the (timer_run sample_ops loop_start)"

lemma timer_sample_run: "timer_run sample_ops loop_start = Some (fst timer_sample, snd timer_sample)"
proof -
  have "\<not> Option.is_none (timer_run sample_ops loop_start)" by code_simp
  then show ?thesis by (auto simp: timer_sample_def Option.is_none_def)
qed

text \<open>
  C3. After any sequence of interface calls the timer array is a min-heap on the
  deadlines, every queued node's \<open>heap_idx\<close> is its position and its slot carries its
  deadline, every other allocated node has index -1, each allocated node's reference count
  is its number of owners (heap, handles, park slot), and a node is allocated exactly while
  it has an owner: no timer is freed while something refers to it, and none is leaked.
\<close>

theorem timer_run_safe:
  assumes "timer_run as loop_start = Some (l, ext)"
  shows "tl_inv (total_refs ext l) l \<and> tl_unclaimed l \<and> parks_inj l"
  using run_okD [OF timer_run_ok [OF assms]] by blast

theorem timer_run_safe_witness:
  "tl_inv (total_refs (snd timer_sample) (fst timer_sample)) (fst timer_sample)"
  using timer_run_safe [OF timer_sample_run] by blast

text \<open>
  C14. Popping a due timer: whatever cancels race with the pop, it returns a timer whose
  deadline has passed, that was not cancelled, and that is the earliest such; it claims the
  timer, takes exactly that one out of the heap and passes on the heap's reference. It
  returns none only if no such timer is due.
\<close>

theorem pop_due_earliest:
  assumes "timer_run as loop_start = Some (l, ext)"
  shows "pop_post race now_ns (total_refs ext l) l (timer_heap_pop_due race now_ns l)"
  by (intro pop_due_post run_okD [OF timer_run_ok [OF assms]])

theorem pop_due_earliest_witness:
  "pop_post no_race 120 (total_refs (snd timer_sample) (fst timer_sample)) (fst timer_sample)
     (timer_heap_pop_due no_race 120 (fst timer_sample))
   \<and> fst (timer_heap_pop_due no_race 120 (fst timer_sample)) = Some 2
   \<and> fst (timer_heap_pop_due no_race 105 (fst timer_sample)) = None"
proof -
  have "fst (timer_heap_pop_due no_race 120 (fst timer_sample)) = Some 2" by code_simp
  moreover have "fst (timer_heap_pop_due no_race 105 (fst timer_sample)) = None" by code_simp
  ultimately show ?thesis using pop_due_earliest [OF timer_sample_run, of no_race 120] by blast
qed







text \<open>
  C40. The sifts are a priority queue: pushing any timers with distinct nodes into an
  empty heap and popping until it is empty yields the deadlines in the order of the
  library's sort.
\<close>

theorem heap_drain_sorts:
  assumes "distinct (map snd xs)"
  shows "map fst (dq_drain heap_top_slot heap_pop_slots (length xs) (fold heap_push_slots xs ([], nd)))
    = sort (map fst xs)"
  by (rule dq.push_drain_equivalence [OF _ _ assms]) (simp_all add: heap_inv_def heap_from_def indexed_def)

theorem heap_drain_sorts_witness:
  "map fst (dq_drain heap_top_slot heap_pop_slots 4
     (fold heap_push_slots [(5, 1), (2, 2), (9, 3), (2, 4)] ([], \<lambda>_. timer_zero))) = [2, 2, 5, 9]"
  using heap_drain_sorts [of "[(5, 1), (2, 2), (9, 3), (2, 4)]" "\<lambda>_. timer_zero"] by (simp add: numeral_eq_Suc)

end
