(* ===== verification/Sized_Struct.thy ===== *)
theory Sized_Struct
  imports Xtc_Prelude
begin

text \<open>
  Size-first public structs (\<open>src/src/inc/xtc_int.h\<close>). Every option struct a caller
  allocates begins with its own size; two inline helpers are the only code that
  interprets that size. The model works on the bytes: an object is the list of the bytes
  readable from its address, a byte is a natural number below 256, and a \<open>size_t\<close> is
  stored little-endian in eight bytes.
\<close>

section \<open>Little-endian fields\<close>

fun le_bytes :: "nat \<Rightarrow> nat \<Rightarrow> nat list" where
  "le_bytes 0 v = []"
| "le_bytes (Suc n) v = (v mod 256) # le_bytes n (v div 256)"

fun le_val :: "nat list \<Rightarrow> nat" where
  "le_val [] = 0"
| "le_val (b # bs) = b + 256 * le_val bs"

lemma length_le_bytes [simp]: "length (le_bytes n v) = n"
  by (induction n arbitrary: v) auto

lemma le_val_le_bytes: "le_val (le_bytes n v) = v mod 256 ^ n"
proof (induction n arbitrary: v)
  case 0
  then show ?case by simp
next
  case (Suc n)
  have "v mod (256 * 256 ^ n) = 256 * (v div 256 mod 256 ^ n) + v mod 256"
    by (rule mod_mult2_eq)
  with Suc show ?case by simp
qed

lemma le_val_le_bytes_id: "v < 256 ^ n \<Longrightarrow> le_val (le_bytes n v) = v"
  by (simp add: le_val_le_bytes)

text \<open>A signed 64-bit field read from its eight bytes.\<close>

definition i64_of_bytes :: "nat list \<Rightarrow> int" where
  "i64_of_bytes bs = (let v = int (le_val bs) in if v < 2 ^ 63 then v else v - 2 ^ 64)"

definition i64_bytes :: "int \<Rightarrow> nat list" where
  "i64_bytes x = le_bytes 8 (nat (x mod 2 ^ 64))"

lemma i64_roundtrip:
  assumes "- (2 ^ 63) \<le> x" "x \<le> INT64_MAX"
  shows "i64_of_bytes (i64_bytes x) = x"
proof -
  have "nat (x mod 2 ^ 64) < 256 ^ 8"
    using pos_mod_bound [of "2 ^ 64" x] by simp
  then have v: "int (le_val (i64_bytes x)) = x mod 2 ^ 64"
    by (simp add: i64_bytes_def le_val_le_bytes_id)
  show ?thesis
  proof (cases "0 \<le> x")
    case True
    with assms have "x mod 2 ^ 64 = x" by (simp add: INT64_MAX_def)
    with v True assms show ?thesis by (simp add: i64_of_bytes_def INT64_MAX_def)
  next
    case False
    have "x mod 2 ^ 64 = (x + 2 ^ 64) mod 2 ^ 64" by simp
    also have "\<dots> = x + 2 ^ 64" using False assms by (intro mod_pos_pos_trivial) auto
    finally show ?thesis using v False assms by (simp add: i64_of_bytes_def)
  qed
qed

section \<open>The two helpers\<close>

abbreviation sizeof_size_t :: nat where
  "sizeof_size_t \<equiv> 8"

definition size_field :: "nat list \<Rightarrow> nat" where
  "size_field src = le_val (take sizeof_size_t src)"

text \<open>
  The caller's side of the contract: the object holds at least the bytes its size field
  claims (and the field itself).
\<close>

definition sized_obj :: "nat list \<Rightarrow> bool" where
  "sized_obj src \<longleftrightarrow> sizeof_size_t \<le> length src \<and> size_field src \<le> length src"

definition sized_in ::
  "nat list option \<Rightarrow> nat \<Rightarrow> nat list \<Rightarrow> nat \<Rightarrow> xtc_err + nat list" where
  "sized_in dflt full src mn =
     (let sz = size_field src in
      if sz < sizeof_size_t \<or> sz < mn then Inl XTC_E_INVAL
      else if full < sz \<and> (\<exists>b \<in> set (take (sz - full) (drop full src)). b \<noteq> 0)
      then Inl XTC_E_VERSION
      else let n = min sz full;
               base = (case dflt of Some d \<Rightarrow> take full d | None \<Rightarrow> replicate full 0);
               dst = take n src @ drop n base
           in Inr (le_bytes sizeof_size_t full @ drop sizeof_size_t dst))"

definition sized_out :: "nat list \<Rightarrow> nat list \<Rightarrow> nat \<Rightarrow> xtc_err + nat list" where
  "sized_out dst src full =
     (let sz = size_field dst in
      if sz < sizeof_size_t then Inl XTC_E_INVAL
      else let m = min sz full;
               d1 = take sizeof_size_t dst @ drop sizeof_size_t (take m src) @ drop m dst
           in Inr (if full < sz
                   then take full d1 @ replicate (sz - full) 0 @ drop sz d1
                   else d1))"

text \<open>Which bytes a successful read of a caller's struct delivers.\<close>

lemma sized_in_bytes:
  assumes r: "sized_in dflt full src mn = Inr dst"
    and src: "sized_obj src"
    and d: "\<forall>d. dflt = Some d \<longrightarrow> length d = full" and full: "8 \<le> full"
  shows "length dst = full"
    and "8 \<le> i \<Longrightarrow> i < full \<Longrightarrow>
         dst ! i = (if i < size_field src then src ! i
                    else case dflt of Some d \<Rightarrow> d ! i | None \<Rightarrow> 0)"
    and "full < 256 ^ 8 \<Longrightarrow> size_field dst = full"
proof -
  define sz where "sz = size_field src"
  define base where "base = (case dflt of Some d \<Rightarrow> take full d | None \<Rightarrow> replicate full 0)"
  define body where "body = take (min sz full) src @ drop (min sz full) base"
  from r have dst: "dst = le_bytes 8 full @ drop 8 body" and sz: "8 \<le> sz"
    unfolding body_def base_def sz_def
    by (auto simp: sized_in_def Let_def split: if_splits simp del: drop_append)
  have base: "length base = full" using d by (simp add: base_def split: option.splits)
  have lsrc: "sz \<le> length src" using src by (simp add: sized_obj_def sz_def)
  have body: "length body = full" using base lsrc by (simp add: body_def)
  show "length dst = full" using dst body full by simp
  show "size_field dst = full" if "full < 256 ^ 8"
    using that by (simp add: dst size_field_def le_val_le_bytes_id)
  assume i: "8 \<le> i" "i < full"
  then have "dst ! i = body ! i" using dst body by (simp add: nth_append)
  also have "\<dots> = (if i < sz then src ! i else base ! i)"
    using i lsrc base by (simp add: nth_append min_def body_def)
  also have "base ! i = (case dflt of Some d \<Rightarrow> d ! i | None \<Rightarrow> 0)"
    using i by (simp add: base_def split: option.splits)
  finally show "dst ! i = (if i < size_field src then src ! i
                    else case dflt of Some d \<Rightarrow> d ! i | None \<Rightarrow> 0)"
    by (simp add: sz_def)
qed

lemma sized_in_cases:
  "sized_in dflt full src mn = Inl e \<Longrightarrow> e = XTC_E_INVAL \<or> e = XTC_E_VERSION"
  by (auto simp: sized_in_def Let_def split: if_splits)

section \<open>Properties\<close>

text \<open>
  C24. Reading a caller's struct of any version. A struct that claims less than its own size
  field or than the required minimum is refused with \<open>XTC_E_INVAL\<close>; a newer struct with a
  non-zero byte this library does not know is refused with \<open>XTC_E_VERSION\<close>; every other
  struct is read as the library's own: each byte the caller supplied, the default (or zero)
  where the caller's version ends, and the library's size in the size field.
\<close>

theorem sized_in_versions:
  assumes "sized_obj src" "\<forall>d. dflt = Some d \<longrightarrow> length d = full" "8 \<le> full" "full < 256 ^ 8"
  shows "case sized_in dflt full src mn of
      Inl e \<Rightarrow> (e = XTC_E_INVAL \<and> size_field src < max 8 mn) \<or>
        (e = XTC_E_VERSION \<and> (\<exists>i. full \<le> i \<and> i < size_field src \<and> src ! i \<noteq> 0))
    | Inr dst \<Rightarrow> max 8 mn \<le> size_field src \<and> length dst = full \<and> size_field dst = full \<and>
        (\<forall>i. full \<le> i \<and> i < size_field src \<longrightarrow> src ! i = 0) \<and>
        (\<forall>i. 8 \<le> i \<and> i < full \<longrightarrow> dst ! i =
           (if i < size_field src then src ! i else case dflt of Some d \<Rightarrow> d ! i | None \<Rightarrow> 0))"
proof -
  have len: "size_field src \<le> length src" using assms(1) by (simp add: sized_obj_def)
  have tail: "(\<exists>b \<in> set (take (size_field src - full) (drop full src)). b \<noteq> 0) \<longleftrightarrow>
      (\<exists>i. full \<le> i \<and> i < size_field src \<and> src ! i \<noteq> 0)" (is "?l = ?r")
  proof
    assume ?l
    then obtain j where "j < size_field src - full" "src ! (full + j) \<noteq> 0"
      using len by (auto simp: in_set_conv_nth)
    then show ?r by (intro exI [of _ "full + j"]) simp
  next
    assume ?r
    then obtain i where "full \<le> i" "i < size_field src" "src ! i \<noteq> 0" by blast
    then show ?l using len by (auto simp: in_set_conv_nth intro!: bexI [of _ "src ! i"] exI [of _ "i - full"])
  qed
  show ?thesis
  proof (cases "sized_in dflt full src mn")
    case (Inl e)
    then show ?thesis using tail by (auto simp: sized_in_def Let_def split: if_splits)
  next
    case (Inr dst)
    then have "max 8 mn \<le> size_field src" "\<forall>i. full \<le> i \<and> i < size_field src \<longrightarrow> src ! i = 0"
      using tail by (auto simp: sized_in_def Let_def split: if_splits)
    with sized_in_bytes [OF Inr assms(1-3)] Inr assms(4) show ?thesis by simp
  qed
qed

theorem sized_in_versions_witness:
  "\<exists>dst. sized_in (Some (le_bytes 8 12 @ [1, 2, 3, 4])) 12 (le_bytes 8 10 @ [7, 8]) 8 = Inr dst \<and>
     sized_obj (le_bytes 8 10 @ [7, 8]) \<and> length dst = 12 \<and> size_field dst = 12 \<and>
     dst ! 9 = 8 \<and> dst ! 10 = 3"
proof -
  have run: "sized_in (Some (le_bytes 8 12 @ [1, 2, 3, 4])) 12 (le_bytes 8 10 @ [7, 8]) 8 =
     Inr (le_bytes 8 12 @ [7, 8, 3, 4])" by code_simp
  have obj: "sized_obj (le_bytes 8 10 @ [7, 8])" by code_simp
  from sized_in_versions [OF obj, of "Some (le_bytes 8 12 @ [1, 2, 3, 4])" 12 8] run
  have all: "length (le_bytes 8 12 @ [7, 8, 3, 4]) = 12" "size_field (le_bytes 8 12 @ [7, 8, 3, 4]) = 12"
    "\<forall>i. 8 \<le> i \<and> i < 12 \<longrightarrow> (le_bytes 8 12 @ [7, 8, 3, 4]) ! i =
      (if i < size_field (le_bytes 8 10 @ [7, 8]) then (le_bytes 8 10 @ [7, 8]) ! i
       else (le_bytes 8 12 @ [1, 2, 3, 4]) ! i)"
    by simp_all
  have "(le_bytes 8 12 @ [7, 8, 3, 4]) ! 9 = 8" "(le_bytes 8 12 @ [7, 8, 3, 4]) ! 10 = 3"
    using all(3) [rule_format, of 9] all(3) [rule_format, of 10] by code_simp+
  with run obj all show ?thesis by blast
qed

end
