(* ===== verification/Res.thy ===== *)
theory Res
  imports Sized_Struct
begin

text \<open>
  The resource accountant (\<open>src/src/inc/xtc_res.h\<close>, \<open>src/src/ptc/res.c\<close>): one record of
  caps and counters per resource kind. This theory models every operation of the
  accountant executed by one caller at a time; theory \<open>Res_Conc\<close> models its atomic
  accesses interleaved by many threads.

  A kind is the C enumerator's integer value, so that the range tests of the code are
  branches of the model; an array indexed by kind is a function on the natural numbers.
  The high-water callback is observed through \<open>rs_fired\<close>, the list of the calls made to
  it, newest first. An \<open>alert_fn\<close> is an option value: None is the NULL callback.
\<close>

section \<open>Kinds and caps\<close>

abbreviation (input) XTC_RES_TASKS :: int where "XTC_RES_TASKS \<equiv> 0"
abbreviation (input) XTC_RES_CHANNELS :: int where "XTC_RES_CHANNELS \<equiv> 1"
abbreviation (input) XTC_RES_CHAN_SLOTS :: int where "XTC_RES_CHAN_SLOTS \<equiv> 2"
abbreviation (input) XTC_RES_FDS :: int where "XTC_RES_FDS \<equiv> 3"
abbreviation (input) XTC_RES_MEM_BYTES :: int where "XTC_RES_MEM_BYTES \<equiv> 4"
abbreviation (input) XTC_RES_INBOX_MSGS :: int where "XTC_RES_INBOX_MSGS \<equiv> 5"
abbreviation (input) XTC_RES_COUNT :: int where "XTC_RES_COUNT \<equiv> 6"

definition res_kind_ok :: "int \<Rightarrow> bool" where
  "res_kind_ok k \<longleftrightarrow> \<not> (k < 0 \<or> k \<ge> XTC_RES_COUNT)"

record res_caps =
  rc_tasks :: int
  rc_channels :: int
  rc_chan_slots :: int
  rc_fds :: int
  rc_mem_bytes :: int
  rc_inbox_msgs :: int

definition RES_CAPS_DEFAULT :: res_caps where
  "RES_CAPS_DEFAULT =
     \<lparr>rc_tasks = 100000, rc_channels = 4096, rc_chan_slots = 1000000, rc_fds = 65536,
      rc_mem_bytes = 1024 * 1024 * 1024, rc_inbox_msgs = 65536\<rparr>"

text \<open>The caps struct as bytes: the size field and six 64-bit fields.\<close>

abbreviation sizeof_res_caps :: nat where
  "sizeof_res_caps \<equiv> 56"

definition res_caps_bytes :: "res_caps \<Rightarrow> nat list" where
  "res_caps_bytes c = le_bytes 8 sizeof_res_caps @ i64_bytes (rc_tasks c) @
     i64_bytes (rc_channels c) @ i64_bytes (rc_chan_slots c) @ i64_bytes (rc_fds c) @
     i64_bytes (rc_mem_bytes c) @ i64_bytes (rc_inbox_msgs c)"

definition caps_field :: "nat list \<Rightarrow> nat \<Rightarrow> int" where
  "caps_field bs j = i64_of_bytes (take 8 (drop (8 * j) bs))"

definition res_caps_of_bytes :: "nat list \<Rightarrow> res_caps" where
  "res_caps_of_bytes bs =
     \<lparr>rc_tasks = caps_field bs 1, rc_channels = caps_field bs 2,
      rc_chan_slots = caps_field bs 3, rc_fds = caps_field bs 4,
      rc_mem_bytes = caps_field bs 5, rc_inbox_msgs = caps_field bs 6\<rparr>"

definition cap_for :: "res_caps \<Rightarrow> int \<Rightarrow> int" where
  "cap_for c k =
     (if k = XTC_RES_TASKS then rc_tasks c
      else if k = XTC_RES_CHANNELS then rc_channels c
      else if k = XTC_RES_CHAN_SLOTS then rc_chan_slots c
      else if k = XTC_RES_FDS then rc_fds c
      else if k = XTC_RES_MEM_BYTES then rc_mem_bytes c
      else if k = XTC_RES_INBOX_MSGS then rc_inbox_msgs c
      else 0)"

section \<open>Binary64 arithmetic of the alert threshold\<close>

text \<open>
  The alert fraction is a \<open>double\<close>. A finite one is a pair \<open>DFin m e\<close> of value
  \<open>m * 2 ^ e\<close>; conversion from a 64-bit integer and multiplication round to 53
  significant bits, to nearest, ties to even. A product of a positive fraction and a
  cap of at least one is never below the fraction, so no result here underflows.
\<close>

datatype dbl = DNaN | DInf bool | DFin int int

definition dbl_pos :: "dbl \<Rightarrow> bool" where
  "dbl_pos d = (case d of DNaN \<Rightarrow> False | DInf neg \<Rightarrow> \<not> neg | DFin m e \<Rightarrow> 0 < m)"

definition dbl_lt_one :: "dbl \<Rightarrow> bool" where
  "dbl_lt_one d = (case d of DNaN \<Rightarrow> False | DInf neg \<Rightarrow> neg
     | DFin m e \<Rightarrow> if 0 \<le> e then m * 2 ^ nat e < 1 else m < 2 ^ nat (- e))"

fun bit_length :: "nat \<Rightarrow> nat" where
  "bit_length n = (if n = 0 then 0 else Suc (bit_length (n div 2)))"

declare bit_length.simps [simp del]

definition round53 :: "int \<Rightarrow> int \<Rightarrow> dbl" where
  "round53 m e =
     (let s = bit_length (nat \<bar>m\<bar>) - 53 in
      if s = 0 then DFin m e
      else let q = \<bar>m\<bar> div 2 ^ s; r = \<bar>m\<bar> mod 2 ^ s; half = 2 ^ (s - 1);
               q' = (if half < r \<or> (r = half \<and> odd q) then q + 1 else q)
           in DFin (sgn m * q') (e + int s))"

definition dbl_of_int64 :: "int \<Rightarrow> dbl" where
  "dbl_of_int64 c = round53 c 0"

definition dbl_mul :: "dbl \<Rightarrow> dbl \<Rightarrow> dbl" where
  "dbl_mul a b = (case (a, b) of
       (DFin m e, DFin m' e') \<Rightarrow> round53 (m * m') (e + e')
     | _ \<Rightarrow> DNaN)"

definition int64_of_dbl :: "dbl \<Rightarrow> int" where
  "int64_of_dbl d = (case d of
       DFin m e \<Rightarrow> if 0 \<le> e then m * 2 ^ nat e else sgn m * (\<bar>m\<bar> div 2 ^ nat (- e))
     | _ \<Rightarrow> - (2 ^ 63))"

definition alert_threshold :: "dbl \<Rightarrow> int \<Rightarrow> int" where
  "alert_threshold pct cap = int64_of_dbl (dbl_mul pct (dbl_of_int64 cap))"

section \<open>The accountant\<close>

record xtc_res =
  rs_caps :: res_caps
  rs_used :: "nat \<Rightarrow> int"
  rs_high :: "nat \<Rightarrow> int"
  rs_rejects :: "nat \<Rightarrow> int"
  rs_alert_pct :: "nat \<Rightarrow> dbl"
  rs_alert_armed :: "nat \<Rightarrow> bool"
  rs_alert_fn :: "nat option"
  rs_alert_user :: nat
  rs_fired :: "(int \<times> int \<times> int) list"

definition res_reset :: "res_caps \<Rightarrow> xtc_res \<Rightarrow> xtc_res" where
  "res_reset c r = r\<lparr>rs_caps := c, rs_used := (\<lambda>_. 0), rs_high := (\<lambda>_. 0),
     rs_rejects := (\<lambda>_. 0), rs_alert_pct := (\<lambda>_. DFin 0 0),
     rs_alert_armed := (\<lambda>_. True), rs_alert_fn := None, rs_alert_user := 0\<rparr>"

text \<open>
  Initialisation. \<open>mem_max\<close> is what \<open>__os_mem_max\<close> reports (zero or less when unknown).
\<close>

fun xtc_res_init ::
  "int \<Rightarrow> nat list option \<Rightarrow> xtc_res option \<Rightarrow> xtc_err \<times> xtc_res option" where
  "xtc_res_init mem_max caps None = (XTC_E_INVAL, None)"
| "xtc_res_init mem_max None (Some r) =
     (let d = RES_CAPS_DEFAULT;
          d' = (if 0 < mem_max \<and> mem_max < rc_mem_bytes d
                then d\<lparr>rc_mem_bytes := mem_max\<rparr> else d)
      in (XTC_OK, Some (res_reset d' r)))"
| "xtc_res_init mem_max (Some bs) (Some r) =
     (case sized_in (Some (res_caps_bytes RES_CAPS_DEFAULT)) sizeof_res_caps bs 0 of
        Inl e \<Rightarrow> (e, Some r)
      | Inr dst \<Rightarrow> (XTC_OK, Some (res_reset (res_caps_of_bytes dst) r)))"

definition res_reject :: "xtc_res \<Rightarrow> nat \<Rightarrow> xtc_res" where
  "res_reject r i = r\<lparr>rs_rejects := (rs_rejects r)(i := wrap64 (rs_rejects r i + 1))\<rparr>"

definition res_note_high :: "xtc_res \<Rightarrow> nat \<Rightarrow> int \<Rightarrow> xtc_res" where
  "res_note_high r i nxt =
     (if rs_high r i < nxt then r\<lparr>rs_high := (rs_high r)(i := nxt)\<rparr> else r)"

definition res_alert :: "xtc_res \<Rightarrow> int \<Rightarrow> int \<Rightarrow> int \<Rightarrow> xtc_res" where
  "res_alert r k nxt cap =
     (if rs_alert_fn r \<noteq> None \<and> dbl_pos (rs_alert_pct r (nat k)) \<and> 0 < cap
      then if alert_threshold (rs_alert_pct r (nat k)) cap \<le> nxt \<and> rs_alert_armed r (nat k)
           then r\<lparr>rs_alert_armed := (rs_alert_armed r)(nat k := False),
                  rs_fired := (k, nxt, cap) # rs_fired r\<rparr>
           else r
      else r)"

fun xtc_res_acquire :: "xtc_res option \<Rightarrow> int \<Rightarrow> int \<Rightarrow> xtc_err \<times> xtc_res option" where
  "xtc_res_acquire None k n = (XTC_E_INVAL, None)"
| "xtc_res_acquire (Some r) k n =
     (if n < 0 \<or> k < 0 \<or> k \<ge> XTC_RES_COUNT then (XTC_E_INVAL, Some r)
      else let cap = cap_for (rs_caps r) k; i = nat k; cur = rs_used r i in
        if 0 < cur \<and> n > INT64_MAX - cur then (XTC_E_RESOURCE, Some (res_reject r i))
        else let nxt = cur + n in
          if 0 < cap \<and> nxt > cap then (XTC_E_RESOURCE, Some (res_reject r i))
          else let r1 = r\<lparr>rs_used := (rs_used r)(i := nxt)\<rparr>;
                   r2 = res_note_high r1 i nxt
               in (XTC_OK, Some (res_alert r2 k nxt cap)))"

fun xtc_res_release :: "xtc_res option \<Rightarrow> int \<Rightarrow> int \<Rightarrow> xtc_res option" where
  "xtc_res_release None k n = None"
| "xtc_res_release (Some r) k n =
     (if n \<le> 0 \<or> k < 0 \<or> k \<ge> XTC_RES_COUNT then Some r
      else let i = nat k; prev = rs_used r i;
               r1 = r\<lparr>rs_used := (rs_used r)(i := (if n < prev then prev - n else 0))\<rparr>;
               cap = cap_for (rs_caps r) k
           in Some (if dbl_pos (rs_alert_pct r1 i) \<and> 0 < cap
                    then if rs_used r1 i < alert_threshold (rs_alert_pct r1 i) cap
                         then r1\<lparr>rs_alert_armed := (rs_alert_armed r1)(i := True)\<rparr>
                         else r1
                    else r1))"

fun xtc_res_used :: "xtc_res option \<Rightarrow> int \<Rightarrow> int" where
  "xtc_res_used None k = 0"
| "xtc_res_used (Some r) k = (if k < 0 \<or> k \<ge> XTC_RES_COUNT then 0 else rs_used r (nat k))"

fun xtc_res_high :: "xtc_res option \<Rightarrow> int \<Rightarrow> int" where
  "xtc_res_high None k = 0"
| "xtc_res_high (Some r) k = (if k < 0 \<or> k \<ge> XTC_RES_COUNT then 0 else rs_high r (nat k))"

fun xtc_res_rejects :: "xtc_res option \<Rightarrow> int \<Rightarrow> int" where
  "xtc_res_rejects None k = 0"
| "xtc_res_rejects (Some r) k =
     (if k < 0 \<or> k \<ge> XTC_RES_COUNT then 0 else rs_rejects r (nat k))"

fun xtc_res_set_cap :: "xtc_res option \<Rightarrow> int \<Rightarrow> int \<Rightarrow> xtc_res option" where
  "xtc_res_set_cap None k cap = None"
| "xtc_res_set_cap (Some r) k cap =
     (if k < 0 \<or> k \<ge> XTC_RES_COUNT \<or> cap < 0 then Some r
      else let c = rs_caps r;
               c' = (if k = XTC_RES_TASKS then c\<lparr>rc_tasks := cap\<rparr>
                     else if k = XTC_RES_CHANNELS then c\<lparr>rc_channels := cap\<rparr>
                     else if k = XTC_RES_CHAN_SLOTS then c\<lparr>rc_chan_slots := cap\<rparr>
                     else if k = XTC_RES_FDS then c\<lparr>rc_fds := cap\<rparr>
                     else if k = XTC_RES_MEM_BYTES then c\<lparr>rc_mem_bytes := cap\<rparr>
                     else if k = XTC_RES_INBOX_MSGS then c\<lparr>rc_inbox_msgs := cap\<rparr>
                     else c)
           in Some (r\<lparr>rs_caps := c'\<rparr>))"

fun xtc_res_set_alert :: "xtc_res option \<Rightarrow> int \<Rightarrow> dbl \<Rightarrow> xtc_err \<times> xtc_res option" where
  "xtc_res_set_alert None k pct = (XTC_E_INVAL, None)"
| "xtc_res_set_alert (Some r) k pct =
     (if k < 0 \<or> k \<ge> XTC_RES_COUNT then (XTC_E_INVAL, Some r)
      else if \<not> (dbl_pos pct \<and> dbl_lt_one pct) then (XTC_E_INVAL, Some r)
      else (XTC_OK, Some (r\<lparr>rs_alert_pct := (rs_alert_pct r)(nat k := pct),
                            rs_alert_armed := (rs_alert_armed r)(nat k := True)\<rparr>)))"

fun xtc_res_set_alert_fn ::
  "xtc_res option \<Rightarrow> nat option \<Rightarrow> nat \<Rightarrow> xtc_err \<times> xtc_res option" where
  "xtc_res_set_alert_fn None fn user = (XTC_E_INVAL, None)"
| "xtc_res_set_alert_fn (Some r) fn user =
     (XTC_OK, Some (r\<lparr>rs_alert_fn := fn, rs_alert_user := user\<rparr>))"

section \<open>Well-formedness and what each operation keeps of it\<close>

text \<open>
  The counters are 64-bit values that are never negative, the caps are 64-bit values, and
  no counter passes a positive cap.
\<close>

definition res_ok :: "xtc_res \<Rightarrow> bool" where
  "res_ok r \<longleftrightarrow> (\<forall>k. res_kind_ok k \<longrightarrow>
     0 \<le> rs_used r (nat k) \<and> rs_used r (nat k) \<le> INT64_MAX \<and>
     (0 < cap_for (rs_caps r) k \<longrightarrow> rs_used r (nat k) \<le> cap_for (rs_caps r) k))"

lemma res_kind_ok_alt: "res_kind_ok k \<longleftrightarrow> 0 \<le> k \<and> k < 6"
  by (auto simp: res_kind_ok_def)

lemma res_kind_nat_eq:
  "res_kind_ok k \<Longrightarrow> res_kind_ok k' \<Longrightarrow> nat k = nat k' \<longleftrightarrow> k = k'"
  by (auto simp: res_kind_ok_def)

lemma res_okD:
  assumes "res_ok r" "res_kind_ok k"
  shows "0 \<le> rs_used r (nat k)" "rs_used r (nat k) \<le> INT64_MAX"
    "0 < cap_for (rs_caps r) k \<Longrightarrow> rs_used r (nat k) \<le> cap_for (rs_caps r) k"
  using assms by (auto simp: res_ok_def)

lemma res_note_high_simps [simp]:
  "rs_used (res_note_high r i x) = rs_used r"
  "rs_caps (res_note_high r i x) = rs_caps r"
  "rs_rejects (res_note_high r i x) = rs_rejects r"
  "rs_high (res_note_high r i x) = (rs_high r)(i := max (rs_high r i) x)"
  by (auto simp: res_note_high_def fun_eq_iff)

lemma res_alert_simps [simp]:
  "rs_used (res_alert r k x c) = rs_used r"
  "rs_caps (res_alert r k x c) = rs_caps r"
  "rs_rejects (res_alert r k x c) = rs_rejects r"
  "rs_high (res_alert r k x c) = rs_high r"
  by (simp_all add: res_alert_def)

lemma res_reject_simps [simp]:
  "rs_used (res_reject r i) = rs_used r"
  "rs_caps (res_reject r i) = rs_caps r"
  "rs_high (res_reject r i) = rs_high r"
  "rs_rejects (res_reject r i) = (rs_rejects r)(i := wrap64 (rs_rejects r i + 1))"
  by (simp_all add: res_reject_def)

text \<open>
  The acquire on a live accountant, on each of its outcomes. In the success case the
  addition does not overflow a 64-bit integer.
\<close>

lemma xtc_res_acquire_OK:
  assumes "xtc_res_acquire (Some r) k n = (XTC_OK, r')" "res_ok r" "n \<le> INT64_MAX"
  shows "\<exists>q. r' = Some q \<and> res_kind_ok k \<and> 0 \<le> n \<and>
    rs_used q = (rs_used r)(nat k := rs_used r (nat k) + n) \<and>
    rs_high q = (rs_high r)(nat k := max (rs_high r (nat k)) (rs_used r (nat k) + n)) \<and>
    rs_rejects q = rs_rejects r \<and> rs_caps q = rs_caps r \<and>
    rs_used r (nat k) + n \<le> INT64_MAX \<and>
    (0 < cap_for (rs_caps r) k \<longrightarrow> rs_used r (nat k) + n \<le> cap_for (rs_caps r) k)"
  using assms by (auto simp: Let_def res_kind_ok_def split: if_splits dest: res_okD(1))

lemma xtc_res_acquire_err:
  assumes "xtc_res_acquire (Some r) k n = (e, r')" "e \<noteq> XTC_OK"
  shows "\<exists>q. r' = Some q \<and> rs_used q = rs_used r \<and> rs_caps q = rs_caps r \<and>
    rs_high q = rs_high r \<and> (e = XTC_E_INVAL \<or> e = XTC_E_RESOURCE)"
  using assms by (auto simp: Let_def split: if_splits)

lemma xtc_res_release_used:
  assumes "res_kind_ok k" "0 < n"
  shows "\<exists>q. xtc_res_release (Some r) k n = Some q \<and>
    rs_used q = (rs_used r)(nat k := max 0 (rs_used r (nat k) - n)) \<and>
    rs_caps q = rs_caps r \<and> rs_high q = rs_high r \<and> rs_rejects q = rs_rejects r"
  using assms by (auto simp: Let_def res_kind_ok_def)

lemma xtc_res_release_Some: "\<exists>q. xtc_res_release (Some r) k n = Some q"
  by (auto simp: Let_def)

lemma res_ok_frame:
  "res_ok r \<Longrightarrow> rs_used q = rs_used r \<Longrightarrow> rs_caps q = rs_caps r \<Longrightarrow> res_ok q"
  by (simp add: res_ok_def)

lemma res_ok_upd:
  assumes "res_ok r" "res_kind_ok k" "rs_used q = (rs_used r)(nat k := v)" "rs_caps q = rs_caps r"
    "0 \<le> v" "v \<le> INT64_MAX" "0 < cap_for (rs_caps r) k \<longrightarrow> v \<le> cap_for (rs_caps r) k"
  shows "res_ok q"
  using assms by (auto simp: res_ok_def res_kind_nat_eq)

lemma res_ok_acquire [xtc_inv]:
  assumes "res_ok r" "n \<le> INT64_MAX" "xtc_res_acquire (Some r) k n = (e, Some q)"
  shows "res_ok q"
proof (cases "e = XTC_OK")
  case True
  with assms xtc_res_acquire_OK [of r k n "Some q"] show ?thesis
    by (auto intro!: res_ok_upd [of r k q] dest: res_okD(1) split: if_splits)
next
  case False
  with assms xtc_res_acquire_err [of r k n e "Some q"] show ?thesis
    by (auto intro: res_ok_frame)
qed

lemma res_ok_release [xtc_inv]:
  assumes "res_ok r" "xtc_res_release (Some r) k n = Some q"
  shows "res_ok q"
proof (cases "res_kind_ok k \<and> 0 < n")
  case True
  with xtc_res_release_used [of k n r] assms(2) have
    q: "rs_used q = (rs_used r)(nat k := max 0 (rs_used r (nat k) - n))" "rs_caps q = rs_caps r"
    by auto
  from True assms(1) show ?thesis
    by (intro res_ok_upd [OF assms(1) _ q]) (auto dest: res_okD)
next
  case False
  with assms show ?thesis by (auto simp: res_kind_ok_def)
qed

section \<open>The metering interface\<close>

text \<open>
  What a client of the accountant relies on, for one resource kind: a charge that
  succeeds adds exactly its amount and stays within the limit, a refused charge leaves the
  usage alone, a charge that fits is not refused, and a refund takes its amount off,
  flooring at zero.
\<close>

locale metering =
  fixes usage :: "'r \<Rightarrow> int"
    and limit :: "'r \<Rightarrow> int"
    and charge :: "'r \<Rightarrow> int \<Rightarrow> xtc_err \<times> 'r"
    and refund :: "'r \<Rightarrow> int \<Rightarrow> 'r"
    and ok :: "'r \<Rightarrow> bool"
  assumes usage_nonneg: "ok r \<Longrightarrow> 0 \<le> usage r"
    and usage_limit: "ok r \<Longrightarrow> 0 < limit r \<Longrightarrow> usage r \<le> limit r"
    and charge_ok: "ok r \<Longrightarrow> 0 \<le> n \<Longrightarrow> n \<le> INT64_MAX \<Longrightarrow> charge r n = (XTC_OK, q) \<Longrightarrow>
      usage q = usage r + n \<and> limit q = limit r \<and> ok q"
    and charge_err: "ok r \<Longrightarrow> charge r n = (e, q) \<Longrightarrow> e \<noteq> XTC_OK \<Longrightarrow>
      usage q = usage r \<and> limit q = limit r \<and> ok q"
    and charge_fits: "ok r \<Longrightarrow> 0 \<le> n \<Longrightarrow> usage r + n \<le> INT64_MAX \<Longrightarrow>
      (0 < limit r \<Longrightarrow> usage r + n \<le> limit r) \<Longrightarrow> fst (charge r n) = XTC_OK"
    and refund_law: "ok r \<Longrightarrow> 0 < n \<Longrightarrow>
      usage (refund r n) = max 0 (usage r - n) \<and> limit (refund r n) = limit r \<and> ok (refund r n)"

text \<open>A client's use of one kind is a sequence of charges and refunds.\<close>

datatype meter_op = Charge int | Refund int

fun meter_op_ok :: "meter_op \<Rightarrow> bool" where
  "meter_op_ok (Charge n) \<longleftrightarrow> 0 \<le> n \<and> n \<le> INT64_MAX"
| "meter_op_ok (Refund n) \<longleftrightarrow> 0 < n"

fun meter_run ::
  "('r \<Rightarrow> int \<Rightarrow> xtc_err \<times> 'r) \<Rightarrow> ('r \<Rightarrow> int \<Rightarrow> 'r) \<Rightarrow> 'r \<Rightarrow> meter_op list \<Rightarrow> 'r" where
  "meter_run charge refund r [] = r"
| "meter_run charge refund r (Charge n # ops) = meter_run charge refund (snd (charge r n)) ops"
| "meter_run charge refund r (Refund n # ops) = meter_run charge refund (refund r n) ops"

context metering
begin

lemma charge_keeps:
  assumes "ok r" "0 \<le> n" "n \<le> INT64_MAX"
  shows "ok (snd (charge r n)) \<and> limit (snd (charge r n)) = limit r"
proof (cases "charge r n")
  case (Pair e q)
  with assms charge_ok [of r n q] charge_err [of r n e q] show ?thesis
    by (cases "e = XTC_OK") auto
qed

lemma charge_refund:
  assumes "ok r" "0 < n" "n \<le> INT64_MAX" "charge r n = (XTC_OK, q)"
  shows "usage (refund q n) = usage r \<and> ok (refund q n)"
proof -
  from charge_ok [of r n q] assms have q: "usage q = usage r + n" "ok q" by auto
  with refund_law [of q n] assms usage_nonneg [of r] show ?thesis by auto
qed

lemma run_keeps:
  "ok r \<Longrightarrow> \<forall>op \<in> set ops. meter_op_ok op \<Longrightarrow>
   ok (meter_run charge refund r ops) \<and> limit (meter_run charge refund r ops) = limit r"
proof (induction ops arbitrary: r)
  case Nil
  then show ?case by simp
next
  case (Cons op ops)
  show ?case
  proof (cases op)
    case (Charge n)
    with Cons.prems charge_keeps [of r n] Cons.IH [of "snd (charge r n)"] show ?thesis
      by simp
  next
    case (Refund n)
    with Cons.prems refund_law [of r n] Cons.IH [of "refund r n"] show ?thesis
      by simp
  qed
qed

lemma run_within:
  assumes "ok r" "\<forall>op \<in> set ops. meter_op_ok op"
  shows "0 \<le> usage (meter_run charge refund r ops) \<and>
    (0 < limit r \<longrightarrow> usage (meter_run charge refund r ops) \<le> limit r)"
  using run_keeps [OF assms] usage_nonneg usage_limit by metis

end

text \<open>The accountant implements the interface for every kind.\<close>

definition res_charge :: "int \<Rightarrow> xtc_res \<Rightarrow> int \<Rightarrow> xtc_err \<times> xtc_res" where
  "res_charge k r n = (case xtc_res_acquire (Some r) k n of (e, q) \<Rightarrow> (e, the q))"

definition res_refund :: "int \<Rightarrow> xtc_res \<Rightarrow> int \<Rightarrow> xtc_res" where
  "res_refund k r n = the (xtc_res_release (Some r) k n)"

definition res_usage :: "int \<Rightarrow> xtc_res \<Rightarrow> int" where
  "res_usage k r = rs_used r (nat k)"

definition res_limit :: "int \<Rightarrow> xtc_res \<Rightarrow> int" where
  "res_limit k r = cap_for (rs_caps r) k"

lemma xtc_res_acquire_charge:
  "xtc_res_acquire (Some r) k n = (e, Some q) \<longleftrightarrow> res_charge k r n = (e, q)"
  by (auto simp: res_charge_def Let_def split: prod.splits if_splits)

lemma xtc_res_release_refund: "xtc_res_release (Some r) k n = Some (res_refund k r n)"
  by (simp add: res_refund_def Let_def)

lemma res_metering:
  assumes k: "res_kind_ok k"
  shows "metering (res_usage k) (res_limit k) (res_charge k) (res_refund k) res_ok"
proof
  fix r :: xtc_res and n :: int and q e
  assume ok: "res_ok r"
  show "0 \<le> res_usage k r" using res_okD(1) [OF ok k] by (simp add: res_usage_def)
  show "0 < res_limit k r \<Longrightarrow> res_usage k r \<le> res_limit k r"
    using res_okD(3) [OF ok k] by (simp add: res_usage_def res_limit_def)
  { assume n: "0 \<le> n" "n \<le> INT64_MAX" and c: "res_charge k r n = (XTC_OK, q)"
    from c have a: "xtc_res_acquire (Some r) k n = (XTC_OK, Some q)"
      by (simp only: xtc_res_acquire_charge)
    show "res_usage k q = res_usage k r + n \<and> res_limit k q = res_limit k r \<and> res_ok q"
      using xtc_res_acquire_OK [OF a ok n(2)] res_ok_acquire [OF ok n(2) a]
      by (auto simp: res_usage_def res_limit_def) }
  { assume c: "res_charge k r n = (e, q)" and e: "e \<noteq> XTC_OK"
    from c have a: "xtc_res_acquire (Some r) k n = (e, Some q)"
      by (simp only: xtc_res_acquire_charge)
    show "res_usage k q = res_usage k r \<and> res_limit k q = res_limit k r \<and> res_ok q"
      using xtc_res_acquire_err [OF a e] res_ok_frame [OF ok]
      by (auto simp: res_usage_def res_limit_def) }
  { assume n: "0 \<le> n" "res_usage k r + n \<le> INT64_MAX"
      and l: "0 < res_limit k r \<Longrightarrow> res_usage k r + n \<le> res_limit k r"
    show "fst (res_charge k r n) = XTC_OK"
      using n l k by (auto simp: res_charge_def Let_def res_usage_def res_limit_def res_kind_ok_def) }
  { assume n: "0 < n"
    have rel: "xtc_res_release (Some r) k n = Some (res_refund k r n)"
      by (rule xtc_res_release_refund)
    show "res_usage k (res_refund k r n) = max 0 (res_usage k r - n) \<and>
        res_limit k (res_refund k r n) = res_limit k r \<and> res_ok (res_refund k r n)"
      using xtc_res_release_used [OF k n, of r] rel res_ok_release [OF ok rel]
      by (auto simp: res_usage_def res_limit_def) }
qed

interpretation channels: metering
  "res_usage XTC_RES_CHANNELS" "res_limit XTC_RES_CHANNELS"
  "res_charge XTC_RES_CHANNELS" "res_refund XTC_RES_CHANNELS" res_ok
  by (rule res_metering) (simp add: res_kind_ok_def)

interpretation slots: metering
  "res_usage XTC_RES_CHAN_SLOTS" "res_limit XTC_RES_CHAN_SLOTS"
  "res_charge XTC_RES_CHAN_SLOTS" "res_refund XTC_RES_CHAN_SLOTS" res_ok
  by (rule res_metering) (simp add: res_kind_ok_def)

text \<open>An accountant with the default caps and nothing in use, for concrete runs.\<close>

definition res_sample :: xtc_res where
  "res_sample = \<lparr>rs_caps = RES_CAPS_DEFAULT, rs_used = (\<lambda>_. 0), rs_high = (\<lambda>_. 0),
     rs_rejects = (\<lambda>_. 0), rs_alert_pct = (\<lambda>_. DFin 0 0), rs_alert_armed = (\<lambda>_. True),
     rs_alert_fn = None, rs_alert_user = 0, rs_fired = []\<rparr>"

lemma res_sample_ok [simp]: "res_ok res_sample"
  by (simp add: res_ok_def res_sample_def)

section \<open>Properties\<close>



text \<open>
  C22. Caps hold over time. Start from an accountant that satisfies its invariant and perform
  any sequence of acquires and releases of one kind with legal amounts: the usage of that
  kind stays between zero and its cap, and the cap itself does not change.
\<close>

theorem res_within_caps:
  assumes "res_ok r" "res_kind_ok k" "\<forall>op \<in> set ops. meter_op_ok op"
    and "q = meter_run (res_charge k) (res_refund k) r ops"
  shows "0 \<le> xtc_res_used (Some q) k \<and> cap_for (rs_caps q) k = cap_for (rs_caps r) k \<and>
    (0 < cap_for (rs_caps r) k \<longrightarrow> xtc_res_used (Some q) k \<le> cap_for (rs_caps r) k)"
proof -
  note m = res_metering [OF assms(2)]
  from metering.run_keeps [OF m assms(1,3)] assms(4)
  have "res_ok q" "cap_for (rs_caps q) k = cap_for (rs_caps r) k" by (simp_all add: res_limit_def)
  with res_okD [OF _ assms(2), of q] assms(2) show ?thesis by (simp add: res_kind_ok_def)
qed

theorem res_within_caps_witness:
  "let q = meter_run (res_charge XTC_RES_CHANNELS) (res_refund XTC_RES_CHANNELS) res_sample
       [Charge 4000, Charge 97, Refund 1, Charge 90] in
   xtc_res_used (Some q) XTC_RES_CHANNELS = 4089 \<and> xtc_res_used (Some q) XTC_RES_CHANNELS \<le> 4096"
proof -
  define q where "q = meter_run (res_charge XTC_RES_CHANNELS) (res_refund XTC_RES_CHANNELS) res_sample
       [Charge 4000, Charge 97, Refund 1, Charge 90]"
  have "xtc_res_used (Some q) XTC_RES_CHANNELS = 4089" unfolding q_def by code_simp
  moreover have "xtc_res_used (Some q) XTC_RES_CHANNELS \<le> 4096"
    using res_within_caps [OF res_sample_ok _ _ q_def]
    by (simp add: res_kind_ok_def INT64_MAX_def cap_for_def res_sample_def RES_CAPS_DEFAULT_def
        del: xtc_res_used.simps)
  ultimately show ?thesis unfolding q_def Let_def by simp
qed

definition caps_fit :: "res_caps \<Rightarrow> bool" where
  "caps_fit c = (\<forall>x \<in> {rc_tasks c, rc_channels c, rc_chan_slots c, rc_fds c, rc_mem_bytes c,
     rc_inbox_msgs c}. - (2 ^ 63) \<le> x \<and> x \<le> INT64_MAX)"

lemma length_i64_bytes [simp]: "length (i64_bytes x) = 8"
  by (simp add: i64_bytes_def)

lemma res_caps_roundtrip: "caps_fit c \<Longrightarrow> res_caps_of_bytes (res_caps_bytes c) = c"
  by (simp add: caps_fit_def res_caps_of_bytes_def res_caps_bytes_def caps_field_def i64_roundtrip)

lemma length_res_caps_bytes [simp]: "length (res_caps_bytes c) = 56"
  by (simp add: res_caps_bytes_def)

lemma size_field_res_caps [simp]: "size_field (res_caps_bytes c) = 56"
  by (simp add: size_field_def res_caps_bytes_def le_val_le_bytes)



end
