(* ===== verification/Res_Conc.thy ===== *)
theory Res_Conc
  imports Res
begin

text \<open>
  The atomic accesses of \<open>xtc_res_acquire\<close> and \<open>xtc_res_release\<close> interleaved by any
  finite set of threads, for one resource kind with a fixed cap. Each rule below is one
  atomic load, store or compare-and-swap of \<open>src/src/ptc/res.c\<close>; what a thread has read so
  far is its program counter. A weak compare-and-swap may fail for no reason, so its
  failure rule has no premise on the counter.

  Ghost state: \<open>cr_held t\<close> is what thread \<open>t\<close> has acquired and not yet released, and
  \<open>cr_rearms\<close> counts the stores that re-arm the alert.
\<close>

record res_cfg =
  cf_cap :: int
  cf_thr :: "int option"
  cf_fn :: bool

datatype res_pc =
    RIdle
  | AcqLoad int
  | AcqTest int int
  | AcqHigh int
  | AcqHighCas int int
  | AcqAlert int
  | RelLoad int
  | RelCas int int
  | RelCheck
  | RelRearm int

record conc_res =
  cr_used :: int
  cr_high :: int
  cr_rejects :: int
  cr_armed :: bool
  cr_fired :: nat
  cr_rearms :: nat
  cr_pc :: "nat \<Rightarrow> res_pc"
  cr_held :: "nat \<Rightarrow> int"

definition res_refuses :: "res_cfg \<Rightarrow> int \<Rightarrow> int \<Rightarrow> bool" where
  "res_refuses cf cur n \<longleftrightarrow>
     (0 < cur \<and> n > INT64_MAX - cur) \<or> (0 < cf_cap cf \<and> cur + n > cf_cap cf)"

text \<open>
  \<open>strict\<close> says that threads release only what they hold; without it a release may ask
  for any positive amount.
\<close>

inductive res_step ::
  "bool \<Rightarrow> res_cfg \<Rightarrow> nat set \<Rightarrow> conc_res \<Rightarrow> conc_res \<Rightarrow> bool"
  for strict :: bool and cf :: res_cfg and T :: "nat set"
where
  acq_call: "t \<in> T \<Longrightarrow> cr_pc s t = RIdle \<Longrightarrow> 0 \<le> n \<Longrightarrow> n \<le> INT64_MAX \<Longrightarrow>
    res_step strict cf T s (s\<lparr>cr_pc := (cr_pc s)(t := AcqLoad n)\<rparr>)"
| acq_load: "t \<in> T \<Longrightarrow> cr_pc s t = AcqLoad n \<Longrightarrow>
    res_step strict cf T s (s\<lparr>cr_pc := (cr_pc s)(t := AcqTest n (cr_used s))\<rparr>)"
| acq_refuse: "t \<in> T \<Longrightarrow> cr_pc s t = AcqTest n cur \<Longrightarrow> res_refuses cf cur n \<Longrightarrow>
    res_step strict cf T s
      (s\<lparr>cr_pc := (cr_pc s)(t := RIdle), cr_rejects := wrap64 (cr_rejects s + 1)\<rparr>)"
| acq_cas: "t \<in> T \<Longrightarrow> cr_pc s t = AcqTest n cur \<Longrightarrow> \<not> res_refuses cf cur n \<Longrightarrow>
    cr_used s = cur \<Longrightarrow>
    res_step strict cf T s
      (s\<lparr>cr_pc := (cr_pc s)(t := AcqHigh (cur + n)), cr_used := cur + n,
         cr_held := (cr_held s)(t := cr_held s t + n)\<rparr>)"
| acq_cas_fail: "t \<in> T \<Longrightarrow> cr_pc s t = AcqTest n cur \<Longrightarrow> \<not> res_refuses cf cur n \<Longrightarrow>
    res_step strict cf T s (s\<lparr>cr_pc := (cr_pc s)(t := AcqLoad n)\<rparr>)"
| acq_high: "t \<in> T \<Longrightarrow> cr_pc s t = AcqHigh nxt \<Longrightarrow>
    res_step strict cf T s (s\<lparr>cr_pc := (cr_pc s)(t :=
      (if nxt > cr_high s then AcqHighCas nxt (cr_high s) else AcqAlert nxt))\<rparr>)"
| acq_high_cas: "t \<in> T \<Longrightarrow> cr_pc s t = AcqHighCas nxt obs \<Longrightarrow>
    res_step strict cf T s (s\<lparr>cr_pc := (cr_pc s)(t := AcqAlert nxt),
      cr_high := (if cr_high s = obs then nxt else cr_high s)\<rparr>)"
| acq_alert: "t \<in> T \<Longrightarrow> cr_pc s t = AcqAlert nxt \<Longrightarrow>
    fire = (cf_fn cf \<and> (case cf_thr cf of None \<Rightarrow> False | Some thr \<Rightarrow> thr \<le> nxt) \<and> cr_armed s) \<Longrightarrow>
    res_step strict cf T s (s\<lparr>cr_pc := (cr_pc s)(t := RIdle),
      cr_armed := (cr_armed s \<and> \<not> fire), cr_fired := cr_fired s + (if fire then 1 else 0)\<rparr>)"
| rel_call: "t \<in> T \<Longrightarrow> cr_pc s t = RIdle \<Longrightarrow> 0 < n \<Longrightarrow> (strict \<Longrightarrow> n \<le> cr_held s t) \<Longrightarrow>
    res_step strict cf T s (s\<lparr>cr_pc := (cr_pc s)(t := RelLoad n)\<rparr>)"
| rel_load: "t \<in> T \<Longrightarrow> cr_pc s t = RelLoad n \<Longrightarrow>
    res_step strict cf T s (s\<lparr>cr_pc := (cr_pc s)(t := RelCas n (cr_used s))\<rparr>)"
| rel_cas: "t \<in> T \<Longrightarrow> cr_pc s t = RelCas n prev \<Longrightarrow> cr_used s = prev \<Longrightarrow>
    res_step strict cf T s (s\<lparr>cr_pc := (cr_pc s)(t := RelCheck),
      cr_used := (if n < prev then prev - n else 0),
      cr_held := (cr_held s)(t := cr_held s t - n)\<rparr>)"
| rel_cas_fail: "t \<in> T \<Longrightarrow> cr_pc s t = RelCas n prev \<Longrightarrow>
    res_step strict cf T s (s\<lparr>cr_pc := (cr_pc s)(t := RelCas n (cr_used s))\<rparr>)"
| rel_check: "t \<in> T \<Longrightarrow> cr_pc s t = RelCheck \<Longrightarrow>
    res_step strict cf T s (s\<lparr>cr_pc := (cr_pc s)(t :=
      (case cf_thr cf of None \<Rightarrow> RIdle | Some thr \<Rightarrow> RelRearm (cr_used s)))\<rparr>)"
| rel_rearm: "t \<in> T \<Longrightarrow> cr_pc s t = RelRearm cur \<Longrightarrow> cf_thr cf = Some thr \<Longrightarrow>
    res_step strict cf T s (s\<lparr>cr_pc := (cr_pc s)(t := RIdle),
      cr_armed := (cr_armed s \<or> cur < thr),
      cr_rearms := cr_rearms s + (if cur < thr then 1 else 0)\<rparr>)"

definition conc_init :: conc_res where
  "conc_init = \<lparr>cr_used = 0, cr_high = 0, cr_rejects = 0, cr_armed = True, cr_fired = 0,
     cr_rearms = 0, cr_pc = (\<lambda>_. RIdle), cr_held = (\<lambda>_. 0)\<rparr>"

inductive res_reachable :: "bool \<Rightarrow> res_cfg \<Rightarrow> nat set \<Rightarrow> conc_res \<Rightarrow> bool"
  for strict :: bool and cf :: res_cfg and T :: "nat set"
where
  start: "res_reachable strict cf T conc_init"
| step: "res_reachable strict cf T s \<Longrightarrow> res_step strict cf T s s' \<Longrightarrow>
    res_reachable strict cf T s'"

section \<open>Safety of the counter\<close>

text \<open>
  The counter is a non-negative 64-bit value below the cap. What a pending acquire carries
  is a legal request, and a completed one carries a value the cap admits.
\<close>

fun pc_ok :: "res_cfg \<Rightarrow> res_pc \<Rightarrow> bool" where
  "pc_ok cf (AcqLoad n) \<longleftrightarrow> 0 \<le> n \<and> n \<le> INT64_MAX"
| "pc_ok cf (AcqTest n cur) \<longleftrightarrow> 0 \<le> n \<and> n \<le> INT64_MAX"
| "pc_ok cf (AcqHigh nxt) \<longleftrightarrow> nxt \<le> INT64_MAX \<and> (0 < cf_cap cf \<longrightarrow> nxt \<le> cf_cap cf)"
| "pc_ok cf (AcqHighCas nxt obs) \<longleftrightarrow> nxt \<le> INT64_MAX \<and> (0 < cf_cap cf \<longrightarrow> nxt \<le> cf_cap cf)"
| "pc_ok cf (RelLoad n) \<longleftrightarrow> 0 < n"
| "pc_ok cf (RelCas n prev) \<longleftrightarrow> 0 < n"
| "pc_ok cf _ \<longleftrightarrow> True"

definition conc_ok :: "res_cfg \<Rightarrow> conc_res \<Rightarrow> bool" where
  "conc_ok cf s \<longleftrightarrow> 0 \<le> cr_used s \<and> cr_used s \<le> INT64_MAX \<and>
     (0 < cf_cap cf \<longrightarrow> cr_used s \<le> cf_cap cf) \<and>
     cr_high s \<le> INT64_MAX \<and> (0 < cf_cap cf \<longrightarrow> cr_high s \<le> cf_cap cf) \<and>
     cr_fired s + (if cr_armed s then 1 else 0) \<le> 1 + cr_rearms s \<and>
     (\<forall>t. pc_ok cf (cr_pc s t))"

lemma conc_ok_init: "conc_ok cf conc_init"
  by (simp add: conc_ok_def conc_init_def)

lemma conc_ok_pcD: "conc_ok cf s \<Longrightarrow> cr_pc s t = p \<Longrightarrow> pc_ok cf p"
  by (auto simp: conc_ok_def)

lemma conc_ok_goto:
  "conc_ok cf s \<Longrightarrow> pc_ok cf p \<Longrightarrow> conc_ok cf (s\<lparr>cr_pc := (cr_pc s)(t := p)\<rparr>)"
  by (simp add: conc_ok_def)

lemma conc_ok_step: "res_step strict cf T s s' \<Longrightarrow> conc_ok cf s \<Longrightarrow> conc_ok cf s'"
proof (induction rule: res_step.induct)
  case (acq_cas t s n cur)
  from conc_ok_pcD [OF acq_cas.prems acq_cas.hyps(2)] have n: "0 \<le> n" "n \<le> INT64_MAX"
    by auto
  have cur: "0 \<le> cur" using acq_cas by (simp add: conc_ok_def)
  have "cur + n \<le> INT64_MAX" "0 < cf_cap cf \<Longrightarrow> cur + n \<le> cf_cap cf"
    using acq_cas.hyps(3) n cur by (cases "cur = 0"; simp add: res_refuses_def)+
  with acq_cas n cur show ?case by (simp add: conc_ok_def)
next
  case (acq_high t s nxt)
  with conc_ok_pcD [OF acq_high.prems acq_high.hyps(2)] show ?case
    by (auto intro: conc_ok_goto)
next
  case (acq_high_cas t s nxt obs)
  with conc_ok_pcD [OF acq_high_cas.prems acq_high_cas.hyps(2)] show ?case
    by (auto simp: conc_ok_def)
next
  case (acq_load t s n)
  with conc_ok_pcD [OF acq_load.prems acq_load.hyps(2)] show ?case
    by (auto intro: conc_ok_goto)
next
  case (acq_cas_fail t s n cur)
  with conc_ok_pcD [OF acq_cas_fail.prems acq_cas_fail.hyps(2)] show ?case
    by (auto intro: conc_ok_goto)
next
  case (rel_load t s n)
  with conc_ok_pcD [OF rel_load.prems rel_load.hyps(2)] show ?case
    by (auto intro: conc_ok_goto)
next
  case (rel_cas t s n prev)
  with conc_ok_pcD [OF rel_cas.prems rel_cas.hyps(2)] show ?case
    by (auto simp: conc_ok_def)
next
  case (rel_cas_fail t s n prev)
  with conc_ok_pcD [OF rel_cas_fail.prems rel_cas_fail.hyps(2)] show ?case
    by (auto intro: conc_ok_goto)
next
  case (rel_check t s)
  then show ?case by (auto intro: conc_ok_goto split: option.splits)
qed (auto simp: conc_ok_def)

lemma conc_ok_reachable: "res_reachable strict cf T s \<Longrightarrow> conc_ok cf s"
  by (induction rule: res_reachable.induct) (auto intro: conc_ok_init conc_ok_step)

section \<open>Conservation\<close>

text \<open>
  When every thread releases only what it holds, the counter is exactly the sum of the
  holdings: no interleaving loses or duplicates a unit.
\<close>

text \<open>What a thread is about to give back.\<close>

fun pc_rel :: "res_pc \<Rightarrow> int" where
  "pc_rel (RelLoad n) = n"
| "pc_rel (RelCas n prev) = n"
| "pc_rel _ = 0"

definition conserved :: "nat set \<Rightarrow> conc_res \<Rightarrow> bool" where
  "conserved T s \<longleftrightarrow> cr_used s = sum (cr_held s) T \<and>
     (\<forall>t. 0 \<le> cr_held s t \<and> pc_rel (cr_pc s t) \<le> cr_held s t)"

lemma conserved_goto:
  "conserved T s \<Longrightarrow> pc_rel p \<le> cr_held s t \<Longrightarrow> conserved T (s\<lparr>cr_pc := (cr_pc s)(t := p)\<rparr>)"
  by (simp add: conserved_def)

lemma conservedD:
  "conserved T s \<Longrightarrow> 0 \<le> cr_held s t" "conserved T s \<Longrightarrow> pc_rel (cr_pc s t) \<le> cr_held s t"
  by (simp_all add: conserved_def)

lemma conserved_move:
  assumes "conserved T s" "finite T" "t \<in> T" "0 \<le> h" "pc_rel p \<le> h"
    and "cr_used s' = cr_used s - cr_held s t + h"
    and "cr_held s' = (cr_held s)(t := h)" "cr_pc s' = (cr_pc s)(t := p)"
  shows "conserved T s'"
  using assms sum_fun_upd [of T t "cr_held s" h] by (simp add: conserved_def)

lemma held_le_used:
  assumes "conserved T s" "finite T" "t \<in> T"
  shows "cr_held s t \<le> cr_used s"
proof -
  have "cr_held s t \<le> sum (cr_held s) T"
    using assms by (intro member_le_sum) (auto simp: conserved_def)
  with assms show ?thesis by (simp add: conserved_def)
qed

lemma conserved_step:
  "res_step True cf T s s' \<Longrightarrow> finite T \<Longrightarrow> conc_ok cf s \<Longrightarrow> conserved T s \<Longrightarrow> conserved T s'"
proof (induction rule: res_step.induct)
  case (acq_cas t s n cur)
  from conc_ok_pcD [OF acq_cas.prems(2) acq_cas.hyps(2)] have "0 \<le> n" by simp
  with acq_cas conservedD(1) [OF acq_cas.prems(3), of t] show ?case
    by (intro conserved_move [OF acq_cas.prems(3,1) acq_cas.hyps(1), of "cr_held s t + n"]) auto
next
  case (rel_cas t s n prev)
  have n: "n \<le> cr_held s t"
    using conservedD(2) [OF rel_cas.prems(3), of t] rel_cas.hyps(2) by simp
  with held_le_used [OF rel_cas.prems(3,1) rel_cas.hyps(1)] rel_cas.hyps(3)
  have "(if n < prev then prev - n else 0) = prev - n" by auto
  with rel_cas n show ?case
    by (intro conserved_move [OF rel_cas.prems(3,1) rel_cas.hyps(1), of "cr_held s t - n"]) auto
next
  case (rel_check t s)
  then show ?case
    by (intro conserved_goto) (auto split: option.splits dest: conservedD(1))
next
  case (acq_high t s nxt)
  then show ?case by (intro conserved_goto) (auto dest: conservedD(1))
next
  case (rel_load t s n)
  then show ?case
    using conservedD(2) [OF rel_load.prems(3), of t] by (intro conserved_goto) auto
next
  case (rel_cas_fail t s n prev)
  then show ?case
    using conservedD(2) [OF rel_cas_fail.prems(3), of t] by (intro conserved_goto) auto
qed (auto simp: conserved_def)

lemma conserved_reachable:
  "res_reachable True cf T s \<Longrightarrow> finite T \<Longrightarrow> conserved T s"
proof (induction rule: res_reachable.induct)
  case start
  then show ?case by (simp add: conserved_def conc_init_def)
next
  case (step s s')
  then show ?case using conserved_step conc_ok_reachable by blast
qed

section \<open>The sequential operations are uninterrupted runs\<close>

text \<open>
  \<open>conc_view k r cf s\<close>: the shared part of \<open>s\<close> is what the accountant \<open>r\<close> holds for
  kind \<open>k\<close>, and \<open>cf\<close> is its configuration.
\<close>

definition conc_view :: "int \<Rightarrow> xtc_res \<Rightarrow> res_cfg \<Rightarrow> conc_res \<Rightarrow> bool" where
  "conc_view k r cf s \<longleftrightarrow>
     cf_cap cf = cap_for (rs_caps r) k \<and>
     cf_thr cf = (if dbl_pos (rs_alert_pct r (nat k)) \<and> 0 < cap_for (rs_caps r) k
                  then Some (alert_threshold (rs_alert_pct r (nat k)) (cap_for (rs_caps r) k))
                  else None) \<and>
     cf_fn cf = (rs_alert_fn r \<noteq> None) \<and>
     cr_used s = rs_used r (nat k) \<and> cr_high s = rs_high r (nat k) \<and>
     cr_rejects s = rs_rejects r (nat k) \<and> cr_armed s = rs_alert_armed r (nat k) \<and>
     cr_fired s = length (filter (\<lambda>(k', _, _). k' = k) (rs_fired r))"

abbreviation res_steps :: "bool \<Rightarrow> res_cfg \<Rightarrow> nat set \<Rightarrow> conc_res \<Rightarrow> conc_res \<Rightarrow> bool" where
  "res_steps strict cf T \<equiv> (res_step strict cf T)\<^sup>*\<^sup>*"

lemma solo_refuse:
  assumes "t \<in> T" "cr_pc s t = RIdle" "0 \<le> n" "n \<le> INT64_MAX" "res_refuses cf (cr_used s) n"
  shows "res_steps strict cf T s (s\<lparr>cr_rejects := wrap64 (cr_rejects s + 1)\<rparr>)"
proof -
  let ?s1 = "s\<lparr>cr_pc := (cr_pc s)(t := AcqLoad n)\<rparr>"
  let ?s2 = "?s1\<lparr>cr_pc := (cr_pc ?s1)(t := AcqTest n (cr_used ?s1))\<rparr>"
  let ?s3 = "?s2\<lparr>cr_pc := (cr_pc ?s2)(t := RIdle), cr_rejects := wrap64 (cr_rejects ?s2 + 1)\<rparr>"
  have "res_step strict cf T s ?s1" using assms by (intro acq_call) auto
  moreover have "res_step strict cf T ?s1 ?s2" using assms by (intro acq_load) auto
  moreover have "res_step strict cf T ?s2 ?s3"
    using acq_refuse [of t T ?s2 n "cr_used s" cf strict] assms by simp
  ultimately have "res_steps strict cf T s ?s3" by (rule rtranclp_three)
  moreover have "?s3 = s\<lparr>cr_rejects := wrap64 (cr_rejects s + 1)\<rparr>"
    using assms(2) by (simp add: fun_upd_idem)
  ultimately show ?thesis by simp
qed

lemma solo_high:
  assumes "t \<in> T" "cr_pc s t = AcqHigh nxt"
  shows "res_steps strict cf T s
    (s\<lparr>cr_pc := (cr_pc s)(t := AcqAlert nxt), cr_high := max (cr_high s) nxt\<rparr>)"
proof (cases "nxt > cr_high s")
  case True
  let ?s1 = "s\<lparr>cr_pc := (cr_pc s)(t := AcqHighCas nxt (cr_high s))\<rparr>"
  have "res_step strict cf T s ?s1" using acq_high [OF assms] True by simp
  moreover have "res_step strict cf T ?s1
      (s\<lparr>cr_pc := (cr_pc s)(t := AcqAlert nxt), cr_high := max (cr_high s) nxt\<rparr>)"
    using acq_high_cas [of t T ?s1 nxt "cr_high s"] assms True by (simp add: max_def)
  ultimately show ?thesis by (rule rtranclp_two)
next
  case False
  then have "max (cr_high s) nxt = cr_high s" by simp
  with acq_high [OF assms, of strict cf] False show ?thesis
    by (intro r_into_rtranclp) simp
qed

lemma solo_grant:
  assumes "t \<in> T" "cr_pc s t = RIdle" "0 \<le> n" "n \<le> INT64_MAX"
    "\<not> res_refuses cf (cr_used s) n"
  shows "res_steps strict cf T s
    (s\<lparr>cr_used := cr_used s + n, cr_held := (cr_held s)(t := cr_held s t + n),
       cr_pc := (cr_pc s)(t := AcqAlert (cr_used s + n)), cr_high := max (cr_high s) (cr_used s + n)\<rparr>)"
proof -
  let ?s1 = "s\<lparr>cr_pc := (cr_pc s)(t := AcqLoad n)\<rparr>"
  let ?s2 = "?s1\<lparr>cr_pc := (cr_pc ?s1)(t := AcqTest n (cr_used ?s1))\<rparr>"
  let ?s3 = "?s2\<lparr>cr_pc := (cr_pc ?s2)(t := AcqHigh (cr_used s + n)), cr_used := cr_used s + n,
      cr_held := (cr_held ?s2)(t := cr_held ?s2 t + n)\<rparr>"
  have "res_step strict cf T s ?s1" using assms by (intro acq_call) auto
  moreover have "res_step strict cf T ?s1 ?s2" using assms by (intro acq_load) auto
  moreover have "res_step strict cf T ?s2 ?s3"
    using acq_cas [of t T ?s2 n "cr_used s" cf strict] assms by simp
  ultimately have run: "res_steps strict cf T s ?s3" by (rule rtranclp_three)
  from assms(1) solo_high [of t T ?s3 "cr_used s + n" strict cf]
  show ?thesis by (intro rtranclp_trans [OF run]) simp
qed

text \<open>
  C19. The sequential acquire is the concurrent one run without interruption: from a state
  that shows what the accountant holds for a kind, an idle thread can run its acquire to the
  end and reach a state that shows exactly what \<open>xtc_res_acquire\<close> returns, in usage,
  high-water mark, rejects and alerts.
\<close>

theorem res_acquire_uninterrupted:
  assumes t: "t \<in> T" "cr_pc s t = RIdle" and n: "n \<le> INT64_MAX"
    and v: "conc_view k r cf s"
    and a: "xtc_res_acquire (Some r) k n = (e, Some q)" "e \<noteq> XTC_E_INVAL"
  shows "\<exists>s'. res_steps strict cf T s s' \<and> cr_pc s' = cr_pc s \<and> conc_view k q cf s'"
proof (cases "res_refuses cf (cr_used s) n")
  case True
  have n0: "0 \<le> n" using a by (auto split: if_splits)
  have "q = res_reject r (nat k)"
    using a True v by (auto simp: res_refuses_def conc_view_def Let_def split: if_splits)
  then have "conc_view k q cf (s\<lparr>cr_rejects := wrap64 (cr_rejects s + 1)\<rparr>)"
    using v by (simp add: conc_view_def res_reject_def)
  moreover have "res_steps strict cf T s (s\<lparr>cr_rejects := wrap64 (cr_rejects s + 1)\<rparr>)"
    using t n0 n True by (rule solo_refuse)
  ultimately show ?thesis by (intro exI [of _ "s\<lparr>cr_rejects := wrap64 (cr_rejects s + 1)\<rparr>"]) simp
next
  case False
  have n0: "0 \<le> n" using a by (auto split: if_splits)
  let ?nxt = "cr_used s + n" and ?cap = "cap_for (rs_caps r) k"
  let ?s4 = "s\<lparr>cr_used := ?nxt, cr_held := (cr_held s)(t := cr_held s t + n),
       cr_pc := (cr_pc s)(t := AcqAlert ?nxt), cr_high := max (cr_high s) ?nxt\<rparr>"
  define fire where "fire = (cf_fn cf \<and>
    (case cf_thr cf of None \<Rightarrow> False | Some thr \<Rightarrow> thr \<le> ?nxt) \<and> cr_armed ?s4)"
  let ?s5 = "?s4\<lparr>cr_pc := (cr_pc ?s4)(t := RIdle), cr_armed := (cr_armed ?s4 \<and> \<not> fire),
      cr_fired := cr_fired ?s4 + (if fire then 1 else 0)\<rparr>"
  have q: "q = res_alert (res_note_high (r\<lparr>rs_used := (rs_used r)(nat k := ?nxt)\<rparr>) (nat k) ?nxt)
      k ?nxt ?cap"
    using a False v by (auto simp: res_refuses_def conc_view_def Let_def split: if_splits)
  have "res_steps strict cf T s ?s4" using t n0 n False by (rule solo_grant)
  moreover have "res_step strict cf T ?s4 ?s5"
    using t by (intro acq_alert) (auto simp: fire_def)
  ultimately have "res_steps strict cf T s ?s5" by (rule rtranclp.rtrancl_into_rtrancl)
  moreover have "conc_view k q cf ?s5"
    using v unfolding q conc_view_def fire_def
    by (auto simp: res_alert_def res_note_high_def split: if_splits)
  moreover have "cr_pc ?s5 = cr_pc s" using t by (simp add: fun_upd_idem)
  ultimately show ?thesis by (intro exI [of _ ?s5] conjI)
qed

section \<open>Properties\<close>

text \<open>A configuration, and a state two threads reach: one holds 3 units, one is inside an acquire.\<close>

definition cfg_sample :: res_cfg where
  "cfg_sample = \<lparr>cf_cap = 10, cf_thr = Some 8, cf_fn = True\<rparr>"

definition conc_sample :: conc_res where
  "conc_sample = conc_init\<lparr>cr_pc := (\<lambda>_. RIdle)(0 := AcqHigh 3, 1 := AcqTest 9 3), cr_used := 3,
     cr_held := (\<lambda>_. 0)(0 := 3)\<rparr>"

lemma conc_sample_reachable: "res_reachable strict cfg_sample {0, 1} conc_sample"
proof -
  let ?R = "res_reachable strict cfg_sample {0, 1}"
  let ?s1 = "conc_init\<lparr>cr_pc := (cr_pc conc_init)(0 := AcqLoad 3)\<rparr>"
  let ?s2 = "?s1\<lparr>cr_pc := (cr_pc ?s1)(0 := AcqTest 3 (cr_used ?s1))\<rparr>"
  let ?s3 = "?s2\<lparr>cr_pc := (cr_pc ?s2)(0 := AcqHigh (0 + 3)), cr_used := 0 + 3,
         cr_held := (cr_held ?s2)(0 := cr_held ?s2 0 + 3)\<rparr>"
  let ?s4 = "?s3\<lparr>cr_pc := (cr_pc ?s3)(1 := AcqLoad 9)\<rparr>"
  let ?s5 = "?s4\<lparr>cr_pc := (cr_pc ?s4)(1 := AcqTest 9 (cr_used ?s4))\<rparr>"
  have "?R conc_init" by (rule res_reachable.start)
  moreover have "res_step strict cfg_sample {0, 1} conc_init ?s1"
    by (rule acq_call) (simp_all add: conc_init_def INT64_MAX_def)
  ultimately have "?R ?s1" by (rule res_reachable.step)
  moreover have "res_step strict cfg_sample {0, 1} ?s1 ?s2" by (rule acq_load) simp_all
  ultimately have "?R ?s2" by (rule res_reachable.step)
  moreover have "res_step strict cfg_sample {0, 1} ?s2 ?s3"
    by (rule acq_cas) (simp_all add: conc_init_def res_refuses_def cfg_sample_def)
  ultimately have "?R ?s3" by (rule res_reachable.step)
  moreover have "res_step strict cfg_sample {0, 1} ?s3 ?s4"
    by (rule acq_call) (simp_all add: conc_init_def INT64_MAX_def)
  ultimately have "?R ?s4" by (rule res_reachable.step)
  moreover have "res_step strict cfg_sample {0, 1} ?s4 ?s5" by (rule acq_load) simp_all
  ultimately have "?R ?s5" by (rule res_reachable.step)
  moreover have "?s5 = conc_sample" by (simp add: conc_sample_def conc_init_def)
  ultimately show ?thesis by simp
qed

text \<open>
  C18. The accountant is safe under any interleaving of acquires and releases, also of
  releases of more than is held: the usage is never negative, never overflows and never
  passes the cap, the high-water mark never passes the cap, and the alert fires at most once
  per re-arming.
\<close>

theorem res_conc_safe:
  assumes "res_reachable strict cf T s"
  shows "0 \<le> cr_used s \<and> cr_used s \<le> INT64_MAX \<and>
    (0 < cf_cap cf \<longrightarrow> cr_used s \<le> cf_cap cf \<and> cr_high s \<le> cf_cap cf) \<and>
    cr_fired s \<le> 1 + cr_rearms s"
  using conc_ok_reachable [OF assms] by (simp add: conc_ok_def split: if_splits)

theorem res_conc_safe_witness:
  "res_reachable False cfg_sample {0, 1} conc_sample \<and> cr_used conc_sample = 3 \<and>
   cr_used conc_sample \<le> cf_cap cfg_sample"
  using res_conc_safe [OF conc_sample_reachable [of False]] conc_sample_reachable [of False]
  by (simp add: conc_sample_def cfg_sample_def)

text \<open>
  C1. Nothing is lost or duplicated: when every thread releases only what it holds, the usage
  is at every moment exactly the sum of what the threads hold, whatever the interleaving.
\<close>

theorem res_conc_conserves:
  assumes "res_reachable True cf T s" "finite T"
  shows "cr_used s = (\<Sum>t \<in> T. cr_held s t) \<and> (\<forall>t. 0 \<le> cr_held s t)"
  using conserved_reachable [OF assms] by (simp add: conserved_def)

theorem res_conc_conserves_witness:
  "res_reachable True cfg_sample {0, 1} conc_sample \<and>
   cr_used conc_sample = (\<Sum>t \<in> {0, 1}. cr_held conc_sample t) \<and> cr_held conc_sample 0 = 3"
  using res_conc_conserves [OF conc_sample_reachable [of True]] conc_sample_reachable [of True]
  by (simp add: conc_sample_def)

theorem res_acquire_uninterrupted_witness:
  "\<exists>q s'. xtc_res_acquire (Some res_sample) XTC_RES_CHANNELS 5 = (XTC_OK, Some q) \<and> rs_used q 1 = 5 \<and>
     res_steps True \<lparr>cf_cap = 4096, cf_thr = None, cf_fn = False\<rparr> {0} conc_init s' \<and> cr_used s' = 5"
proof -
  let ?cf = "\<lparr>cf_cap = 4096, cf_thr = None, cf_fn = False\<rparr>"
  define q where "q = the (snd (xtc_res_acquire (Some res_sample) XTC_RES_CHANNELS 5))"
  have q: "xtc_res_acquire (Some res_sample) XTC_RES_CHANNELS 5 = (XTC_OK, Some q)" "rs_used q 1 = 5"
    by (simp_all add: q_def res_sample_def cap_for_def RES_CAPS_DEFAULT_def)
  have v: "conc_view XTC_RES_CHANNELS res_sample ?cf conc_init"
    by (simp add: conc_view_def res_sample_def cap_for_def RES_CAPS_DEFAULT_def dbl_pos_def conc_init_def)
  have "0 \<in> {0 :: nat}" "cr_pc conc_init 0 = RIdle" "(5 :: int) \<le> INT64_MAX"
    by (simp_all add: conc_init_def INT64_MAX_def)
  from res_acquire_uninterrupted [OF this v q(1), of True] obtain s' where
    "res_steps True ?cf {0} conc_init s'" "conc_view XTC_RES_CHANNELS q ?cf s'" by auto
  moreover from this(2) q(2) have "cr_used s' = 5" by (simp add: conc_view_def)
  ultimately show ?thesis using q by blast
qed

end
