(* ===== verification/Bounded_Fifo.thy ===== *)
theory Bounded_Fifo
  imports Res
begin

text \<open>
  What the bounded channels of \<open>src/src/ptc/chan.c\<close> share: the optional accountant they
  charge, the ring buffer underneath, and the contract of a bounded first-in first-out
  queue that the mpsc, mpmc and demand channels each implement.

  An accountant pointer that a channel keeps (\<open>c->res\<close>) is an \<open>xtc_res option\<close> passed to
  and returned from each operation, because several channels share one accountant.
\<close>

section \<open>Optional accounting\<close>

text \<open>The guarded calls \<open>if (res != NULL) xtc_res_acquire(...)\<close> and its release.\<close>

definition chan_charge :: "xtc_res option \<Rightarrow> int \<Rightarrow> int \<Rightarrow> xtc_err \<times> xtc_res option" where
  "chan_charge r k n = (if r = None then (XTC_OK, None) else xtc_res_acquire r k n)"

definition chan_refund :: "xtc_res option \<Rightarrow> int \<Rightarrow> int \<Rightarrow> xtc_res option" where
  "chan_refund r k n = (if r = None then None else xtc_res_release r k n)"

text \<open>
  \<open>holds r f\<close>: the accountant, where there is one, satisfies its invariant and has \<open>f k\<close>
  units of each kind \<open>k\<close> in use. \<open>buffered base r n\<close>: a channel holds \<open>n\<close> of the message
  slots in use and everything else holds \<open>base\<close>.
\<close>

definition holds :: "xtc_res option \<Rightarrow> (int \<Rightarrow> int) \<Rightarrow> bool" where
  "holds r f = ((\<forall>k. res_kind_ok k \<longrightarrow> 0 \<le> f k) \<and>
     (\<forall>q. r = Some q \<longrightarrow> res_ok q \<and> (\<forall>k. res_kind_ok k \<longrightarrow> rs_used q (nat k) = f k)))"

definition buffered :: "(int \<Rightarrow> int) \<Rightarrow> xtc_res option \<Rightarrow> nat \<Rightarrow> bool" where
  "buffered base r n = (0 \<le> base 2 \<and> holds r (base(2 := base 2 + int n)))"

lemma chan_charge_None [simp]: "chan_charge None k n = (XTC_OK, None)"
  by (simp add: chan_charge_def)

lemma chan_refund_None [simp]: "chan_refund None k n = None"
  by (simp add: chan_refund_def)

lemma chan_refund_0 [simp]: "chan_refund r k 0 = r"
  by (cases r) (simp_all add: chan_refund_def)

lemma holds_charge:
  assumes h: "holds r f" and k: "res_kind_ok k" and n: "0 \<le> n" "n \<le> INT64_MAX"
    and c: "chan_charge r k n = (e, r')"
  shows "holds r' (if e = XTC_OK then f(k := f k + n) else f)"
proof (cases r)
  case None
  with assms show ?thesis by (auto simp: holds_def)
next
  case (Some q)
  with c have a: "xtc_res_acquire (Some q) k n = (e, r')" by (simp only: chan_charge_def) simp
  from h Some have ok: "res_ok q" by (simp add: holds_def)
  show ?thesis
  proof (cases "e = XTC_OK")
    case True
    with xtc_res_acquire_OK [of q k n r'] a ok n obtain p where
      p: "r' = Some p" "rs_used p = (rs_used q)(nat k := rs_used q (nat k) + n)" by auto
    with res_ok_acquire [OF ok n(2), of k e p] a h Some k n True show ?thesis
      by (auto simp: holds_def res_kind_nat_eq simp del: xtc_res_acquire.simps)
  next
    case False
    with xtc_res_acquire_err [OF a] obtain p where
      p: "r' = Some p" "rs_used p = rs_used q" by auto
    with res_ok_acquire [OF ok n(2), of k e p] a h Some False show ?thesis
      by (auto simp: holds_def simp del: xtc_res_acquire.simps)
  qed
qed

lemma holds_refund:
  assumes h: "holds r f" and k: "res_kind_ok k" and n: "0 \<le> n" "n \<le> f k"
  shows "holds (chan_refund r k n) (f(k := f k - n))"
proof (cases r)
  case None
  with assms show ?thesis by (auto simp: holds_def)
next
  case (Some q)
  then have a: "chan_refund r k n = xtc_res_release (Some q) k n" by (simp only: chan_refund_def) simp
  from h Some have ok: "res_ok q" by (simp add: holds_def)
  show ?thesis
  proof (cases "n = 0")
    case True
    then have "xtc_res_release (Some q) k n = Some q" by simp
    with a h Some True show ?thesis by (simp del: xtc_res_release.simps)
  next
    case False
    with n k xtc_res_release_used [of k n q] obtain p where
      p: "xtc_res_release (Some q) k n = Some p"
        "rs_used p = (rs_used q)(nat k := max 0 (rs_used q (nat k) - n))" by auto
    with res_ok_release [OF ok p(1)] a h Some k n show ?thesis
      by (auto simp: holds_def res_kind_nat_eq simp del: xtc_res_release.simps)
  qed
qed

lemma slots_kind_ok [simp]: "res_kind_ok 2" "res_kind_ok 1"
  by (simp_all add: res_kind_ok_def)

lemma buffered_charge:
  assumes "buffered base r n" "chan_charge r XTC_RES_CHAN_SLOTS 1 = (e, r')"
  shows "buffered base r' (if e = XTC_OK then Suc n else n)"
  using holds_charge [of r "base(2 := base 2 + int n)" 2 1 e r'] assms
  by (cases "e = XTC_OK") (simp_all add: buffered_def INT64_MAX_def algebra_simps)

lemma buffered_refund:
  assumes "buffered base r n" "m \<le> n"
  shows "buffered base (chan_refund r XTC_RES_CHAN_SLOTS (int m)) (n - m)"
  using holds_refund [of r "base(2 := base 2 + int n)" 2 "int m"] assms
  by (simp add: buffered_def of_nat_diff algebra_simps)

lemma buffered_charge_refund:
  assumes "buffered base r n" "chan_charge r XTC_RES_CHAN_SLOTS 1 = (XTC_OK, r')"
  shows "buffered base (chan_refund r' XTC_RES_CHAN_SLOTS 1) n"
  using buffered_refund [OF buffered_charge [OF assms], of 1] by simp

lemma buffered_refund1:
  assumes "buffered base r n" "0 < n"
  shows "buffered base (chan_refund r XTC_RES_CHAN_SLOTS 1) (n - 1)"
  using buffered_refund [OF assms(1), of 1] assms(2) by simp

lemma holds_buffered: "holds r f \<Longrightarrow> buffered f r 0"
  by (simp add: buffered_def holds_def)

lemma buffered_holds: "buffered base r 0 \<Longrightarrow> holds r base"
  by (simp add: buffered_def)

text \<open>Creating a channel takes one unit of \<open>XTC_RES_CHANNELS\<close>; destroying it returns the unit.\<close>

lemma buffered_create:
  assumes "holds r f" "chan_charge r XTC_RES_CHANNELS 1 = (XTC_OK, r')"
  shows "buffered (f(1 := f 1 + 1)) r' 0"
  using holds_charge [OF assms(1) _ _ _ assms(2)]
  by (intro holds_buffered) (simp add: INT64_MAX_def)

lemma buffered_destroy:
  assumes "buffered (f(1 := f 1 + 1)) r n" "holds r0 f" "m \<le> n"
  shows "buffered f (chan_refund (chan_refund r XTC_RES_CHAN_SLOTS (int m)) XTC_RES_CHANNELS 1) (n - m)"
proof -
  have "0 \<le> f 1" using assms(2) by (simp add: holds_def)
  with buffered_refund [OF assms(1,3)]
    holds_refund [of "chan_refund r 2 (int m)" "f(1 := f 1 + 1, 2 := f 2 + int (n - m))" 1 1]
  show ?thesis by (simp add: buffered_def fun_upd_twist)
qed

lemma holds_sample [simp]: "holds (Some res_sample) (\<lambda>_. 0)"
  using res_sample_ok by (simp add: holds_def res_sample_def)

section \<open>Ring buffers\<close>

text \<open>The \<open>n\<close> elements of a ring of length \<open>cap\<close>, oldest first, starting at \<open>start\<close>.\<close>

definition ring_list :: "'p list \<Rightarrow> nat \<Rightarrow> nat \<Rightarrow> 'p list" where
  "ring_list xs start n = map (\<lambda>i. xs ! ((start + i) mod length xs)) [0..<n]"

lemma length_ring_list [simp]: "length (ring_list xs start n) = n"
  by (simp add: ring_list_def)

lemma ring_list_0 [simp]: "ring_list xs start 0 = []"
  by (simp add: ring_list_def)

lemma ring_list_eq_Nil [simp]: "ring_list xs start n = [] \<longleftrightarrow> n = 0"
  by (simp add: ring_list_def)

lemma ring_list_mod [simp]: "ring_list xs (start mod length xs) n = ring_list xs start n"
  by (simp add: ring_list_def mod_add_left_eq)

text \<open>Taking the oldest element moves the start and leaves the end of the ring in place.\<close>

lemma ring_end_dequeue:
  assumes "0 < n"
  shows "(Suc t mod m + n - Suc 0) mod m = (t + n) mod (m::nat)"
proof -
  from assms obtain k where "n = Suc k" by (cases n) auto
  then show ?thesis by (simp add: mod_add_left_eq)
qed

lemma mod_ring_inj:
  fixes a i j m :: nat
  assumes "i < m" "j < m" "(a + i) mod m = (a + j) mod m"
  shows "i = j"
proof -
  have "(int a + int i) mod int m = (int a + int j) mod int m"
    using assms(3) by (metis of_nat_add of_nat_mod)
  then have "int m dvd (int i - int j)"
    by (metis add_diff_cancel_left mod_eq_dvd_iff)
  moreover have "\<bar>int i - int j\<bar> < \<bar>int m\<bar>" using assms(1,2) by linarith
  ultimately show ?thesis using dvd_imp_le_int [of "int i - int j" "int m"] by linarith
qed

lemma ring_list_enqueue:
  assumes "n < length xs"
  shows "ring_list (xs[(start + n) mod length xs := x]) start (Suc n) = ring_list xs start n @ [x]"
proof (rule nth_equalityI)
  fix i
  assume "i < length (ring_list (xs[(start + n) mod length xs := x]) start (Suc n))"
  then have i: "i < Suc n" by simp
  have idx: "(start + n) mod length xs < length xs"
    using assms by (intro mod_less_divisor) linarith
  show "ring_list (xs[(start + n) mod length xs := x]) start (Suc n) ! i =
    (ring_list xs start n @ [x]) ! i"
  proof (cases "i = n")
    case True
    with i idx show ?thesis by (simp add: ring_list_def nth_append del: upt_Suc)
  next
    case False
    with i assms mod_ring_inj [of i "length xs" n start]
    have "(start + n) mod length xs \<noteq> (start + i) mod length xs" by auto
    with i False show ?thesis by (simp add: ring_list_def nth_append del: upt_Suc)
  qed
qed simp

lemma ring_list_dequeue:
  assumes "0 < n"
  shows "ring_list xs start n =
    xs ! (start mod length xs) # ring_list xs ((start + 1) mod length xs) (n - 1)"
proof -
  have "[0..<n] = 0 # map Suc [0..<n - 1]"
    using assms by (cases n) (simp_all add: map_Suc_upt upt_conv_Cons del: upt_Suc)
  then show ?thesis by (simp add: ring_list_def comp_def mod_add_left_eq)
qed

lemma ring_list_clear:
  assumes "0 < n" "n \<le> length xs"
  shows "ring_list (xs[start mod length xs := v]) ((start + 1) mod length xs) (n - 1) =
    ring_list xs ((start + 1) mod length xs) (n - 1)"
proof -
  have "start mod length xs \<noteq> (start + (1 + i)) mod length xs" if "i < n - 1" for i
    using mod_ring_inj [of 0 "length xs" "1 + i" start] that assms
    by (cases xs) (auto simp: less_diff_conv)
  then show ?thesis
    by (simp add: ring_list_def mod_add_left_eq add.assoc)
qed

section \<open>The queue contract\<close>

text \<open>
  \<open>send\<close> and \<open>recv\<close> are the non-blocking operations; \<open>spur\<close> is the simulator's choice to
  report a channel that is not full as full. \<open>cont\<close> lists the buffered messages, oldest
  first. \<open>ok k c\<close> is the channel's invariant with room for \<open>k\<close> more operations: a channel
  that counts its messages in a machine word is only good for so many.
\<close>

locale bounded_fifo =
  fixes cont :: "'c \<Rightarrow> 'p list"
    and capacity :: "'c \<Rightarrow> nat"
    and ok :: "nat \<Rightarrow> 'c \<Rightarrow> bool"
    and send :: "bool \<Rightarrow> 'c \<Rightarrow> 'p \<Rightarrow> xtc_err \<times> 'c"
    and recv :: "'c \<Rightarrow> xtc_err \<times> 'p \<times> 'c"
  assumes bound: "ok k c \<Longrightarrow> length (cont c) \<le> capacity c"
    and send_ok: "ok (Suc k) c \<Longrightarrow> send spur c x = (XTC_OK, d) \<Longrightarrow>
      cont d = cont c @ [x] \<and> ok k d \<and> capacity d = capacity c"
    and send_err: "ok (Suc k) c \<Longrightarrow> send spur c x = (e, d) \<Longrightarrow> e \<noteq> XTC_OK \<Longrightarrow>
      cont d = cont c \<and> ok k d \<and> capacity d = capacity c"
    and send_full: "ok k c \<Longrightarrow> length (cont c) = capacity c \<Longrightarrow> fst (send spur c x) \<noteq> XTC_OK"
    and recv_ok: "ok (Suc k) c \<Longrightarrow> recv c = (XTC_OK, y, d) \<Longrightarrow>
      cont c = y # cont d \<and> ok k d \<and> capacity d = capacity c"
    and recv_err: "ok (Suc k) c \<Longrightarrow> recv c = (e, y, d) \<Longrightarrow> e \<noteq> XTC_OK \<Longrightarrow>
      cont d = cont c \<and> ok k d \<and> capacity d = capacity c"
    and recv_some: "ok k c \<Longrightarrow> cont c \<noteq> [] \<Longrightarrow> fst (recv c) = XTC_OK"

text \<open>A channel meets the contract once each operation's outcome is known by its error code.\<close>

lemma bounded_fifoI:
  assumes bound: "\<And>k c. ok k c \<Longrightarrow> length (cont c) \<le> capacity c"
    and send: "\<And>k c spur x e d. ok (Suc k) c \<Longrightarrow> send spur c x = (e, d) \<Longrightarrow> ok k d \<and> capacity d = capacity c \<and>
      cont d = (if e = XTC_OK then cont c @ [x] else cont c)"
    and full: "\<And>k c spur x. ok k c \<Longrightarrow> length (cont c) = capacity c \<Longrightarrow> fst (send spur c x) \<noteq> XTC_OK"
    and recv: "\<And>k c e y d. ok (Suc k) c \<Longrightarrow> recv c = (e, y, d) \<Longrightarrow> ok k d \<and> capacity d = capacity c \<and>
      (if e = XTC_OK then cont c = y # cont d else cont d = cont c)"
    and some: "\<And>k c. ok k c \<Longrightarrow> cont c \<noteq> [] \<Longrightarrow> fst (recv c) = XTC_OK"
  shows "bounded_fifo cont capacity ok send recv"
proof
  fix k c d spur x e y
  assume ok: "ok (Suc k) c"
  show "send spur c x = (XTC_OK, d) \<Longrightarrow> cont d = cont c @ [x] \<and> ok k d \<and> capacity d = capacity c"
    using send [OF ok, of spur x XTC_OK d] by simp
  show "send spur c x = (e, d) \<Longrightarrow> e \<noteq> XTC_OK \<Longrightarrow> cont d = cont c \<and> ok k d \<and> capacity d = capacity c"
    using send [OF ok, of spur x e d] by simp
  show "recv c = (XTC_OK, y, d) \<Longrightarrow> cont c = y # cont d \<and> ok k d \<and> capacity d = capacity c"
    using recv [OF ok, of XTC_OK y d] by simp
  show "recv c = (e, y, d) \<Longrightarrow> e \<noteq> XTC_OK \<Longrightarrow> cont d = cont c \<and> ok k d \<and> capacity d = capacity c"
    using recv [OF ok, of e y d] by simp
qed (fact bound full some)+

text \<open>
  A use of a channel: sends and receives in some order. The run returns the messages the
  channel accepted, the messages it delivered, and its final state.
\<close>

datatype 'p fifo_op = Send bool 'p | Recv

fun fifo_run ::
  "(bool \<Rightarrow> 'c \<Rightarrow> 'p \<Rightarrow> xtc_err \<times> 'c) \<Rightarrow> ('c \<Rightarrow> xtc_err \<times> 'p \<times> 'c) \<Rightarrow> 'c \<Rightarrow>
   'p fifo_op list \<Rightarrow> 'p list \<times> 'p list \<times> 'c" where
  "fifo_run send recv c [] = ([], [], c)"
| "fifo_run send recv c (Send spur x # ops) =
     (case send spur c x of (e, d) \<Rightarrow>
       (case fifo_run send recv d ops of (ins, outs, f) \<Rightarrow>
         (if e = XTC_OK then x # ins else ins, outs, f)))"
| "fifo_run send recv c (Recv # ops) =
     (case recv c of (e, y, d) \<Rightarrow>
       (case fifo_run send recv d ops of (ins, outs, f) \<Rightarrow>
         (ins, if e = XTC_OK then y # outs else outs, f)))"

context bounded_fifo
begin

lemma send_cases:
  assumes "ok (Suc k) c" "send spur c x = (e, d)"
  shows "ok k d \<and> capacity d = capacity c \<and> cont d = (if e = XTC_OK then cont c @ [x] else cont c)"
  using assms send_ok [of k c spur x d] send_err [of k c spur x e d] by auto

lemma recv_cases:
  assumes "ok (Suc k) c" "recv c = (e, y, d)"
  shows "ok k d \<and> capacity d = capacity c \<and>
    (if e = XTC_OK then cont c = y # cont d else cont d = cont c)"
  using assms recv_ok [of k c y d] recv_err [of k c e y d] by auto

lemma fifo:
  assumes "ok (length ops + k) c" "fifo_run send recv c ops = (ins, outs, d)"
  shows "cont c @ ins = outs @ cont d \<and> ok k d \<and> capacity d = capacity c"
  using assms
proof (induction ops arbitrary: c ins outs d)
  case Nil
  then show ?case by simp
next
  case (Cons op ops)
  then have ok: "ok (Suc (length ops + k)) c" by simp
  show ?case
  proof (cases op)
    case (Send spur x)
    obtain e c' where s: "send spur c x = (e, c')" by (cases "send spur c x")
    obtain ins' outs' d' where r: "fifo_run send recv c' ops = (ins', outs', d')"
      by (cases "fifo_run send recv c' ops")
    from send_cases [OF ok s] have c': "ok (length ops + k) c'" "capacity c' = capacity c"
      "cont c' = (if e = XTC_OK then cont c @ [x] else cont c)" by auto
    from Cons.prems(2) Send s r have
      "ins = (if e = XTC_OK then x # ins' else ins')" "outs = outs'" "d = d'" by auto
    with Cons.IH [OF c'(1) r] c' show ?thesis by (auto split: if_splits)
  next
    case Recv
    obtain e y c' where s: "recv c = (e, y, c')" by (cases "recv c")
    obtain ins' outs' d' where r: "fifo_run send recv c' ops = (ins', outs', d')"
      by (cases "fifo_run send recv c' ops")
    from recv_cases [OF ok s] have c': "ok (length ops + k) c'" "capacity c' = capacity c"
      "if e = XTC_OK then cont c = y # cont c' else cont c' = cont c" by auto
    from Cons.prems(2) Recv s r have
      "outs = (if e = XTC_OK then y # outs' else outs')" "ins = ins'" "d = d'" by auto
    with Cons.IH [OF c'(1) r] c' show ?thesis by (auto split: if_splits)
  qed
qed

text \<open>Receiving as often as there are messages returns them all and empties the channel.\<close>

lemma drain:
  assumes "ok (length (cont c)) c"
    and "fifo_run send recv c (replicate (length (cont c)) Recv) = (ins, outs, d)"
  shows "ins = [] \<and> outs = cont c \<and> cont d = []"
  using assms
proof (induction "length (cont c)" arbitrary: c ins outs d)
  case 0
  then show ?case by simp
next
  case (Suc n)
  then have "cont c \<noteq> []" and ok: "ok (Suc n) c" by auto
  with recv_some [OF Suc.prems(1)] obtain y c' where s: "recv c = (XTC_OK, y, c')"
    by (cases "recv c") auto
  with recv_cases [OF ok s] Suc.hyps(2) have c': "ok (length (cont c')) c'" "cont c = y # cont c'"
    by auto
  obtain ins' outs' d' where
    r: "fifo_run send recv c' (replicate (length (cont c')) Recv) = (ins', outs', d')"
    by (cases "fifo_run send recv c' (replicate (length (cont c')) Recv)")
  from Suc.hyps(1) [OF _ c'(1) r] c'(2) Suc.hyps(2) have "ins' = [] \<and> outs' = cont c' \<and> cont d' = []"
    by simp
  moreover from Suc.prems(2) s r c'(2) have "ins = ins'" "outs = y # outs'" "d = d'" by auto
  ultimately show ?case using c'(2) by simp
qed

end

end
