(* ===== verification/Chan_Mpsc.thy ===== *)
theory Chan_Mpsc
  imports Bounded_Fifo
begin

unbundle bit_operations_syntax

text \<open>
  The multi-producer single-consumer channel of \<open>src/src/ptc/chan.c\<close>, one call at a time.
  The head and tail counters, the capacity and the index mask are 64-bit words, as in the
  code. A call here runs alone, so its compare-and-swap succeeds at once; the theory
  \<open>Mpsc_Conc\<close> has the interleaved steps of many producers and the consumer. The \<open>spur\<close>
  argument is the simulator's \<open>chan.mpsc.spurious_full\<close> fault, and \<open>has_waker\<close> with the
  waker it guards are one \<open>option\<close>.
\<close>

section \<open>State and operations\<close>

record ('a, 'w) chan_mpsc =
  ms_cap :: "64 word"
  ms_slots :: "'a option list"
  ms_head :: "64 word"
  ms_tail :: "64 word"
  ms_closed :: bool
  ms_waker :: "'w option"

text \<open>The loop \<open>while (p < capacity) p <<= 1\<close>. It may run for ever, so its value is an option.\<close>

partial_function (option) round_up :: "64 word \<Rightarrow> 64 word \<Rightarrow> 64 word option" where
  [code]: "round_up p cap = (if p < cap then round_up (push_bit 1 p) cap else Some p)"

definition mpsc_fresh :: "64 word \<Rightarrow> ('a, 'w) chan_mpsc" where
  "mpsc_fresh cap = \<lparr>ms_cap = cap, ms_slots = replicate (unat cap) None, ms_head = 0,
     ms_tail = 0, ms_closed = False, ms_waker = None\<rparr>"

text \<open>\<open>None\<close> is a call that does not return.\<close>

definition xtc_chan_mpsc_create ::
  "xtc_err \<Rightarrow> xtc_err \<Rightarrow> xtc_res option \<Rightarrow> 64 word \<Rightarrow> bool \<Rightarrow>
   (xtc_err \<times> ('a, 'w) chan_mpsc option \<times> xtc_res option) option" where
  "xtc_chan_mpsc_create rc1 rc2 r capacity has_out =
     (if \<not> has_out \<or> capacity = 0 then Some (XTC_E_INVAL, None, r)
      else if capacity > (- 1 div 2) + 1 then Some (XTC_E_RANGE, None, r)
      else case round_up 1 capacity of None \<Rightarrow> None | Some cap \<Rightarrow>
        Some (case chan_charge r XTC_RES_CHANNELS 1 of (rc, r1) \<Rightarrow>
          if rc \<noteq> XTC_OK then (rc, None, r1)
          else if rc1 \<noteq> XTC_OK then (rc1, None, chan_refund r1 XTC_RES_CHANNELS 1)
          else if rc2 \<noteq> XTC_OK then (rc2, None, chan_refund r1 XTC_RES_CHANNELS 1)
          else (XTC_OK, Some (mpsc_fresh cap), r1)))"

definition mpsc_idx :: "('a, 'w) chan_mpsc \<Rightarrow> 64 word \<Rightarrow> nat" where
  "mpsc_idx c i = unat (i AND (ms_cap c - 1))"

fun xtc_chan_mpsc_len :: "('a, 'w) chan_mpsc option \<Rightarrow> 64 word" where
  "xtc_chan_mpsc_len None = 0"
| "xtc_chan_mpsc_len (Some c) = ms_head c - ms_tail c"

fun xtc_chan_mpsc_destroy ::
  "('a, 'w) chan_mpsc option \<Rightarrow> xtc_res option \<Rightarrow> xtc_res option" where
  "xtc_chan_mpsc_destroy None r = r"
| "xtc_chan_mpsc_destroy (Some c) r =
     chan_refund (chan_refund r XTC_RES_CHAN_SLOTS (sint (xtc_chan_mpsc_len (Some c))))
       XTC_RES_CHANNELS 1"

fun xtc_chan_mpsc_try_send ::
  "bool \<Rightarrow> ('a, 'w) chan_mpsc option \<Rightarrow> xtc_res option \<Rightarrow> 'a option \<Rightarrow>
   xtc_err \<times> ('a, 'w) chan_mpsc option \<times> xtc_res option \<times> 'w list" where
  "xtc_chan_mpsc_try_send spur None r msg = (XTC_E_INVAL, None, r, [])"
| "xtc_chan_mpsc_try_send spur (Some c) r msg =
     (if ms_closed c then (XTC_E_INVAL, Some c, r, [])
      else if msg = None then (XTC_E_INVAL, Some c, r, [])
      else case chan_charge r XTC_RES_CHAN_SLOTS 1 of (rc, r1) \<Rightarrow>
        if rc \<noteq> XTC_OK then (rc, Some c, r1, [])
        else if ms_head c - ms_tail c \<ge> ms_cap c \<or> spur then
          (XTC_E_AGAIN, Some c, chan_refund r1 XTC_RES_CHAN_SLOTS 1, [])
        else (XTC_OK, Some (c\<lparr>ms_head := ms_head c + 1,
                 ms_slots := (ms_slots c)[mpsc_idx c (ms_head c) := msg]\<rparr>), r1,
              case ms_waker c of None \<Rightarrow> [] | Some w \<Rightarrow> [w]))"

fun xtc_chan_mpsc_try_recv ::
  "('a, 'w) chan_mpsc option \<Rightarrow> xtc_res option \<Rightarrow> bool \<Rightarrow>
   xtc_err \<times> 'a option \<times> ('a, 'w) chan_mpsc option \<times> xtc_res option" where
  "xtc_chan_mpsc_try_recv None r has_out = (XTC_E_INVAL, None, None, r)"
| "xtc_chan_mpsc_try_recv (Some c) r has_out =
     (if \<not> has_out then (XTC_E_INVAL, None, Some c, r)
      else if ms_tail c \<ge> ms_head c then
        (if ms_closed c then XTC_E_INVAL else XTC_E_AGAIN, None, Some c, r)
      else case ms_slots c ! mpsc_idx c (ms_tail c) of
        None \<Rightarrow> (XTC_E_AGAIN, None, Some c, r)
      | Some v \<Rightarrow> (XTC_OK, Some v,
          Some (c\<lparr>ms_slots := (ms_slots c)[mpsc_idx c (ms_tail c) := None],
                  ms_tail := ms_tail c + 1\<rparr>),
          chan_refund r XTC_RES_CHAN_SLOTS 1))"

fun xtc_chan_mpsc_set_waker ::
  "('a, 'w) chan_mpsc option \<Rightarrow> 'w option \<Rightarrow> xtc_err \<times> ('a, 'w) chan_mpsc option \<times> 'w list" where
  "xtc_chan_mpsc_set_waker (Some c) (Some w) =
     (XTC_OK, Some (c\<lparr>ms_waker := Some w\<rparr>), if ms_head c > ms_tail c then [w] else [])"
| "xtc_chan_mpsc_set_waker c w = (XTC_E_INVAL, c, [])"

fun xtc_chan_mpsc_close ::
  "('a, 'w) chan_mpsc option \<Rightarrow> xtc_err \<times> ('a, 'w) chan_mpsc option \<times> 'w list" where
  "xtc_chan_mpsc_close None = (XTC_E_INVAL, None, [])"
| "xtc_chan_mpsc_close (Some c) =
     (XTC_OK, Some (c\<lparr>ms_closed := True\<rparr>), case ms_waker c of None \<Rightarrow> [] | Some w \<Rightarrow> [w])"

section \<open>Rounding the capacity up\<close>

lemma unat_push_bit_1:
  fixes p :: "64 word"
  assumes "unat p < 2 ^ 63"
  shows "unat (push_bit 1 p) = 2 * unat p"
  using assms by (simp add: push_bit_eq_mult unat_word_ariths(2))

lemma unat_eq_pow2:
  fixes p :: "64 word"
  assumes "unat p = 2 ^ k"
  shows "p = 2 ^ k"
proof -
  have "p = of_nat (unat p)" by simp
  then show ?thesis unfolding assms by simp
qed

lemma unat_pow2:
  assumes "k < 64"
  shows "unat ((2 :: 64 word) ^ k) = 2 ^ k"
proof -
  have "(2 :: nat) ^ k < 2 ^ 64" using assms by (intro power_strict_increasing) auto
  then have "unat (of_nat (2 ^ k) :: 64 word) = 2 ^ k" by (simp only: unat_of_nat) simp
  then show ?thesis by simp
qed

text \<open>Within the guard the loop ends, at the least power of two that is large enough.\<close>

lemma round_up_pow2:
  assumes "unat cap \<le> 2 ^ 63" "unat p = 2 ^ k" "k \<le> 63" "unat p < 2 * unat cap"
  shows "\<exists>j \<le> 63. round_up p cap = Some (2 ^ j) \<and> unat cap \<le> 2 ^ j \<and> 2 ^ j < 2 * unat cap"
  using assms
proof (induction "64 - k" arbitrary: p k)
  case 0
  then show ?case by simp
next
  case (Suc n)
  show ?case
  proof (cases "p < cap")
    case True
    then have lt: "unat p < unat cap" by (simp add: word_less_nat_alt)
    with Suc.prems have k: "2 ^ k < (2 :: nat) ^ 63" by simp
    then have "k < 63" using nat_power_less_imp_less [of 2 k 63] by simp
    moreover have "unat (push_bit 1 p) = 2 ^ Suc k"
      using unat_push_bit_1 [of p] k Suc.prems(2) by simp
    ultimately show ?thesis
      using Suc.hyps(1) [of "Suc k" "push_bit 1 p"] Suc.hyps(2) Suc.prems lt True
      by (subst round_up.simps) simp
  next
    case False
    then have "round_up p cap = Some p" by (subst round_up.simps) simp
    moreover have "p = 2 ^ k" using Suc.prems(2) by (rule unat_eq_pow2)
    ultimately show ?thesis
      using Suc.prems False by (intro exI [of _ k]) (auto simp: word_le_nat_alt not_less)
  qed
qed

text \<open>Beyond it the loop would never end: shifting loses the bit before it reaches the capacity.\<close>

definition zero_or_pow2 :: "64 word \<Rightarrow> bool" where
  "zero_or_pow2 p = (p = 0 \<or> (\<exists>k < 64. p = 2 ^ k))"

lemma zero_or_pow2_shift: "zero_or_pow2 p \<Longrightarrow> zero_or_pow2 (p * 2)"
proof (cases "p = 0")
  case False
  assume "zero_or_pow2 p"
  with False obtain k where k: "k < 64" "p = 2 ^ k" by (auto simp: zero_or_pow2_def)
  then have "p * 2 = 2 ^ Suc k" by simp
  moreover have "(2 :: 64 word) ^ 64 = 0" by simp
  ultimately show ?thesis using k unfolding zero_or_pow2_def
    by (cases "k = 63") (auto intro: exI [of _ "Suc k"])
qed (simp add: zero_or_pow2_def)

lemma round_up_result:
  assumes "round_up p cap = Some q"
  shows "zero_or_pow2 p \<longrightarrow> cap \<le> q \<and> zero_or_pow2 q"
  by (rule round_up.raw_induct [OF _ assms])
    (fastforce dest: zero_or_pow2_shift split: if_splits)

lemma round_up_diverges:
  assumes "2 ^ 63 < unat cap"
  shows "round_up 1 cap = None"
proof (rule ccontr)
  assume "round_up 1 cap \<noteq> None"
  then obtain q where q: "round_up 1 cap = Some q" by auto
  have "zero_or_pow2 1" by (auto simp: zero_or_pow2_def intro: exI [of _ 0])
  with round_up_result [OF q] obtain k where
    "cap \<le> q" "q = 0 \<or> (k < 64 \<and> q = 2 ^ k)" by (auto simp: zero_or_pow2_def)
  with assms have le: "2 ^ 63 < unat q" and "k < 64" "unat q = 2 ^ k"
    by (auto simp: word_le_nat_alt unat_pow2)
  then have "63 < k" using nat_power_less_imp_less [of 2 63 k] by simp
  with \<open>k < 64\<close> show False by simp
qed

section \<open>Invariant and the queue contract\<close>

definition mpsc_n :: "('a, 'w) chan_mpsc \<Rightarrow> nat" where
  "mpsc_n c = unat (ms_head c) - unat (ms_tail c)"

definition mpsc_cont :: "('a, 'w) chan_mpsc \<Rightarrow> 'a option list" where
  "mpsc_cont c = ring_list (ms_slots c) (unat (ms_tail c)) (mpsc_n c)"

definition mpsc_inv :: "('a, 'w) chan_mpsc \<Rightarrow> bool" where
  "mpsc_inv c = ((\<exists>k < 63. ms_cap c = 2 ^ k) \<and> length (ms_slots c) = unat (ms_cap c) \<and>
     unat (ms_tail c) \<le> unat (ms_head c) \<and> mpsc_n c \<le> unat (ms_cap c) \<and>
     None \<notin> set (mpsc_cont c))"

type_synonym ('a, 'w) mpsc_st = "('a, 'w) chan_mpsc \<times> xtc_res option"

definition mpsc_msgs :: "('a, 'w) mpsc_st \<Rightarrow> 'a option list" where
  "mpsc_msgs s = mpsc_cont (fst s)"

definition mpsc_capacity :: "('a, 'w) mpsc_st \<Rightarrow> nat" where
  "mpsc_capacity s = unat (ms_cap (fst s))"

text \<open>The counters never come near wrapping within the next \<open>k\<close> operations.\<close>

definition mpsc_ok :: "(int \<Rightarrow> int) \<Rightarrow> nat \<Rightarrow> ('a, 'w) mpsc_st \<Rightarrow> bool" where
  "mpsc_ok base k s = (mpsc_inv (fst s) \<and> buffered base (snd s) (mpsc_n (fst s)) \<and>
     unat (ms_head (fst s)) + k < 2 ^ 64)"

definition mpsc_send ::
  "bool \<Rightarrow> ('a, 'w) mpsc_st \<Rightarrow> 'a option \<Rightarrow> xtc_err \<times> ('a, 'w) mpsc_st" where
  "mpsc_send spur s x = (case xtc_chan_mpsc_try_send spur (Some (fst s)) (snd s) x of
     (e, c, r, ws) \<Rightarrow> (e, the c, r))"

definition mpsc_recv :: "('a, 'w) mpsc_st \<Rightarrow> xtc_err \<times> 'a option \<times> ('a, 'w) mpsc_st" where
  "mpsc_recv s = (case xtc_chan_mpsc_try_recv (Some (fst s)) (snd s) True of
     (e, y, c, r) \<Rightarrow> (e, y, the c, r))"

lemma unat_lt_64: "unat (w :: 64 word) < 2 ^ 64"
  by (rule order.strict_trans2 [OF unsigned_less]) simp

lemma and_pow2_mask:
  fixes i :: "64 word"
  assumes "k < 64"
  shows "unat (i AND (2 ^ k - 1)) = unat i mod unat ((2 :: 64 word) ^ k)"
proof -
  have "i AND (2 ^ k - 1) = take_bit k i"
    by (simp add: take_bit_eq_mask mask_eq_exp_minus_1)
  then show ?thesis using assms
    by (simp add: unat_pow2 take_bit_eq_mod unat_mod)
qed

lemma mpsc_idx_mod:
  "\<exists>k < 63. ms_cap c = 2 ^ k \<Longrightarrow> mpsc_idx c i = unat i mod unat (ms_cap c)"
  by (auto simp: mpsc_idx_def and_pow2_mask)

lemma length_mpsc_cont [simp]: "length (mpsc_cont c) = mpsc_n c"
  by (simp add: mpsc_cont_def)

lemma mpsc_len_unat:
  "unat (ms_tail c) \<le> unat (ms_head c) \<Longrightarrow> unat (ms_head c - ms_tail c) = mpsc_n c"
  by (simp add: mpsc_n_def unat_sub word_le_nat_alt)

lemma mpsc_enqueue:
  fixes x :: 'a and c :: "('a, 'w) chan_mpsc"
  assumes "mpsc_inv c" "mpsc_n c < unat (ms_cap c)" "unat (ms_head c) + 1 < 2 ^ 64"
  defines "d \<equiv> c\<lparr>ms_head := ms_head c + 1,
    ms_slots := (ms_slots c)[mpsc_idx c (ms_head c) := Some x]\<rparr>"
  shows "mpsc_inv d" "mpsc_cont d = mpsc_cont c @ [Some x]" "mpsc_n d = mpsc_n c + 1"
    "unat (ms_head d) = unat (ms_head c) + 1"
proof -
  show head: "unat (ms_head d) = unat (ms_head c) + 1"
    using assms(3) by (simp add: d_def unat_word_ariths(1))
  from assms(1) have le: "unat (ms_tail c) \<le> unat (ms_head c)" by (simp add: mpsc_inv_def)
  with head show n: "mpsc_n d = mpsc_n c + 1" by (simp add: mpsc_n_def d_def)
  have "unat (ms_tail c) + mpsc_n c = unat (ms_head c)" using le by (simp add: mpsc_n_def)
  with ring_list_enqueue [of "mpsc_n c" "ms_slots c" "unat (ms_tail c)" "Some x"] assms(1,2) n
  show cont: "mpsc_cont d = mpsc_cont c @ [Some x]"
    by (simp add: mpsc_cont_def d_def mpsc_inv_def mpsc_idx_mod)
  show "mpsc_inv d"
    using assms(1,2) le head n cont by (simp add: mpsc_inv_def) (simp add: d_def)
qed

lemma mpsc_dequeue:
  fixes c :: "('a, 'w) chan_mpsc"
  assumes "mpsc_inv c" "ms_tail c < ms_head c"
  defines "d \<equiv> c\<lparr>ms_slots := (ms_slots c)[mpsc_idx c (ms_tail c) := None], ms_tail := ms_tail c + 1\<rparr>"
  shows "mpsc_inv d" "\<exists>v. ms_slots c ! mpsc_idx c (ms_tail c) = Some v \<and>
      mpsc_cont c = Some v # mpsc_cont d" "mpsc_n d = mpsc_n c - 1" "0 < mpsc_n c"
proof -
  have lt: "unat (ms_tail c) < unat (ms_head c)"
    using assms(2) by (simp add: word_less_nat_alt)
  then show pos: "0 < mpsc_n c" by (simp add: mpsc_n_def)
  have tail: "unat (ms_tail c + 1) = unat (ms_tail c) + 1"
    using lt unat_lt_64 [of "ms_head c"] by (simp add: unat_word_ariths(1))
  then show n: "mpsc_n d = mpsc_n c - 1" by (simp add: mpsc_n_def d_def)
  from assms(1) have len: "length (ms_slots c) = unat (ms_cap c)"
    and idx: "mpsc_idx c (ms_tail c) = unat (ms_tail c) mod length (ms_slots c)"
    and nle: "mpsc_n c \<le> length (ms_slots c)"
    by (simp_all add: mpsc_inv_def mpsc_idx_mod)
  have cd: "mpsc_cont d = ring_list (ms_slots c) (unat (ms_tail c) + 1) (mpsc_n c - 1)"
    using ring_list_clear [OF pos nle, of "unat (ms_tail c)" None] n tail idx
    by (simp add: mpsc_cont_def d_def) (metis length_list_update ring_list_mod)
  have cont: "mpsc_cont c = ms_slots c ! mpsc_idx c (ms_tail c) # mpsc_cont d"
    using ring_list_dequeue [OF pos, of "ms_slots c" "unat (ms_tail c)"] cd idx
    by (simp add: mpsc_cont_def)
  from assms(1) cont have "ms_slots c ! mpsc_idx c (ms_tail c) \<noteq> None"
    by (metis list.set_intros(1) mpsc_inv_def)
  with cont show "\<exists>v. ms_slots c ! mpsc_idx c (ms_tail c) = Some v \<and> mpsc_cont c = Some v # mpsc_cont d"
    by auto
  show "mpsc_inv d"
    using assms(1) n tail lt cont by (auto simp: mpsc_inv_def) (auto simp: d_def)
qed

lemma mpsc_send_cases:
  assumes "mpsc_ok base (Suc k) s" "mpsc_send spur s x = (e, t)"
  shows "mpsc_ok base k t \<and> ms_cap (fst t) = ms_cap (fst s) \<and>
    mpsc_cont (fst t) = (if e = XTC_OK then mpsc_cont (fst s) @ [x] else mpsc_cont (fst s))"
proof -
  obtain rc r1 where c: "chan_charge (snd s) XTC_RES_CHAN_SLOTS 1 = (rc, r1)" by fastforce
  from assms(1) have inv: "mpsc_inv (fst s)" and b: "buffered base (snd s) (mpsc_n (fst s))"
    and k: "unat (ms_head (fst s)) + Suc k < 2 ^ 64"
    by (simp_all add: mpsc_ok_def)
  from inv have len: "unat (ms_head (fst s) - ms_tail (fst s)) = mpsc_n (fst s)"
    by (simp add: mpsc_len_unat mpsc_inv_def)
  show ?thesis
  proof (cases "e = XTC_OK")
    case True
    with assms(2) c obtain m where m: "x = Some m" "rc = XTC_OK"
      "\<not> ms_cap (fst s) \<le> ms_head (fst s) - ms_tail (fst s)"
      by (auto simp: mpsc_send_def split: if_splits)
    then have "mpsc_n (fst s) < unat (ms_cap (fst s))"
      using len by (simp add: word_le_nat_alt)
    with k mpsc_enqueue [OF inv, of m] buffered_charge [OF b c] assms(2) c m True show ?thesis
      by (auto simp: mpsc_send_def mpsc_ok_def split: if_splits)
  next
    case False
    with assms(2) c have t: "fst t = fst s" "snd t = snd s \<or> snd t = r1 \<and> rc \<noteq> XTC_OK \<or>
        snd t = chan_refund r1 XTC_RES_CHAN_SLOTS 1 \<and> rc = XTC_OK"
      by (auto simp: mpsc_send_def split: if_splits)
    have "buffered base (snd t) (mpsc_n (fst s))"
      using t(2) b buffered_charge [OF b c] buffered_charge_refund [OF b, of r1] c by auto
    with t(1) inv k False show ?thesis by (simp add: mpsc_ok_def)
  qed
qed

lemma mpsc_recv_cases:
  assumes "mpsc_ok base (Suc k) s" "mpsc_recv s = (e, y, t)"
  shows "mpsc_ok base k t \<and> ms_cap (fst t) = ms_cap (fst s) \<and>
    (if e = XTC_OK then mpsc_cont (fst s) = y # mpsc_cont (fst t)
     else mpsc_cont (fst t) = mpsc_cont (fst s))"
proof (cases "ms_tail (fst s) < ms_head (fst s)")
  case True
  from assms(1) have inv: "mpsc_inv (fst s)" by (simp add: mpsc_ok_def)
  from True have "\<not> ms_head (fst s) \<le> ms_tail (fst s)" by simp
  with mpsc_dequeue [OF inv True] assms buffered_refund1 [of base "snd s" "mpsc_n (fst s)"]
  show ?thesis by (auto simp: mpsc_recv_def mpsc_ok_def)
next
  case False
  with assms show ?thesis by (auto simp: mpsc_recv_def mpsc_ok_def split: if_splits)
qed

lemma mpsc_bounded_fifo: "bounded_fifo mpsc_msgs mpsc_capacity (mpsc_ok base) mpsc_send mpsc_recv"
proof (rule bounded_fifoI; unfold mpsc_msgs_def mpsc_capacity_def)
  fix k and s :: "('a, 'w) mpsc_st" and spur x
  assume ok: "mpsc_ok base k s"
  then have inv: "mpsc_inv (fst s)" by (simp add: mpsc_ok_def)
  then show "length (mpsc_cont (fst s)) \<le> unat (ms_cap (fst s))"
    by (simp add: mpsc_inv_def)
  show "fst (mpsc_send spur s x) \<noteq> XTC_OK" if "length (mpsc_cont (fst s)) = unat (ms_cap (fst s))"
  proof -
    have "ms_cap (fst s) \<le> ms_head (fst s) - ms_tail (fst s)"
      using that inv by (simp add: word_le_nat_alt mpsc_len_unat mpsc_inv_def)
    then show ?thesis by (auto simp: mpsc_send_def split: prod.splits)
  qed
  show "fst (mpsc_recv s) = XTC_OK" if "mpsc_cont (fst s) \<noteq> []"
  proof -
    have "ms_tail (fst s) < ms_head (fst s)"
      using that by (simp add: mpsc_cont_def mpsc_n_def word_less_nat_alt)
    with mpsc_dequeue(2) [OF inv this] show ?thesis
      by (auto simp: mpsc_recv_def not_le [symmetric])
  qed
next
  fix k and s t :: "('a, 'w) mpsc_st" and spur x e y
  assume ok: "mpsc_ok base (Suc k) s"
  show "mpsc_send spur s x = (e, t) \<Longrightarrow> mpsc_ok base k t \<and>
      unat (ms_cap (fst t)) = unat (ms_cap (fst s)) \<and>
      mpsc_cont (fst t) = (if e = XTC_OK then mpsc_cont (fst s) @ [x] else mpsc_cont (fst s))"
    using mpsc_send_cases [OF ok] by auto
  show "mpsc_recv s = (e, y, t) \<Longrightarrow> mpsc_ok base k t \<and>
      unat (ms_cap (fst t)) = unat (ms_cap (fst s)) \<and>
      (if e = XTC_OK then mpsc_cont (fst s) = y # mpsc_cont (fst t)
       else mpsc_cont (fst t) = mpsc_cont (fst s))"
    using mpsc_recv_cases [OF ok] by auto
qed

interpretation mpsc: bounded_fifo mpsc_msgs mpsc_capacity "mpsc_ok base" mpsc_send mpsc_recv
  for base :: "int \<Rightarrow> int"
  by (rule mpsc_bounded_fifo)

section \<open>Properties\<close>

lemma size_max_half: "unat ((- 1 div 2) + 1 :: 64 word) = 2 ^ 63"
  by (simp add: unat_word_ariths(1) unat_div)

lemma mpsc_create_cases:
  "xtc_chan_mpsc_create rc1 rc2 r capacity has_out \<noteq> None"
  "xtc_chan_mpsc_create rc1 rc2 r capacity has_out = Some (e, Some c, r1) \<Longrightarrow>
     e = XTC_OK \<and> chan_charge r XTC_RES_CHANNELS 1 = (XTC_OK, r1) \<and>
     (\<exists>j \<le> 63. c = mpsc_fresh (2 ^ j) \<and> unat capacity \<le> 2 ^ j \<and> 2 ^ j < 2 * unat capacity)"
proof -
  have "xtc_chan_mpsc_create rc1 rc2 r capacity has_out \<noteq> None \<and>
    (xtc_chan_mpsc_create rc1 rc2 r capacity has_out = Some (e, Some c, r1) \<longrightarrow>
     e = XTC_OK \<and> chan_charge r XTC_RES_CHANNELS 1 = (XTC_OK, r1) \<and>
     (\<exists>j \<le> 63. c = mpsc_fresh (2 ^ j) \<and> unat capacity \<le> 2 ^ j \<and> 2 ^ j < 2 * unat capacity))"
  proof (cases "\<not> has_out \<or> capacity = 0 \<or> capacity > (- 1 div 2) + 1")
    case True
    then show ?thesis by (auto simp: xtc_chan_mpsc_create_def)
  next
    case False
    then have "\<not> capacity > (- 1 div 2) + 1" by simp
    then have "unat capacity \<le> 2 ^ 63"
      unfolding word_less_nat_alt size_max_half by simp
    moreover have "0 < unat capacity" using False by (simp add: unat_gt_0)
    ultimately obtain j where "j \<le> 63" "round_up 1 capacity = Some (2 ^ j)"
      "unat capacity \<le> 2 ^ j" "2 ^ j < 2 * unat capacity"
      using round_up_pow2 [of capacity 1 0] by auto
    with False show ?thesis
      by (auto simp: xtc_chan_mpsc_create_def split: prod.splits if_splits)
  qed
  then show "xtc_chan_mpsc_create rc1 rc2 r capacity has_out \<noteq> None"
    "xtc_chan_mpsc_create rc1 rc2 r capacity has_out = Some (e, Some c, r1) \<Longrightarrow>
     e = XTC_OK \<and> chan_charge r XTC_RES_CHANNELS 1 = (XTC_OK, r1) \<and>
     (\<exists>j \<le> 63. c = mpsc_fresh (2 ^ j) \<and> unat capacity \<le> 2 ^ j \<and> 2 ^ j < 2 * unat capacity)"
    by auto
qed

text \<open>
  C26. Creating an mpsc channel always returns: the guard on the capacity is what makes the
  rounding loop end. A channel it creates has the least power of two at or above the
  requested capacity. Without the guard, a capacity above the largest power of two of a
  \<open>size_t\<close> would make the loop run for ever.
\<close>

theorem mpsc_create_returns:
  "(\<exists>e c r1. xtc_chan_mpsc_create rc1 rc2 r capacity has_out =
      Some (e, c :: ('a, 'w) chan_mpsc option, r1) \<and>
     (\<forall>d. c = Some d \<longrightarrow> (\<exists>j \<le> 63. ms_cap d = 2 ^ j \<and> unat capacity \<le> 2 ^ j \<and>
        2 ^ j < 2 * unat capacity \<and> ms_slots d = replicate (2 ^ j) None))) \<and>
   (2 ^ 63 < unat capacity \<longrightarrow> round_up 1 capacity = None)"
proof -
  obtain e c r1 where c: "xtc_chan_mpsc_create rc1 rc2 r capacity has_out =
      Some (e, c :: ('a, 'w) chan_mpsc option, r1)"
    using mpsc_create_cases(1) by (metis option.exhaust prod_cases3)
  have "\<exists>j \<le> 63. ms_cap d = 2 ^ j \<and> unat capacity \<le> 2 ^ j \<and>
        2 ^ j < 2 * unat capacity \<and> ms_slots d = replicate (2 ^ j) None" if "c = Some d" for d
  proof -
    from mpsc_create_cases(2) [of rc1 rc2 r capacity has_out e d r1] c that obtain j where
      "j \<le> 63" "d = mpsc_fresh (2 ^ j)" "unat capacity \<le> 2 ^ j" "2 ^ j < 2 * unat capacity" by auto
    then show ?thesis by (intro exI [of _ j]) (simp add: mpsc_fresh_def unat_pow2)
  qed
  with c round_up_diverges show ?thesis by blast
qed

theorem mpsc_create_returns_witness:
  "(\<exists>d r1 j. xtc_chan_mpsc_create XTC_OK XTC_OK None 5 True =
      Some (XTC_OK, Some (d :: (nat, nat) chan_mpsc), r1) \<and> ms_cap d = 2 ^ j \<and> 5 \<le> (2::nat) ^ j \<and>
      (2::nat) ^ j < 10) \<and> round_up 1 (2 ^ 63 + 1) = None"
proof -
  have e: "map_option fst (xtc_chan_mpsc_create XTC_OK XTC_OK None 5 True ::
      (xtc_err \<times> (nat, nat) chan_mpsc option \<times> xtc_res option) option) = Some XTC_OK \<and>
    map_option (\<lambda>x. fst (snd x) = None) (xtc_chan_mpsc_create XTC_OK XTC_OK None 5 True ::
      (xtc_err \<times> (nat, nat) chan_mpsc option \<times> xtc_res option) option) = Some False"
    by code_simp
  then obtain d r1 where d: "xtc_chan_mpsc_create XTC_OK XTC_OK None 5 True =
      Some (XTC_OK, Some (d :: (nat, nat) chan_mpsc), r1)" by (auto split: option.splits)
  with mpsc_create_returns [of XTC_OK XTC_OK None 5 True, where 'a = nat and 'w = nat]
  have "\<exists>j \<le> 63. ms_cap d = 2 ^ j \<and> unat (5 :: 64 word) \<le> 2 ^ j \<and> 2 ^ j < 2 * unat (5 :: 64 word)"
    by force
  then obtain j where "ms_cap d = 2 ^ j" "5 \<le> (2::nat) ^ j" "(2::nat) ^ j < 10" by auto
  moreover have "round_up 1 (2 ^ 63 + 1) = None"
    using conjunct2 [OF mpsc_create_returns [of XTC_OK XTC_OK None "2 ^ 63 + 1" True]]
    by (simp add: unat_word_ariths(1))
  ultimately show ?thesis using d by blast
qed

lemma mpsc_create_ok:
  assumes "holds r f" "xtc_chan_mpsc_create rc1 rc2 r capacity has_out = Some (XTC_OK, Some c, r1)"
    and "unat capacity \<le> 2 ^ 60" "k < 2 ^ 64"
  shows "mpsc_ok (f(1 := f 1 + 1)) k (c, r1) \<and> mpsc_cont c = [] \<and> unat (ms_cap c) < 2 * unat capacity"
proof -
  from mpsc_create_cases(2) [OF assms(2)] obtain j where
    j: "chan_charge r XTC_RES_CHANNELS 1 = (XTC_OK, r1)" "j \<le> 63" "c = mpsc_fresh (2 ^ j)"
      "2 ^ j < 2 * unat capacity" by auto
  with assms(3) have "(2 :: nat) ^ j < 2 ^ 63" by simp
  then have "j < 63" using nat_power_less_imp_less [of 2 j 63] by simp
  moreover have "mpsc_cont c = []" "mpsc_n c = 0"
    using j by (simp_all add: mpsc_cont_def mpsc_n_def mpsc_fresh_def)
  moreover have "unat (2 ^ j :: 64 word) < 2 * unat capacity" using j by (simp add: unat_pow2)
  ultimately show ?thesis using j buffered_create [OF assms(1) j(1)] assms(4)
    by (auto simp: mpsc_ok_def mpsc_inv_def) (auto simp: mpsc_fresh_def)
qed

lemma sint_small:
  fixes w :: "64 word"
  assumes "unat w < 2 ^ 63"
  shows "sint w = int (unat w)"
proof -
  have "int (unat w) < int (2 ^ 63)" using assms by (simp only: of_nat_less_iff)
  then have "uint w < 2 ^ 63" by simp
  then have "signed_take_bit 63 (uint w) = uint w"
    by (intro signed_take_bit_int_eq_self order.trans [OF _ uint_ge_0 [of w]]) simp_all
  then show ?thesis by (simp add: sint_uint)
qed

text \<open>
  C25. The life of an mpsc channel, one call at a time. From a successful create through any
  sequence of fewer than \<open>2 ^ 64\<close> sends and receives to the destroy: the messages delivered
  followed by those still buffered are those accepted, in order; the buffer stays within the
  rounded capacity; and after the destroy the accountant has every unit back.
\<close>

theorem mpsc_lifecycle:
  assumes "holds r f" "unat capacity \<le> 2 ^ 60" "length ops < 2 ^ 64"
    and "xtc_chan_mpsc_create rc1 rc2 r capacity has_out = Some (XTC_OK, Some c, r1)"
    and "fifo_run mpsc_send mpsc_recv (c, r1) ops = (ins, outs, d, r2)"
  shows "ins = outs @ mpsc_cont d \<and> unat (xtc_chan_mpsc_len (Some d)) < 2 * unat capacity \<and>
    holds (xtc_chan_mpsc_destroy (Some d) r2) f"
proof -
  from mpsc_create_ok [OF assms(1,4,2,3)]
  have ok: "mpsc_ok (f(1 := f 1 + 1)) (length ops + 0) (c, r1)"
    and c: "mpsc_cont c = []" "unat (ms_cap c) < 2 * unat capacity" by auto
  from mpsc.fifo [OF ok assms(5)] c have ins: "ins = outs @ mpsc_cont d"
    and d: "mpsc_ok (f(1 := f 1 + 1)) 0 (d, r2)" "unat (ms_cap d) < 2 * unat capacity"
    by (simp_all add: mpsc_msgs_def mpsc_capacity_def)
  then have len: "unat (xtc_chan_mpsc_len (Some d)) = mpsc_n d" "mpsc_n d < 2 * unat capacity"
    by (auto simp: mpsc_ok_def mpsc_inv_def mpsc_len_unat)
  with assms(2) have "sint (xtc_chan_mpsc_len (Some d)) = int (mpsc_n d)"
    by (simp add: sint_small)
  with buffered_destroy [of f r2 "mpsc_n d" r "mpsc_n d"] d assms(1) ins len show ?thesis
    by (auto simp: mpsc_ok_def intro: buffered_holds)
qed

theorem mpsc_lifecycle_witness:
  "\<exists>c r1 d r2. xtc_chan_mpsc_create XTC_OK XTC_OK (Some res_sample) 2 True =
       Some (XTC_OK, Some (c :: (nat, nat) chan_mpsc), r1) \<and>
     fifo_run mpsc_send mpsc_recv (c, r1)
       [Send False (Some 7), Send False (Some 8), Send False (Some 9), Recv] =
       ([Some 7, Some 8], [Some 7], d, r2) \<and>
     [Some 7, Some 8] = [Some 7] @ mpsc_cont d \<and> unat (xtc_chan_mpsc_len (Some d)) < 2 * 2 \<and>
     holds (xtc_chan_mpsc_destroy (Some d) r2) (\<lambda>_. 0)"
proof -
  let ?ops = "[Send False (Some (7::nat)), Send False (Some 8), Send False (Some 9), Recv]"
  define cr :: "xtc_err \<times> (nat, nat) chan_mpsc option \<times> xtc_res option" where
    "cr = the (xtc_chan_mpsc_create XTC_OK XTC_OK (Some res_sample) 2 True)"
  define t where "t = fifo_run mpsc_send mpsc_recv (the (fst (snd cr)), snd (snd cr)) ?ops"
  have "fst cr = XTC_OK" "fst (snd cr) \<noteq> None" unfolding cr_def by code_simp+
  moreover have "xtc_chan_mpsc_create XTC_OK XTC_OK (Some res_sample) 2 True = Some cr"
    using mpsc_create_cases(1) [of XTC_OK XTC_OK "Some res_sample" 2 True, where 'a = nat and 'b = nat]
    by (auto simp: cr_def)
  ultimately have c: "xtc_chan_mpsc_create XTC_OK XTC_OK (Some res_sample) 2 True =
      Some (XTC_OK, Some (the (fst (snd cr))), snd (snd cr))"
    by (simp add: prod_eq_iff)
  have "fst t = [Some 7, Some 8] \<and> fst (snd t) = [Some 7]"
    unfolding t_def cr_def by code_simp
  then have d: "fifo_run mpsc_send mpsc_recv (the (fst (snd cr)), snd (snd cr)) ?ops =
      ([Some 7, Some 8], [Some 7], fst (snd (snd t)), snd (snd (snd t)))"
    by (simp add: t_def prod_eq_iff)
  from mpsc_lifecycle [OF holds_sample _ _ c d] c d show ?thesis by fastforce
qed

end
