(* ===== verification/Mpsc_Conc.thy ===== *)
theory Mpsc_Conc
  imports Chan_Mpsc
begin

text \<open>
  The mpsc channel of \<open>src/src/ptc/chan.c\<close> under concurrency: any number of producers and
  one consumer, interleaved at every atomic access. The steps of a producer are those of
  \<open>xtc_chan_mpsc_try_send\<close> (load \<open>closed\<close>; load \<open>head\<close>; load \<open>tail\<close> and test for full;
  compare-and-swap of \<open>head\<close>; store of the slot), the steps of the consumer those of
  \<open>xtc_chan_mpsc_try_recv\<close>. The step function is labelled by the scheduler's choice, so a
  list of labels is an interleaving. The memory is sequentially consistent, and the calls
  to the accountant (see \<open>Res_Conc\<close>) and the waker are left out.
\<close>

section \<open>The world and its steps\<close>

datatype 'a mpsc_spc =
  SIdle | SHead 'a | STail 'a "64 word" | SCas 'a "64 word" | SStore 'a "64 word"

datatype 'a mpsc_cpc =
  CTail | CHead "64 word" | CClosed | CSlot "64 word" | CClear "64 word" 'a | CAdvance "64 word" 'a

text \<open>
  The last four fields only record: the messages in the order their slots were reserved, the
  messages delivered, the positions whose send returned \<open>XTC_OK\<close>, and the error codes the
  consumer got, newest first.
\<close>

record ('a, 'w) mpsc_world =
  wd_chan :: "('a, 'w) chan_mpsc"
  wd_spc :: "nat \<Rightarrow> 'a mpsc_spc"
  wd_cpc :: "'a mpsc_cpc"
  wd_order :: "'a list"
  wd_out :: "'a list"
  wd_sent :: "nat list"
  wd_errs :: "xtc_err list"

definition mpsc_world_init :: "64 word \<Rightarrow> ('a, 'w) mpsc_world" where
  "mpsc_world_init cap = \<lparr>wd_chan = mpsc_fresh cap, wd_spc = (\<lambda>_. SIdle), wd_cpc = CTail,
     wd_order = [], wd_out = [], wd_sent = [], wd_errs = []\<rparr>"

text \<open>
  \<open>PSend t m\<close> starts a send of producer \<open>t\<close>; \<open>PStep t b\<close> is its next access, where \<open>b\<close> is the
  simulator's fault at the full test and a spurious failure at the weak compare-and-swap.
\<close>

datatype 'a mpsc_act = PSend nat 'a | PStep nat bool | CStep | Close

definition set_spc :: "('a, 'w) mpsc_world \<Rightarrow> nat \<Rightarrow> 'a mpsc_spc \<Rightarrow> ('a, 'w) mpsc_world" where
  "set_spc s t p = s\<lparr>wd_spc := (wd_spc s)(t := p)\<rparr>"

definition mpsc_pstep :: "nat \<Rightarrow> bool \<Rightarrow> ('a, 'w) mpsc_world \<Rightarrow> ('a, 'w) mpsc_world option" where
  "mpsc_pstep t b s = (let c = wd_chan s in case wd_spc s t of
     SIdle \<Rightarrow> None
   | SHead m \<Rightarrow> Some (set_spc s t (STail m (ms_head c)))
   | STail m h \<Rightarrow>
       Some (if h - ms_tail c \<ge> ms_cap c \<or> b then set_spc s t SIdle else set_spc s t (SCas m h))
   | SCas m h \<Rightarrow>
       Some (if ms_head c = h \<and> \<not> b
             then (set_spc s t (SStore m h))
                    \<lparr>wd_chan := c\<lparr>ms_head := h + 1\<rparr>, wd_order := wd_order s @ [m]\<rparr>
             else set_spc s t (SHead m))
   | SStore m h \<Rightarrow>
       Some ((set_spc s t SIdle)
         \<lparr>wd_chan := c\<lparr>ms_slots := (ms_slots c)[mpsc_idx c h := Some m]\<rparr>,
          wd_sent := unat h # wd_sent s\<rparr>))"

definition mpsc_cstep :: "('a, 'w) mpsc_world \<Rightarrow> ('a, 'w) mpsc_world" where
  "mpsc_cstep s = (let c = wd_chan s in case wd_cpc s of
     CTail \<Rightarrow> s\<lparr>wd_cpc := CHead (ms_tail c)\<rparr>
   | CHead t \<Rightarrow> s\<lparr>wd_cpc := (if t \<ge> ms_head c then CClosed else CSlot t)\<rparr>
   | CClosed \<Rightarrow> s\<lparr>wd_cpc := CTail,
       wd_errs := (if ms_closed c then XTC_E_INVAL else XTC_E_AGAIN) # wd_errs s\<rparr>
   | CSlot t \<Rightarrow> (case ms_slots c ! mpsc_idx c t of
         None \<Rightarrow> s\<lparr>wd_cpc := CTail, wd_errs := XTC_E_AGAIN # wd_errs s\<rparr>
       | Some v \<Rightarrow> s\<lparr>wd_cpc := CClear t v\<rparr>)
   | CClear t v \<Rightarrow> s\<lparr>wd_cpc := CAdvance t v,
       wd_chan := c\<lparr>ms_slots := (ms_slots c)[mpsc_idx c t := None]\<rparr>\<rparr>
   | CAdvance t v \<Rightarrow> s\<lparr>wd_cpc := CTail, wd_chan := c\<lparr>ms_tail := t + 1\<rparr>, wd_out := wd_out s @ [v]\<rparr>)"

fun mpsc_step :: "'a mpsc_act \<Rightarrow> ('a, 'w) mpsc_world \<Rightarrow> ('a, 'w) mpsc_world option" where
  "mpsc_step (PSend t m) s =
     (if wd_spc s t = SIdle
      then Some (if ms_closed (wd_chan s) then s else set_spc s t (SHead m)) else None)"
| "mpsc_step (PStep t b) s = mpsc_pstep t b s"
| "mpsc_step CStep s = Some (mpsc_cstep s)"
| "mpsc_step Close s = Some (s\<lparr>wd_chan := (wd_chan s)\<lparr>ms_closed := True\<rparr>\<rparr>)"

fun mpsc_run :: "'a mpsc_act list \<Rightarrow> ('a, 'w) mpsc_world \<Rightarrow> ('a, 'w) mpsc_world option" where
  "mpsc_run [] s = Some s"
| "mpsc_run (a # as) s = (case mpsc_step a s of None \<Rightarrow> None | Some s' \<Rightarrow> mpsc_run as s')"

section \<open>The invariant\<close>

definition slot_at :: "'p list \<Rightarrow> nat \<Rightarrow> 'p" where
  "slot_at xs i = xs ! (i mod length xs)"

text \<open>What a producer's program counter knows, for \<open>H\<close> reservations and \<open>T\<close> deliveries.\<close>

fun spc_ok :: "'a list \<Rightarrow> nat \<Rightarrow> 'a option list \<Rightarrow> 'a mpsc_spc \<Rightarrow> bool" where
  "spc_ok order T xs SIdle = True"
| "spc_ok order T xs (SHead m) = True"
| "spc_ok order T xs (STail m h) = (unat h \<le> length order)"
| "spc_ok order T xs (SCas m h) = (unat h \<le> length order \<and> unat h < T + length xs)"
| "spc_ok order T xs (SStore m h) =
     (T \<le> unat h \<and> unat h < length order \<and> order ! unat h = m \<and> slot_at xs (unat h) = None)"

definition storing :: "(nat \<Rightarrow> 'a mpsc_spc) \<Rightarrow> nat \<Rightarrow> bool" where
  "storing spc i = (\<exists>t m h. spc t = SStore m h \<and> unat h = i)"

fun cpc_ok :: "'a list \<Rightarrow> nat \<Rightarrow> 'a option list \<Rightarrow> (nat \<Rightarrow> 'a mpsc_spc) \<Rightarrow> 'a mpsc_cpc \<Rightarrow> bool" where
  "cpc_ok order T xs spc CTail = True"
| "cpc_ok order T xs spc (CHead t) = (unat t = T)"
| "cpc_ok order T xs spc CClosed = True"
| "cpc_ok order T xs spc (CSlot t) = (unat t = T \<and> T < length order)"
| "cpc_ok order T xs spc (CClear t v) = (unat t = T \<and> T < length order \<and> slot_at xs T = Some v)"
| "cpc_ok order T xs spc (CAdvance t v) =
     (unat t = T \<and> T < length order \<and> slot_at xs T = None \<and> v = order ! T \<and> \<not> storing spc T)"

fun clearing :: "'a mpsc_cpc \<Rightarrow> bool" where
  "clearing (CAdvance t v) = True"
| "clearing _ = False"

definition window_ok ::
  "'a list \<Rightarrow> nat \<Rightarrow> 'a option list \<Rightarrow> (nat \<Rightarrow> 'a mpsc_spc) \<Rightarrow> 'a mpsc_cpc \<Rightarrow> bool" where
  "window_ok order T xs spc cpc =
     ((\<forall>i. T \<le> i \<longrightarrow> i < length order \<longrightarrow>
         slot_at xs i = Some (order ! i) \<or>
         slot_at xs i = None \<and> (storing spc i \<or> i = T \<and> clearing cpc)) \<and>
      (\<forall>i. length order \<le> i \<longrightarrow> i < T + length xs \<longrightarrow> slot_at xs i = None))"

definition store_distinct :: "(nat \<Rightarrow> 'a mpsc_spc) \<Rightarrow> bool" where
  "store_distinct spc =
     (\<forall>t t' m m' h. spc t = SStore m h \<longrightarrow> spc t' = SStore m' h \<longrightarrow> t = t')"

definition ring_inv ::
  "'a list \<Rightarrow> nat \<Rightarrow> 'a option list \<Rightarrow> (nat \<Rightarrow> 'a mpsc_spc) \<Rightarrow> 'a mpsc_cpc \<Rightarrow> nat list \<Rightarrow> bool" where
  "ring_inv order T xs spc cpc sent =
     (0 < length xs \<and> T \<le> length order \<and> length order \<le> T + length xs \<and>
      window_ok order T xs spc cpc \<and> (\<forall>t. spc_ok order T xs (spc t)) \<and> store_distinct spc \<and>
      cpc_ok order T xs spc cpc \<and> (\<forall>i \<in> set sent. i < length order \<and> \<not> storing spc i))"

definition mpsc_conc_inv :: "('a, 'w) mpsc_world \<Rightarrow> bool" where
  "mpsc_conc_inv s =
     ((\<exists>k < 63. ms_cap (wd_chan s) = 2 ^ k) \<and>
      length (ms_slots (wd_chan s)) = unat (ms_cap (wd_chan s)) \<and>
      length (wd_order s) < 2 ^ 64 \<and>
      unat (ms_head (wd_chan s)) = length (wd_order s) \<and>
      unat (ms_tail (wd_chan s)) = length (wd_out s) \<and>
      wd_out s = take (length (wd_out s)) (wd_order s) \<and>
      ring_inv (wd_order s) (length (wd_out s)) (ms_slots (wd_chan s)) (wd_spc s) (wd_cpc s)
        (wd_sent s))"

subsection \<open>Slots\<close>

lemma slot_at_update:
  "0 < length xs \<Longrightarrow> slot_at (xs[i mod length xs := v]) j =
     (if i mod length xs = j mod length xs then v else slot_at xs j)"
  by (simp add: slot_at_def nth_list_update_If)

lemma window_mod_inj:
  assumes "i mod m = j mod m" "T \<le> i" "i < T + m" "T \<le> j" "j < T + m"
  shows "i = (j :: nat)"
proof -
  have "i - T < m" "j - T < m" using assms(2-5) by linarith+
  with mod_ring_inj [of "i - T" m "j - T" T] assms show ?thesis by simp
qed

lemma slot_at_period: "slot_at xs (i + length xs) = slot_at xs i"
  by (simp add: slot_at_def)

lemma storing_upd:
  "storing (spc(t := p)) i =
     ((\<exists>m h. p = SStore m h \<and> unat h = i) \<or> (\<exists>t' m h. t' \<noteq> t \<and> spc t' = SStore m h \<and> unat h = i))"
  by (auto simp: storing_def)

lemma store_unique:
  "store_distinct spc \<Longrightarrow> spc t = SStore m h \<Longrightarrow> spc t' = SStore m' h' \<Longrightarrow> unat h = unat h' \<Longrightarrow> t = t'"
  by (metis store_distinct_def word_unat_eq_iff)

lemma ring_inv_spc: "ring_inv order T xs spc cpc sent \<Longrightarrow> spc_ok order T xs (spc t)"
  by (simp add: ring_inv_def)

lemma ring_inv_storing:
  assumes "ring_inv order T xs spc cpc sent" "storing spc i"
  shows "T \<le> i \<and> i < length order \<and> slot_at xs i = None"
proof -
  from assms(2) obtain t m h where "spc t = SStore m h" "unat h = i" by (auto simp: storing_def)
  with ring_inv_spc [OF assms(1), of t] show ?thesis by auto
qed

subsection \<open>The steps keep the ring\<close>

lemma ring_inv_pc:
  assumes "ring_inv order T xs spc cpc sent" "\<And>m h. spc t \<noteq> SStore m h" "\<And>m h. p \<noteq> SStore m h"
    and "spc_ok order T xs p"
  shows "ring_inv order T xs (spc(t := p)) cpc sent"
proof -
  have st: "storing (spc(t := p)) = storing spc"
    using assms(2,3) by (simp add: storing_upd fun_eq_iff) (metis storing_def)
  moreover have "store_distinct (spc(t := p))"
    using assms(1,3) by (auto simp: ring_inv_def store_distinct_def)
  moreover have "cpc_ok order T xs (spc(t := p)) cpc = cpc_ok order T xs spc cpc"
    using st by (cases cpc) auto
  ultimately show ?thesis using assms by (auto simp: ring_inv_def window_ok_def)
qed

lemma ring_inv_reserve:
  assumes inv: "ring_inv order T xs spc cpc sent" and t: "spc t = SCas m h" "unat h = length order"
  shows "ring_inv (order @ [m]) T xs (spc(t := SStore m h)) cpc sent"
proof -
  from ring_inv_spc [OF inv, of t] t have lt: "length order < T + length xs" by simp
  with inv have free: "slot_at xs (length order) = None"
    by (simp add: ring_inv_def window_ok_def)
  have st: "storing (spc(t := SStore m h)) i = (i = length order \<or> storing spc i)" for i
    unfolding storing_upd using t by (simp add: storing_def) (metis mpsc_spc.distinct(19))
  have new: "\<not> storing spc i" if "length order \<le> i" for i
    using ring_inv_storing [OF inv, of i] that by auto
  have "window_ok (order @ [m]) T xs (spc(t := SStore m h)) cpc"
    using inv free by (auto simp: ring_inv_def window_ok_def st nth_append less_Suc_eq)
  moreover have "spc_ok (order @ [m]) T xs p" if "spc_ok order T xs p" for p
    using that lt by (cases p) (auto simp: nth_append)
  moreover have "store_distinct (spc(t := SStore m h))"
    using inv t new [of "length order"] by (auto simp: ring_inv_def store_distinct_def storing_def)
  moreover have "cpc_ok (order @ [m]) T xs (spc(t := SStore m h)) cpc"
    using inv by (cases cpc) (auto simp: ring_inv_def st nth_append)
  ultimately show ?thesis
    using inv lt free t by (auto simp: ring_inv_def st nth_append)
qed

lemma ring_inv_store:
  assumes inv: "ring_inv order T xs spc cpc sent" and t: "spc t = SStore m h"
  shows "ring_inv order T (xs[unat h mod length xs := Some m]) (spc(t := SIdle)) cpc (unat h # sent)"
    (is "ring_inv order T ?xs ?spc cpc _")
proof -
  from ring_inv_spc [OF inv, of t] t have h: "T \<le> unat h" "unat h < length order"
    "order ! unat h = m" "slot_at xs (unat h) = None" by auto
  from inv have len: "0 < length xs" "length order \<le> T + length xs" and
    dist: "store_distinct spc" by (auto simp: ring_inv_def)
  have st: "storing ?spc i = (storing spc i \<and> i \<noteq> unat h)" for i
  proof
    assume "storing ?spc i"
    then obtain t' m' h' where "t' \<noteq> t" "spc t' = SStore m' h'" "unat h' = i"
      by (auto simp: storing_upd)
    with store_unique [OF dist t, of t' m' h'] show "storing spc i \<and> i \<noteq> unat h"
      by (auto simp: storing_def)
  next
    assume i: "storing spc i \<and> i \<noteq> unat h"
    then obtain t' m' h' where u: "spc t' = SStore m' h'" "unat h' = i" by (auto simp: storing_def)
    with i t have "t' \<noteq> t" by auto
    with u show "storing ?spc i" by (auto simp: storing_upd)
  qed
  have slot: "slot_at ?xs i = (if i = unat h then Some m else slot_at xs i)"
    if "T \<le> i" "i < T + length xs" for i
    using that h len window_mod_inj [of "unat h" "length xs" i T] by (auto simp: slot_at_update)
  have "window_ok order T ?xs ?spc cpc"
    using inv h len by (auto simp: ring_inv_def window_ok_def st slot)
  moreover have "spc_ok order T ?xs (?spc u)" for u
    using ring_inv_spc [OF inv, of u] t h len slot store_unique [OF dist t, of u]
    by (cases "spc u") auto
  moreover have "store_distinct ?spc" using inv by (auto simp: ring_inv_def store_distinct_def)
  moreover have "storing spc (unat h)" using t by (auto simp: storing_def)
  then have "cpc_ok order T ?xs ?spc cpc"
    using inv h slot [of T] by (cases cpc) (auto simp: ring_inv_def st)
  ultimately show ?thesis using inv h len by (auto simp: ring_inv_def st)
qed

lemma ring_inv_cpc:
  assumes "ring_inv order T xs spc cpc sent" "\<not> clearing cpc" "\<not> clearing cpc'"
    and "cpc_ok order T xs spc cpc'"
  shows "ring_inv order T xs spc cpc' sent"
  using assms by (auto simp: ring_inv_def window_ok_def)

lemma ring_inv_clear:
  assumes inv: "ring_inv order T xs spc (CClear t v) sent"
  shows "ring_inv order T (xs[T mod length xs := None]) spc (CAdvance t v) sent"
    (is "ring_inv order T ?xs spc _ sent")
proof -
  from inv have v: "T < length order" "slot_at xs T = Some v" "unat t = T" "0 < length xs"
    "length order \<le> T + length xs"
    by (auto simp: ring_inv_def)
  then have "v = order ! T" using inv by (auto simp: ring_inv_def window_ok_def)
  have slot: "slot_at ?xs i = (if i = T then None else slot_at xs i)"
    if "T \<le> i" "i < T + length xs" for i
    using that v window_mod_inj [of T "length xs" i T] by (auto simp: slot_at_update)
  have no: "\<not> storing spc T" using ring_inv_storing [OF inv, of T] v by auto
  have "window_ok order T ?xs spc (CAdvance t v)"
    using inv v by (auto simp: ring_inv_def window_ok_def slot)
  moreover have "spc_ok order T ?xs (spc u)" for u
    using ring_inv_spc [OF inv, of u] v slot by (cases "spc u") auto
  ultimately show ?thesis
    using inv v no slot [of T] \<open>v = order ! T\<close> by (auto simp: ring_inv_def)
qed

lemma ring_inv_advance:
  assumes inv: "ring_inv order T xs spc (CAdvance t v) sent"
  shows "ring_inv order (Suc T) xs spc CTail sent" "v = order ! T" "T < length order" "unat t = T"
proof -
  from inv show v: "v = order ! T" "T < length order" "unat t = T" by (auto simp: ring_inv_def)
  from inv have no: "\<not> storing spc T" and clear: "slot_at xs T = None" by (auto simp: ring_inv_def)
  have "slot_at xs i = None" if "length order \<le> i" "i < Suc T + length xs" for i
    using inv that clear slot_at_period [of xs T]
    by (cases "i = T + length xs") (auto simp: ring_inv_def window_ok_def add.commute)
  moreover have "slot_at xs i = Some (order ! i) \<or> slot_at xs i = None \<and> storing spc i"
    if "Suc T \<le> i" "i < length order" for i
    using inv that by (simp add: ring_inv_def window_ok_def) (metis Suc_leD Suc_n_not_le_n)
  ultimately have "window_ok order (Suc T) xs spc CTail"
    by (simp add: window_ok_def)
  moreover have "spc_ok order (Suc T) xs (spc u)" for u
    using ring_inv_spc [OF inv, of u] no
    by (cases "spc u") (auto simp: storing_def le_eq_less_or_eq Suc_le_eq)
  ultimately show "ring_inv order (Suc T) xs spc CTail sent"
    using inv v by (auto simp: ring_inv_def)
qed

lemma ring_inv_sent:
  assumes inv: "ring_inv order T xs spc cpc sent" and i: "i \<in> set sent"
  shows "i < T \<or> slot_at xs i = Some (order ! i) \<or> (i = T \<and> (\<exists>t. cpc = CAdvance t (order ! i)))"
proof (cases "i < T")
  case False
  from inv i have "i < length order" "\<not> storing spc i" by (auto simp: ring_inv_def)
  moreover from False have "T \<le> i" by simp
  ultimately have "slot_at xs i = Some (order ! i) \<or> i = T \<and> clearing cpc"
    using inv unfolding ring_inv_def window_ok_def by blast
  with inv show ?thesis by (cases cpc) (auto simp: ring_inv_def)
qed simp

subsection \<open>The steps keep the world\<close>

lemma mpsc_conc_idx:
  "mpsc_conc_inv s \<Longrightarrow> mpsc_idx (wd_chan s) w = unat w mod length (ms_slots (wd_chan s))"
  by (simp add: mpsc_conc_inv_def mpsc_idx_mod)

lemma mpsc_conc_inv_pc:
  assumes "mpsc_conc_inv s" "\<And>m h. wd_spc s t \<noteq> SStore m h" "\<And>m h. p \<noteq> SStore m h"
    and "spc_ok (wd_order s) (length (wd_out s)) (ms_slots (wd_chan s)) p"
  shows "mpsc_conc_inv (set_spc s t p)"
  using assms ring_inv_pc [of "wd_order s" "length (wd_out s)" "ms_slots (wd_chan s)" "wd_spc s"
      "wd_cpc s" "wd_sent s" t p]
  by (simp add: mpsc_conc_inv_def set_spc_def)

lemma mpsc_conc_inv_cpc:
  assumes "mpsc_conc_inv s" "\<not> clearing (wd_cpc s)" "\<not> clearing p"
    and "cpc_ok (wd_order s) (length (wd_out s)) (ms_slots (wd_chan s)) (wd_spc s) p"
  shows "mpsc_conc_inv (s\<lparr>wd_cpc := p\<rparr>)" "mpsc_conc_inv (s\<lparr>wd_cpc := p, wd_errs := es\<rparr>)"
  using assms ring_inv_cpc [of "wd_order s" "length (wd_out s)" "ms_slots (wd_chan s)" "wd_spc s"
      "wd_cpc s" "wd_sent s" p]
  by (simp_all add: mpsc_conc_inv_def)

lemma mpsc_pstep_inv:
  assumes inv: "mpsc_conc_inv s" and step: "mpsc_pstep t b s = Some s'"
    and len: "length (wd_order s') < 2 ^ 64"
  shows "mpsc_conc_inv s'"
proof -
  let ?c = "wd_chan s"
  from inv have ring: "ring_inv (wd_order s) (length (wd_out s)) (ms_slots ?c) (wd_spc s) (wd_cpc s)
      (wd_sent s)" and head: "unat (ms_head ?c) = length (wd_order s)"
    and tail: "unat (ms_tail ?c) = length (wd_out s)"
    and cap: "length (ms_slots ?c) = unat (ms_cap ?c)" by (auto simp: mpsc_conc_inv_def)
  note pc = ring_inv_spc [OF ring, of t]
  show ?thesis
  proof (cases "wd_spc s t")
    case SIdle
    with step show ?thesis by (simp add: mpsc_pstep_def)
  next
    case (SHead m)
    with step inv head mpsc_conc_inv_pc [OF inv, of t "STail m (ms_head ?c)"] show ?thesis
      by (simp add: mpsc_pstep_def)
  next
    case (STail m h)
    have "unat h < length (wd_out s) + length (ms_slots ?c)" if "\<not> ms_cap ?c \<le> h - ms_tail ?c"
    proof (cases "ms_tail ?c \<le> h")
      case True
      with that tail cap show ?thesis by (simp add: word_le_nat_alt unat_sub)
    next
      case False
      with tail show ?thesis by (simp add: word_le_nat_alt)
    qed
    with STail step pc mpsc_conc_inv_pc [OF inv, of t SIdle]
      mpsc_conc_inv_pc [OF inv, of t "SCas m h"] show ?thesis
      by (auto simp: mpsc_pstep_def Let_def split: if_splits)
  next
    case (SCas m h)
    show ?thesis
    proof (cases "ms_head ?c = h \<and> \<not> b")
      case True
      with SCas step have s': "s' = (set_spc s t (SStore m h))
          \<lparr>wd_chan := ?c\<lparr>ms_head := h + 1\<rparr>, wd_order := wd_order s @ [m]\<rparr>"
        by (simp add: mpsc_pstep_def)
      with len have "length (wd_order s) + 1 < 2 ^ 64" by (simp add: set_spc_def)
      with True head have "unat (h + 1) = length (wd_order s) + 1"
        by (simp add: unat_word_ariths(1))
      moreover have "length (wd_out s) \<le> length (wd_order s)" using ring by (simp add: ring_inv_def)
      ultimately show ?thesis using ring_inv_reserve [OF ring SCas] True head inv len s'
        by (simp add: mpsc_conc_inv_def set_spc_def)
    next
      case False
      with SCas step mpsc_conc_inv_pc [OF inv, of t "SHead m"] show ?thesis
        by (simp add: mpsc_pstep_def)
    qed
  next
    case (SStore m h)
    with step mpsc_conc_idx [OF inv, of h] have "s' = (set_spc s t SIdle)
        \<lparr>wd_chan := ?c\<lparr>ms_slots := (ms_slots ?c)[unat h mod length (ms_slots ?c) := Some m]\<rparr>,
         wd_sent := unat h # wd_sent s\<rparr>"
      by (simp add: mpsc_pstep_def Let_def)
    with ring_inv_store [OF ring SStore] inv show ?thesis
      by (simp add: mpsc_conc_inv_def set_spc_def)
  qed
qed

lemma mpsc_cstep_inv:
  assumes inv: "mpsc_conc_inv s"
  shows "mpsc_conc_inv (mpsc_cstep s)"
proof -
  let ?c = "wd_chan s"
  from inv have ring: "ring_inv (wd_order s) (length (wd_out s)) (ms_slots ?c) (wd_spc s) (wd_cpc s)
      (wd_sent s)" and head: "unat (ms_head ?c) = length (wd_order s)"
    and tail: "unat (ms_tail ?c) = length (wd_out s)" "length (wd_order s) < 2 ^ 64"
    by (auto simp: mpsc_conc_inv_def)
  then have pc: "cpc_ok (wd_order s) (length (wd_out s)) (ms_slots ?c) (wd_spc s) (wd_cpc s)"
    by (simp add: ring_inv_def)
  show ?thesis
  proof (cases "wd_cpc s")
    case CTail
    with mpsc_conc_inv_cpc [OF inv, of "CHead (ms_tail ?c)"] tail show ?thesis
      by (simp add: mpsc_cstep_def)
  next
    case (CHead t)
    with mpsc_conc_inv_cpc [OF inv, of CClosed] mpsc_conc_inv_cpc [OF inv, of "CSlot t"] pc head
    show ?thesis by (auto simp: mpsc_cstep_def word_le_nat_alt not_le)
  next
    case CClosed
    with mpsc_conc_inv_cpc(2) [OF inv, of CTail] show ?thesis by (simp add: mpsc_cstep_def)
  next
    case (CSlot t)
    with pc mpsc_conc_inv_cpc [OF inv, of CTail] mpsc_conc_inv_cpc [OF inv, of "CClear t _"]
      mpsc_conc_idx [OF inv, of t] show ?thesis
      by (auto simp: mpsc_cstep_def slot_at_def Let_def split: option.splits)
  next
    case (CClear t v)
    with ring_inv_clear [of "wd_order s" "length (wd_out s)" "ms_slots ?c" "wd_spc s" t v] ring pc
      inv mpsc_conc_idx [OF inv, of t] show ?thesis
      by (simp add: mpsc_cstep_def mpsc_conc_inv_def Let_def)
  next
    case (CAdvance t v)
    with ring_inv_advance [of "wd_order s" "length (wd_out s)" "ms_slots ?c" "wd_spc s" t v] ring
    have adv: "ring_inv (wd_order s) (Suc (length (wd_out s))) (ms_slots ?c) (wd_spc s) CTail (wd_sent s)"
      "v = wd_order s ! length (wd_out s)" "length (wd_out s) < length (wd_order s)"
      "unat t = length (wd_out s)" by auto
    then have "unat (t + 1) = Suc (length (wd_out s))"
      using tail by (simp add: unat_word_ariths(1))
    moreover have "wd_out s @ [v] = take (Suc (length (wd_out s))) (wd_order s)"
      using inv adv by (metis mpsc_conc_inv_def take_Suc_conv_app_nth)
    ultimately show ?thesis using CAdvance inv adv
      by (simp add: mpsc_cstep_def mpsc_conc_inv_def Let_def)
  qed
qed

lemma mpsc_step_inv:
  assumes "mpsc_conc_inv s" "mpsc_step a s = Some s'" "length (wd_order s') < 2 ^ 64"
  shows "mpsc_conc_inv s'"
proof (cases a)
  case (PSend t m)
  with assms mpsc_conc_inv_pc [OF assms(1), of t "SHead m"] show ?thesis by (auto split: if_splits)
next
  case Close
  with assms show ?thesis by (auto simp: mpsc_conc_inv_def)
qed (use assms mpsc_pstep_inv mpsc_cstep_inv in auto)

lemma mpsc_step_order:
  "mpsc_step a s = Some s' \<Longrightarrow> length (wd_order s) \<le> length (wd_order s')"
  by (cases a) (auto simp: mpsc_pstep_def mpsc_cstep_def set_spc_def Let_def
      split: if_splits mpsc_spc.splits mpsc_cpc.splits option.splits)

lemma mpsc_step_cap: "mpsc_step a s = Some s' \<Longrightarrow> ms_cap (wd_chan s') = ms_cap (wd_chan s)"
  by (cases a) (auto simp: mpsc_pstep_def mpsc_cstep_def set_spc_def Let_def
      split: if_splits mpsc_spc.splits mpsc_cpc.splits option.splits)

lemma mpsc_run_cap: "mpsc_run as s = Some s' \<Longrightarrow> ms_cap (wd_chan s') = ms_cap (wd_chan s)"
  by (induction as arbitrary: s) (auto split: option.splits dest: mpsc_step_cap)

lemma mpsc_run_order: "mpsc_run as s = Some s' \<Longrightarrow> length (wd_order s) \<le> length (wd_order s')"
  by (induction as arbitrary: s) (auto split: option.splits dest: mpsc_step_order order.trans)

lemma mpsc_run_inv:
  "mpsc_conc_inv s \<Longrightarrow> mpsc_run as s = Some s' \<Longrightarrow> length (wd_order s') < 2 ^ 64 \<Longrightarrow> mpsc_conc_inv s'"
proof (induction as arbitrary: s)
  case (Cons a as)
  then obtain u where u: "mpsc_step a s = Some u" "mpsc_run as u = Some s'"
    by (auto split: option.splits)
  with mpsc_run_order [OF u(2)] Cons.prems have "length (wd_order u) < 2 ^ 64" by linarith
  with mpsc_step_inv [OF Cons.prems(1) u(1)] Cons.IH [OF _ u(2)] Cons.prems show ?case by simp
qed simp

lemma mpsc_world_init_inv:
  assumes "k < 63"
  shows "mpsc_conc_inv (mpsc_world_init (2 ^ k))"
proof -
  have "slot_at (replicate (2 ^ k) None) i = None" for i by (simp add: slot_at_def)
  then show ?thesis using assms
    by (auto simp: mpsc_conc_inv_def mpsc_world_init_def mpsc_fresh_def ring_inv_def window_ok_def
        store_distinct_def unat_pow2)
qed

section \<open>Properties\<close>

text \<open>
  C5. Under any interleaving of any number of producers with the consumer, on a channel of
  capacity \<open>2 ^ k\<close> (and as long as fewer than \<open>2 ^ 64\<close> messages were ever sent): the messages
  delivered are a prefix of the messages in the order their slots were reserved, so nothing is
  reordered, duplicated or invented; at most the capacity is reserved and not yet delivered;
  and a message whose send returned \<open>XTC_OK\<close> is never lost: it was delivered, or it is in its
  slot, or the consumer has it in hand.
\<close>

theorem mpsc_conc_fifo:
  fixes s :: "('a, 'w) mpsc_world"
  assumes "k < 63" "mpsc_run as (mpsc_world_init (2 ^ k)) = Some s" "length (wd_order s) < 2 ^ 64"
  shows "wd_out s = take (length (wd_out s)) (wd_order s) \<and>
    length (wd_order s) \<le> length (wd_out s) + 2 ^ k \<and>
    (\<forall>i \<in> set (wd_sent s). i < length (wd_out s) \<or>
       ms_slots (wd_chan s) ! (i mod 2 ^ k) = Some (wd_order s ! i) \<or>
       (i = length (wd_out s) \<and> (\<exists>t. wd_cpc s = CAdvance t (wd_order s ! i))))"
proof -
  have inv: "mpsc_conc_inv s"
    using mpsc_run_inv [OF mpsc_world_init_inv [OF assms(1)] assms(2,3)] .
  have cap: "length (ms_slots (wd_chan s)) = 2 ^ k"
    using inv mpsc_run_cap [OF assms(2)] assms(1)
    by (simp add: mpsc_conc_inv_def mpsc_world_init_def mpsc_fresh_def unat_pow2)
  have "i < length (wd_out s) \<or> ms_slots (wd_chan s) ! (i mod 2 ^ k) = Some (wd_order s ! i) \<or>
       (i = length (wd_out s) \<and> (\<exists>t. wd_cpc s = CAdvance t (wd_order s ! i)))"
    if "i \<in> set (wd_sent s)" for i
  proof -
    from inv have "ring_inv (wd_order s) (length (wd_out s)) (ms_slots (wd_chan s)) (wd_spc s)
        (wd_cpc s) (wd_sent s)" by (simp add: mpsc_conc_inv_def)
    from ring_inv_sent [OF this that] cap show ?thesis by (simp add: slot_at_def)
  qed
  then show ?thesis using inv cap by (auto simp: mpsc_conc_inv_def ring_inv_def)
qed

text \<open>
  An interleaving on a channel of two slots: producer 0 reserves, producer 1 reserves and
  finishes first, a third send finds the channel full, and the consumer takes both in order.
\<close>

definition mpsc_sched :: "nat mpsc_act list" where
  "mpsc_sched =
     [PSend 0 10, PStep 0 False, PStep 0 False, PSend 1 11, PStep 1 False, PStep 1 False,
      PStep 0 False, PStep 1 False, PStep 1 False, PStep 1 False, PStep 1 False, PStep 1 False,
      CStep, CStep, CStep, PSend 2 12, PStep 2 False, PStep 2 False, PStep 0 False] @
     replicate 9 CStep"

theorem mpsc_conc_fifo_witness:
  "\<exists>s :: (nat, nat) mpsc_world. mpsc_run mpsc_sched (mpsc_world_init (2 ^ 1)) = Some s \<and>
     wd_order s = [10, 11] \<and> wd_sent s = [0, 1] \<and> wd_out s = [10] \<and> wd_errs s = [XTC_E_AGAIN] \<and>
     (\<exists>t. wd_cpc s = CAdvance t 11)"
proof -
  define res where "res = mpsc_run mpsc_sched (mpsc_world_init (2 ^ 1) :: (nat, nat) mpsc_world)"
  have "map_option wd_order res = Some [10, 11] \<and> map_option wd_sent res = Some [0, 1] \<and>
    map_option wd_out res = Some [10] \<and> map_option wd_errs res = Some [XTC_E_AGAIN] \<and>
    map_option (\<lambda>s. ms_slots (wd_chan s) ! 1) res = Some None"
    unfolding res_def by code_simp
  then obtain s where s: "res = Some s" "wd_order s = [10, 11]" "wd_sent s = [0, 1]" "wd_out s = [10]"
    "wd_errs s = [XTC_E_AGAIN]" "ms_slots (wd_chan s) ! 1 = None" by auto
  from mpsc_conc_fifo [of 1 mpsc_sched s] s have "\<exists>t. wd_cpc s = CAdvance t 11"
    by (simp add: res_def)
  with s show ?thesis by (auto simp: res_def)
qed

text \<open>
  C27. The consumer is never held up by a producer that is still writing a later slot. In any
  reachable state, if the send of the next message to deliver has returned, a receive that
  runs alone from its start delivers that message.
\<close>

theorem mpsc_recv_progress:
  fixes s :: "('a, 'w) mpsc_world"
  assumes "k < 63" "mpsc_run as (mpsc_world_init (2 ^ k)) = Some s" "length (wd_order s) < 2 ^ 64"
    and "wd_cpc s = CTail" "length (wd_out s) \<in> set (wd_sent s)"
  shows "\<exists>s'. mpsc_run (replicate 5 CStep) s = Some s' \<and> wd_cpc s' = CTail \<and>
    wd_out s' = wd_out s @ [wd_order s ! length (wd_out s)]"
proof -
  let ?c = "wd_chan s" and ?T = "length (wd_out s)"
  have inv: "mpsc_conc_inv s"
    using mpsc_run_inv [OF mpsc_world_init_inv [OF assms(1)] assms(2,3)] .
  then have ring: "ring_inv (wd_order s) ?T (ms_slots ?c) (wd_spc s) (wd_cpc s) (wd_sent s)"
    and ht: "unat (ms_head ?c) = length (wd_order s)" "unat (ms_tail ?c) = ?T"
    by (simp_all add: mpsc_conc_inv_def)
  from ring assms(5) have "?T < length (wd_order s)" by (auto simp: ring_inv_def)
  with ht have lt: "\<not> ms_head ?c \<le> ms_tail ?c" by (simp add: word_le_nat_alt)
  from ring_inv_sent [OF ring assms(5)] assms(4) ht
  have slot: "ms_slots ?c ! mpsc_idx ?c (ms_tail ?c) = Some (wd_order s ! ?T)"
    by (simp add: mpsc_conc_idx [OF inv] slot_at_def)
  have 5: "replicate 5 CStep = [CStep, CStep, CStep, CStep, CStep]" by (simp add: eval_nat_numeral)
  show ?thesis unfolding 5 using assms(4) lt slot
    by (simp add: mpsc_cstep_def Let_def mpsc_idx_def)
qed

theorem mpsc_recv_progress_witness:
  "\<exists>s s' :: (nat, nat) mpsc_world. mpsc_run
       [PSend 0 10, PStep 0 False, PStep 0 False, PStep 0 False, PStep 0 False, PSend 1 11,
        PStep 1 False, PStep 1 False, PStep 1 False] (mpsc_world_init (2 ^ 1)) = Some s \<and>
     wd_sent s = [0] \<and> wd_order s = [10, 11] \<and>
     mpsc_run (replicate 5 CStep) s = Some s' \<and> wd_out s' = [10]"
proof -
  let ?as = "[PSend 0 (10::nat), PStep 0 False, PStep 0 False, PStep 0 False, PStep 0 False, PSend 1 11,
        PStep 1 False, PStep 1 False, PStep 1 False]"
  define res where "res = mpsc_run ?as (mpsc_world_init (2 ^ 1) :: (nat, nat) mpsc_world)"
  have "map_option wd_order res = Some [10, 11] \<and> map_option wd_sent res = Some [0] \<and>
    map_option wd_out res = Some [] \<and> map_option (\<lambda>s. wd_cpc s = CTail) res = Some True"
    unfolding res_def by code_simp
  then obtain s where s: "res = Some s" "wd_order s = [10, 11]" "wd_sent s = [0]" "wd_out s = []"
    "wd_cpc s = CTail" by auto
  from mpsc_recv_progress [of 1 ?as s] s obtain s' where
    "mpsc_run (replicate 5 CStep) s = Some s'" "wd_out s' = [10]"
    by (auto simp: res_def simp del: mpsc_run.simps)
  with s show ?thesis by (auto simp: res_def simp del: mpsc_run.simps)
qed


text \<open>
  C28. The one-call-at-a-time model of the send is the concurrent one run without
  interruption: a send that starts from an idle producer and is not interleaved leaves the
  channel that \<open>xtc_chan_mpsc_try_send\<close> computes, and reserves a slot exactly when that
  returns \<open>XTC_OK\<close>.
\<close>

theorem mpsc_send_solo:
  fixes s :: "('a, 'w) mpsc_world"
  assumes "wd_spc s t = SIdle"
    and "xtc_chan_mpsc_try_send False (Some (wd_chan s)) None (Some m) = (e, Some c, r, ws)"
  shows "\<exists>n s'. mpsc_run (PSend t m # replicate n (PStep t False)) s = Some s' \<and> wd_chan s' = c \<and>
    wd_spc s' t = SIdle \<and> wd_order s' = (if e = XTC_OK then wd_order s @ [m] else wd_order s)"
proof (cases "ms_closed (wd_chan s) \<or> ms_cap (wd_chan s) \<le> ms_head (wd_chan s) - ms_tail (wd_chan s)")
  case True
  have "mpsc_run (PSend t m # replicate (if ms_closed (wd_chan s) then 0 else 2) (PStep t False)) s =
      Some (if ms_closed (wd_chan s) then s else set_spc (set_spc (set_spc s t (SHead m)) t
        (STail m (ms_head (wd_chan s)))) t SIdle)"
    using assms(1) True by (auto simp: eval_nat_numeral mpsc_pstep_def set_spc_def Let_def)
  with assms True show ?thesis
    by (intro exI conjI) (assumption, auto simp: set_spc_def split: if_splits)
next
  case False
  have "\<exists>s'. mpsc_run (PSend t m # replicate 4 (PStep t False)) s = Some s' \<and> wd_chan s' = c \<and>
    wd_spc s' t = SIdle \<and> wd_order s' = (if e = XTC_OK then wd_order s @ [m] else wd_order s)"
    using assms False
    by (auto simp: eval_nat_numeral mpsc_pstep_def set_spc_def Let_def mpsc_idx_def)
  then show ?thesis by blast
qed

theorem mpsc_send_solo_witness:
  "\<exists>c r n s'. xtc_chan_mpsc_try_send False (Some (wd_chan (mpsc_world_init 2 :: (nat, nat) mpsc_world)))
       None (Some 7) = (XTC_OK, Some c, r, []) \<and>
     mpsc_run (PSend 3 7 # replicate n (PStep 3 False)) (mpsc_world_init 2) = Some s' \<and>
     wd_chan s' = c \<and> wd_order s' = [7]"
proof -
  obtain c r where c: "xtc_chan_mpsc_try_send False
      (Some (wd_chan (mpsc_world_init 2 :: (nat, nat) mpsc_world))) None (Some 7) =
      (XTC_OK, Some c, r, [])"
    by (simp add: mpsc_world_init_def mpsc_fresh_def)
  from mpsc_send_solo [OF _ c, of 3] c show ?thesis
    by (fastforce simp: mpsc_world_init_def simp del: mpsc_run.simps xtc_chan_mpsc_try_send.simps)
qed

end
