(* ===== verification/Chan_Mpmc.thy ===== *)
theory Chan_Mpmc
  imports Bounded_Fifo
begin

text \<open>
  The mutex-protected multi-producer multi-consumer channel of \<open>src/src/ptc/chan.c\<close>.
  Every operation is one critical section, so it is a function from the state before to
  the state after. Messages are pointers: \<open>None\<close> is \<open>NULL\<close>. The \<open>spur\<close> argument is the
  outcome of the simulator's \<open>chan.mpmc.spurious_full\<close> fault, the \<open>rc1\<close> and \<open>rc2\<close>
  arguments are the results of the two allocations. The bug the build can plant for the
  simulator's own tests (\<open>XTC_DST_BUG_CHANDROP\<close>) is off.
\<close>

section \<open>State and operations\<close>

record 'a chan_mpmc =
  mm_cap :: nat
  mm_slots :: "'a option list"
  mm_head :: nat
  mm_tail :: nat
  mm_n :: nat
  mm_closed :: bool

definition mpmc_fresh :: "nat \<Rightarrow> 'a chan_mpmc" where
  "mpmc_fresh cap = \<lparr>mm_cap = cap, mm_slots = replicate cap None, mm_head = 0, mm_tail = 0,
     mm_n = 0, mm_closed = False\<rparr>"

definition xtc_chan_mpmc_create ::
  "xtc_err \<Rightarrow> xtc_err \<Rightarrow> xtc_res option \<Rightarrow> nat \<Rightarrow> bool \<Rightarrow>
   xtc_err \<times> 'a chan_mpmc option \<times> xtc_res option" where
  "xtc_chan_mpmc_create rc1 rc2 r cap has_out =
     (if \<not> has_out \<or> cap = 0 then (XTC_E_INVAL, None, r)
      else case chan_charge r XTC_RES_CHANNELS 1 of (rc, r1) \<Rightarrow>
        if rc \<noteq> XTC_OK then (rc, None, r1)
        else if rc1 \<noteq> XTC_OK then (rc1, None, chan_refund r1 XTC_RES_CHANNELS 1)
        else if rc2 \<noteq> XTC_OK then (rc2, None, chan_refund r1 XTC_RES_CHANNELS 1)
        else (XTC_OK, Some (mpmc_fresh cap), r1))"

fun xtc_chan_mpmc_destroy :: "'a chan_mpmc option \<Rightarrow> xtc_res option \<Rightarrow> xtc_res option" where
  "xtc_chan_mpmc_destroy None r = r"
| "xtc_chan_mpmc_destroy (Some c) r =
     chan_refund (chan_refund r XTC_RES_CHAN_SLOTS (int (mm_n c))) XTC_RES_CHANNELS 1"

fun xtc_chan_mpmc_try_send ::
  "bool \<Rightarrow> 'a chan_mpmc option \<Rightarrow> xtc_res option \<Rightarrow> 'a option \<Rightarrow>
   xtc_err \<times> 'a chan_mpmc option \<times> xtc_res option" where
  "xtc_chan_mpmc_try_send spur None r msg = (XTC_E_INVAL, None, r)"
| "xtc_chan_mpmc_try_send spur (Some c) r None = (XTC_E_INVAL, Some c, r)"
| "xtc_chan_mpmc_try_send spur (Some c) r (Some m) =
     (case chan_charge r XTC_RES_CHAN_SLOTS 1 of (rc, r1) \<Rightarrow>
        if rc \<noteq> XTC_OK then (rc, Some c, r1)
        else if mm_closed c then (XTC_E_INVAL, Some c, chan_refund r1 XTC_RES_CHAN_SLOTS 1)
        else if mm_n c \<ge> mm_cap c \<or> spur then
          (XTC_E_AGAIN, Some c, chan_refund r1 XTC_RES_CHAN_SLOTS 1)
        else (XTC_OK, Some (c\<lparr>mm_slots := (mm_slots c)[mm_head c := Some m],
               mm_head := (mm_head c + 1) mod mm_cap c, mm_n := mm_n c + 1\<rparr>), r1))"

text \<open>The second component is what the call stored through \<open>out\<close>, \<open>None\<close> where it stored nothing.\<close>

fun xtc_chan_mpmc_try_recv ::
  "'a chan_mpmc option \<Rightarrow> xtc_res option \<Rightarrow> bool \<Rightarrow>
   xtc_err \<times> 'a option \<times> 'a chan_mpmc option \<times> xtc_res option" where
  "xtc_chan_mpmc_try_recv None r has_out = (XTC_E_INVAL, None, None, r)"
| "xtc_chan_mpmc_try_recv (Some c) r has_out =
     (if \<not> has_out then (XTC_E_INVAL, None, Some c, r)
      else if mm_n c > 0 then
        (XTC_OK, mm_slots c ! mm_tail c,
         Some (c\<lparr>mm_tail := (mm_tail c + 1) mod mm_cap c, mm_n := mm_n c - 1\<rparr>),
         chan_refund r XTC_RES_CHAN_SLOTS 1)
      else if mm_closed c then (XTC_E_INVAL, None, Some c, r)
      else (XTC_E_AGAIN, None, Some c, r))"

fun xtc_chan_mpmc_close :: "'a chan_mpmc option \<Rightarrow> xtc_err \<times> 'a chan_mpmc option" where
  "xtc_chan_mpmc_close None = (XTC_E_INVAL, None)"
| "xtc_chan_mpmc_close (Some c) = (XTC_OK, Some (c\<lparr>mm_closed := True\<rparr>))"

fun xtc_chan_mpmc_len :: "'a chan_mpmc option \<Rightarrow> nat" where
  "xtc_chan_mpmc_len None = 0"
| "xtc_chan_mpmc_len (Some c) = mm_n c"

section \<open>Invariant\<close>

definition mpmc_inv :: "'a chan_mpmc \<Rightarrow> bool" where
  "mpmc_inv c = (0 < mm_cap c \<and> length (mm_slots c) = mm_cap c \<and> mm_n c \<le> mm_cap c \<and>
     mm_tail c < mm_cap c \<and> mm_head c = (mm_tail c + mm_n c) mod mm_cap c)"

definition mpmc_cont :: "'a chan_mpmc \<Rightarrow> 'a option list" where
  "mpmc_cont c = ring_list (mm_slots c) (mm_tail c) (mm_n c)"

text \<open>The channel with its accountant, as one state: what it holds of the slots is \<open>mm_n\<close>.\<close>

type_synonym 'a mpmc_st = "'a chan_mpmc \<times> xtc_res option"

definition mpmc_ok :: "(int \<Rightarrow> int) \<Rightarrow> 'a mpmc_st \<Rightarrow> bool" where
  "mpmc_ok base s = (mpmc_inv (fst s) \<and> buffered base (snd s) (mm_n (fst s)))"

definition mpmc_send :: "bool \<Rightarrow> 'a mpmc_st \<Rightarrow> 'a option \<Rightarrow> xtc_err \<times> 'a mpmc_st" where
  "mpmc_send spur s x = (case xtc_chan_mpmc_try_send spur (Some (fst s)) (snd s) x of
     (e, c, r) \<Rightarrow> (e, the c, r))"

definition mpmc_recv :: "'a mpmc_st \<Rightarrow> xtc_err \<times> 'a option \<times> 'a mpmc_st" where
  "mpmc_recv s = (case xtc_chan_mpmc_try_recv (Some (fst s)) (snd s) True of
     (e, y, c, r) \<Rightarrow> (e, y, the c, r))"

definition mpmc_msgs :: "'a mpmc_st \<Rightarrow> 'a option list" where
  "mpmc_msgs s = mpmc_cont (fst s)"

definition mpmc_capacity :: "'a mpmc_st \<Rightarrow> nat" where
  "mpmc_capacity s = mm_cap (fst s)"

lemma length_mpmc_cont [simp]: "length (mpmc_cont c) = mm_n c"
  by (simp add: mpmc_cont_def)

lemma mpmc_fresh_inv [simp]: "0 < cap \<Longrightarrow> mpmc_inv (mpmc_fresh cap)" "mpmc_cont (mpmc_fresh cap) = []"
  by (simp_all add: mpmc_inv_def mpmc_fresh_def mpmc_cont_def)

lemma mpmc_enqueue:
  fixes x :: "'a option"
  assumes "mpmc_inv c" "mm_n c < mm_cap c"
  defines "d \<equiv> c\<lparr>mm_slots := (mm_slots c)[mm_head c := x],
    mm_head := (mm_head c + 1) mod mm_cap c, mm_n := mm_n c + 1\<rparr>"
  shows "mpmc_inv d" "mpmc_cont d = mpmc_cont c @ [x]"
  using assms ring_list_enqueue [of "mm_n c" "mm_slots c" "mm_tail c" x]
  by (simp_all add: mpmc_inv_def mpmc_cont_def mod_Suc_eq)

lemma mpmc_dequeue:
  assumes "mpmc_inv c" "0 < mm_n c"
  defines "d \<equiv> c\<lparr>mm_tail := (mm_tail c + 1) mod mm_cap c, mm_n := mm_n c - 1\<rparr>"
  shows "mpmc_inv d" "mpmc_cont c = (mm_slots c ! mm_tail c) # mpmc_cont d"
  using assms ring_list_dequeue [of "mm_n c" "mm_slots c" "mm_tail c"]
  by (auto simp: mpmc_inv_def mpmc_cont_def ring_end_dequeue)

lemma mpmc_send_cases:
  assumes "mpmc_ok base s" "mpmc_send spur s x = (e, t)"
  shows "mpmc_ok base t \<and> mm_cap (fst t) = mm_cap (fst s) \<and>
    mpmc_cont (fst t) = (if e = XTC_OK then mpmc_cont (fst s) @ [x] else mpmc_cont (fst s))"
proof (cases x)
  case None
  with assms show ?thesis by (auto simp: mpmc_send_def)
next
  case (Some m)
  obtain rc r1 where c: "chan_charge (snd s) XTC_RES_CHAN_SLOTS 1 = (rc, r1)" by fastforce
  from assms(1) have inv: "mpmc_inv (fst s)" and b: "buffered base (snd s) (mm_n (fst s))"
    by (simp_all add: mpmc_ok_def)
  show ?thesis
  proof (cases "rc = XTC_OK \<and> \<not> mm_closed (fst s) \<and> mm_n (fst s) < mm_cap (fst s) \<and> \<not> spur")
    case True
    with mpmc_enqueue [OF inv, of x] buffered_charge [OF b c] assms(2) Some c show ?thesis
      by (auto simp: mpmc_send_def mpmc_ok_def)
  next
    case False
    with assms(2) Some c have "fst t = fst s" "e \<noteq> XTC_OK"
      "snd t = (if rc = XTC_OK then chan_refund r1 XTC_RES_CHAN_SLOTS 1 else r1)"
      by (auto simp: mpmc_send_def split: if_splits)
    with buffered_charge [OF b c] buffered_charge_refund [OF b, of r1] c inv show ?thesis
      by (auto simp: mpmc_ok_def)
  qed
qed

lemma mpmc_recv_cases:
  assumes "mpmc_ok base s" "mpmc_recv s = (e, y, t)"
  shows "mpmc_ok base t \<and> mm_cap (fst t) = mm_cap (fst s) \<and>
    (if e = XTC_OK then mpmc_cont (fst s) = y # mpmc_cont (fst t)
     else mpmc_cont (fst t) = mpmc_cont (fst s))"
  using assms mpmc_dequeue [of "fst s"] buffered_refund1 [of base "snd s" "mm_n (fst s)"]
  by (auto simp: mpmc_recv_def mpmc_ok_def split: if_splits)

lemma mpmc_send_full:
  "mm_n (fst s) = mm_cap (fst s) \<Longrightarrow> fst (mpmc_send spur s x) \<noteq> XTC_OK"
  by (cases x) (auto simp: mpmc_send_def split: prod.splits)

lemma mpmc_bounded_fifo: "bounded_fifo mpmc_msgs mpmc_capacity (\<lambda>_. mpmc_ok base) mpmc_send mpmc_recv"
proof (rule bounded_fifoI; unfold mpmc_msgs_def mpmc_capacity_def)
  fix s :: "'a mpmc_st" and spur x
  assume ok: "mpmc_ok base s"
  show "length (mpmc_cont (fst s)) \<le> mm_cap (fst s)"
    using ok by (simp add: mpmc_ok_def mpmc_inv_def)
  show "length (mpmc_cont (fst s)) = mm_cap (fst s) \<Longrightarrow> fst (mpmc_send spur s x) \<noteq> XTC_OK"
    using mpmc_send_full by simp
  show "mpmc_cont (fst s) \<noteq> [] \<Longrightarrow> fst (mpmc_recv s) = XTC_OK"
    by (simp add: mpmc_recv_def mpmc_cont_def)
qed (rule mpmc_send_cases mpmc_recv_cases; assumption)+

interpretation mpmc: bounded_fifo mpmc_msgs mpmc_capacity "\<lambda>_. mpmc_ok base" mpmc_send mpmc_recv
  for base :: "int \<Rightarrow> int"
  by (rule mpmc_bounded_fifo)

section \<open>Properties\<close>

lemma mpmc_create_ok:
  assumes "holds r f" "xtc_chan_mpmc_create rc1 rc2 r cap has_out = (XTC_OK, Some c, r1)"
  shows "mpmc_ok (f(1 := f 1 + 1)) (c, r1) \<and> c = mpmc_fresh cap \<and> 0 < cap"
  using assms buffered_create [OF assms(1), of r1]
  by (auto simp: xtc_chan_mpmc_create_def mpmc_ok_def mpmc_fresh_def mpmc_inv_def
      split: if_splits prod.splits)

text \<open>
  C8. The life of an mpmc channel. From a successful create, through any sequence of
  sends and receives, to the destroy: the messages delivered, followed by those still
  buffered, are exactly the messages accepted, in the order they were accepted; the buffer
  never holds more than the capacity; and after the destroy the accountant has every unit
  back that the channel took, of both kinds.
\<close>

theorem mpmc_lifecycle:
  assumes "holds r f"
    and "xtc_chan_mpmc_create rc1 rc2 r cap has_out = (XTC_OK, Some c, r1)"
    and "fifo_run mpmc_send mpmc_recv (c, r1) ops = (ins, outs, d, r2)"
  shows "ins = outs @ mpmc_cont d \<and> xtc_chan_mpmc_len (Some d) \<le> cap \<and>
    holds (xtc_chan_mpmc_destroy (Some d) r2) f"
proof -
  from mpmc_create_ok [OF assms(1,2)]
  have ok: "mpmc_ok (f(1 := f 1 + 1)) (c, r1)" and c: "c = mpmc_fresh cap" by auto
  from mpmc.fifo [OF ok assms(3)] c have
    "ins = outs @ mpmc_cont d" "mpmc_ok (f(1 := f 1 + 1)) (d, r2)" "mm_cap d = cap"
    by (simp_all add: mpmc_msgs_def mpmc_capacity_def mpmc_fresh_def mpmc_cont_def)
  with buffered_destroy [of f r2 "mm_n d" r "mm_n d"] assms(1) show ?thesis
    by (auto simp: mpmc_ok_def mpmc_inv_def intro: buffered_holds)
qed

theorem mpmc_lifecycle_witness:
  "\<exists>c r1 d r2. xtc_chan_mpmc_create XTC_OK XTC_OK (Some res_sample) 2 True = (XTC_OK, Some c, r1) \<and>
     fifo_run mpmc_send mpmc_recv (c, r1)
       [Send False (Some (7::nat)), Send False (Some 8), Send False (Some 9), Recv] =
       ([Some 7, Some 8], [Some 7], d, r2) \<and>
     [Some 7, Some 8] = [Some 7] @ mpmc_cont d \<and> xtc_chan_mpmc_len (Some d) \<le> 2 \<and>
     holds (xtc_chan_mpmc_destroy (Some d) r2) (\<lambda>_. 0)"
proof -
  let ?ops = "[Send False (Some (7::nat)), Send False (Some 8), Send False (Some 9), Recv]"
  define cr :: "xtc_err \<times> nat chan_mpmc option \<times> xtc_res option" where
    "cr = xtc_chan_mpmc_create XTC_OK XTC_OK (Some res_sample) 2 True"
  define t where "t = fifo_run mpmc_send mpmc_recv (the (fst (snd cr)), snd (snd cr)) ?ops"
  have "fst cr = XTC_OK" "fst (snd cr) \<noteq> None" unfolding cr_def by code_simp+
  then have c: "xtc_chan_mpmc_create XTC_OK XTC_OK (Some res_sample) 2 True =
      (XTC_OK, Some (the (fst (snd cr))), snd (snd cr))"
    by (simp add: cr_def [symmetric] prod_eq_iff)
  have "fst t = [Some 7, Some 8] \<and> fst (snd t) = [Some 7]"
    unfolding t_def cr_def by code_simp
  then have d: "fifo_run mpmc_send mpmc_recv (the (fst (snd cr)), snd (snd cr)) ?ops =
      ([Some 7, Some 8], [Some 7], fst (snd (snd t)), snd (snd (snd t)))"
    by (simp add: t_def prod_eq_iff)
  from mpmc_lifecycle [OF holds_sample c d] c d show ?thesis by blast
qed

lemma mpmc_op_closed:
  "mpmc_send spur s x = (e, t) \<Longrightarrow> mm_closed (fst t) = mm_closed (fst s)"
  "mpmc_recv s = (e, y, t) \<Longrightarrow> mm_closed (fst t) = mm_closed (fst s)"
  by (cases x) (auto simp: mpmc_send_def mpmc_recv_def split: prod.splits if_splits)

lemma mpmc_run_closed:
  "fifo_run mpmc_send mpmc_recv s ops = (ins, outs, t) \<Longrightarrow> mm_closed (fst t) = mm_closed (fst s)"
proof (induction ops arbitrary: s ins outs)
  case (Cons op ops)
  then show ?case
    by (cases op) (fastforce dest: mpmc_op_closed split: prod.splits)+
qed simp

text \<open>
  C30. Closing an mpmc channel. A closed channel accepts no message, still delivers every
  message buffered before the close, in order, and then reports \<open>XTC_E_INVAL\<close>.
\<close>

theorem mpmc_close_drains:
  assumes "mpmc_ok base (c, r)" "xtc_chan_mpmc_close (Some c) = (e, Some c')"
    and "fifo_run mpmc_send mpmc_recv (c', r) (replicate (mm_n c) Recv) = (ins, outs, d, r2)"
  shows "fst (mpmc_send spur (c', r) x) \<noteq> XTC_OK \<and> outs = mpmc_cont c \<and>
    fst (xtc_chan_mpmc_try_recv (Some d) r2 True) = XTC_E_INVAL"
proof -
  from assms(2) have c': "c' = c\<lparr>mm_closed := True\<rparr>" by simp
  with assms(1) have ok: "mpmc_ok base (c', r)" by (simp add: mpmc_ok_def mpmc_inv_def)
  from c' have msgs: "mpmc_msgs (c', r) = mpmc_cont c" "mm_n c' = mm_n c"
    by (simp_all add: mpmc_msgs_def mpmc_cont_def)
  from mpmc.drain [OF ok, of ins outs "(d, r2)"] assms(3) msgs
  have out: "outs = mpmc_cont c" "mm_n d = 0"
    by (simp_all add: mpmc_msgs_def mpmc_cont_def)
  from mpmc_run_closed [OF assms(3)] c' have "mm_closed d" by simp
  moreover have "fst (mpmc_send spur (c', r) x) \<noteq> XTC_OK"
    using c' by (cases x) (auto simp: mpmc_send_def split: prod.splits)
  ultimately show ?thesis using out by simp
qed

theorem mpmc_close_drains_witness:
  "\<exists>c d r2. mpmc_ok (\<lambda>_. 0) (c, None) \<and> mpmc_cont c = [Some (5::nat)] \<and>
     fifo_run mpmc_send mpmc_recv (c\<lparr>mm_closed := True\<rparr>, None) (replicate (mm_n c) Recv) =
       ([], [Some 5], d, r2) \<and>
     fst (mpmc_send False (c\<lparr>mm_closed := True\<rparr>, None) (Some 6)) \<noteq> XTC_OK \<and>
     fst (xtc_chan_mpmc_try_recv (Some d) r2 True) = XTC_E_INVAL"
proof -
  define c where "c = (mpmc_fresh 3 :: nat chan_mpmc)
    \<lparr>mm_slots := [Some 5, None, None], mm_head := 1, mm_n := 1\<rparr>"
  have ok: "mpmc_ok (\<lambda>_. 0) (c, None)"
    by (simp add: mpmc_ok_def mpmc_inv_def c_def mpmc_fresh_def buffered_def holds_def)
  have cont: "mpmc_cont c = [Some 5]" unfolding c_def by code_simp
  have run: "fifo_run mpmc_send mpmc_recv (c\<lparr>mm_closed := True\<rparr>, None) (replicate (mm_n c) Recv) =
      ([], [Some 5], c\<lparr>mm_closed := True, mm_tail := 1, mm_n := 0\<rparr>, None)"
    by (simp add: c_def mpmc_fresh_def mpmc_recv_def)
  from mpmc_close_drains [OF ok _ run, of XTC_OK False "Some 6"] cont run ok show ?thesis
    by fastforce
qed

end
