(* ===== verification/Chan_Demand.thy ===== *)
theory Chan_Demand
  imports Bounded_Fifo
begin

text \<open>
  The demand channel of \<open>src/src/ptc/chan.c\<close>: a bounded channel on which the producer may
  send only what the consumer asked for. The outstanding demand is a \<open>size_t\<close> and wraps,
  so it is a 64-bit word. The \<open>has_..._waker\<close> flag and the waker it guards are one
  \<open>option\<close>. Each operation also returns the wakers it fires, in order.
\<close>

section \<open>State and operations\<close>

record ('a, 'w) chan_demand =
  dm_slots :: "'a option list"
  dm_cap :: nat
  dm_head :: nat
  dm_tail :: nat
  dm_n :: nat
  dm_demand :: "64 word"
  dm_closed :: bool
  dm_prod_waker :: "'w option"
  dm_cons_waker :: "'w option"

definition demand_fresh :: "nat \<Rightarrow> ('a, 'w) chan_demand" where
  "demand_fresh cap = \<lparr>dm_slots = replicate cap None, dm_cap = cap, dm_head = 0, dm_tail = 0,
     dm_n = 0, dm_demand = 0, dm_closed = False, dm_prod_waker = None, dm_cons_waker = None\<rparr>"

definition xtc_chan_demand_create ::
  "xtc_err \<Rightarrow> xtc_err \<Rightarrow> xtc_res option \<Rightarrow> nat \<Rightarrow> bool \<Rightarrow>
   xtc_err \<times> ('a, 'w) chan_demand option \<times> xtc_res option" where
  "xtc_chan_demand_create rc1 rc2 r cap has_out =
     (if \<not> has_out \<or> cap = 0 then (XTC_E_INVAL, None, r)
      else case chan_charge r XTC_RES_CHANNELS 1 of (rc, r1) \<Rightarrow>
        if rc \<noteq> XTC_OK then (rc, None, r1)
        else if rc1 \<noteq> XTC_OK then (rc1, None, chan_refund r1 XTC_RES_CHANNELS 1)
        else if rc2 \<noteq> XTC_OK then (rc2, None, chan_refund r1 XTC_RES_CHANNELS 1)
        else (XTC_OK, Some (demand_fresh cap), r1))"

fun xtc_chan_demand_destroy ::
  "('a, 'w) chan_demand option \<Rightarrow> xtc_res option \<Rightarrow> xtc_res option" where
  "xtc_chan_demand_destroy None r = r"
| "xtc_chan_demand_destroy (Some c) r = chan_refund r XTC_RES_CHANNELS 1"

fun xtc_chan_demand_ask ::
  "('a, 'w) chan_demand option \<Rightarrow> 64 word \<Rightarrow>
   xtc_err \<times> ('a, 'w) chan_demand option \<times> 'w list" where
  "xtc_chan_demand_ask None n = (XTC_E_INVAL, None, [])"
| "xtc_chan_demand_ask (Some c) n =
     (if n = 0 then (XTC_OK, Some c, [])
      else if dm_closed c then (XTC_E_INVAL, Some c, [])
      else (XTC_OK, Some (c\<lparr>dm_demand := dm_demand c + n\<rparr>),
            case dm_prod_waker c of None \<Rightarrow> [] | Some w \<Rightarrow> [w]))"

fun xtc_chan_demand_send ::
  "('a, 'w) chan_demand option \<Rightarrow> xtc_res option \<Rightarrow> 'a option \<Rightarrow>
   xtc_err \<times> ('a, 'w) chan_demand option \<times> xtc_res option \<times> 'w list" where
  "xtc_chan_demand_send None r msg = (XTC_E_INVAL, None, r, [])"
| "xtc_chan_demand_send (Some c) r msg =
     (if dm_closed c then (XTC_E_INVAL, Some c, r, [])
      else if dm_demand c = 0 \<or> dm_n c = dm_cap c then (XTC_E_AGAIN, Some c, r, [])
      else case chan_charge r XTC_RES_CHAN_SLOTS 1 of (rc, r1) \<Rightarrow>
        if rc \<noteq> XTC_OK then (rc, Some c, r1, [])
        else (XTC_OK, Some (c\<lparr>dm_slots := (dm_slots c)[dm_tail c := msg],
               dm_tail := (dm_tail c + 1) mod dm_cap c, dm_n := dm_n c + 1,
               dm_demand := dm_demand c - 1\<rparr>), r1,
              case dm_cons_waker c of None \<Rightarrow> [] | Some w \<Rightarrow> [w]))"

fun xtc_chan_demand_try_recv ::
  "('a, 'w) chan_demand option \<Rightarrow> xtc_res option \<Rightarrow> bool \<Rightarrow>
   xtc_err \<times> 'a option \<times> ('a, 'w) chan_demand option \<times> xtc_res option" where
  "xtc_chan_demand_try_recv None r has_out = (XTC_E_INVAL, None, None, r)"
| "xtc_chan_demand_try_recv (Some c) r has_out =
     (if \<not> has_out then (XTC_E_INVAL, None, Some c, r)
      else if dm_n c = 0 then
        (if dm_closed c then XTC_E_INVAL else XTC_E_AGAIN, None, Some c, r)
      else (XTC_OK, dm_slots c ! dm_head c,
            Some (c\<lparr>dm_head := (dm_head c + 1) mod dm_cap c, dm_n := dm_n c - 1\<rparr>),
            chan_refund r XTC_RES_CHAN_SLOTS 1))"

fun xtc_chan_demand_outstanding :: "('a, 'w) chan_demand option \<Rightarrow> 64 word" where
  "xtc_chan_demand_outstanding None = 0"
| "xtc_chan_demand_outstanding (Some c) = dm_demand c"

fun xtc_chan_demand_len :: "('a, 'w) chan_demand option \<Rightarrow> nat" where
  "xtc_chan_demand_len None = 0"
| "xtc_chan_demand_len (Some c) = dm_n c"

fun xtc_chan_demand_set_producer_waker ::
  "('a, 'w) chan_demand option \<Rightarrow> 'w option \<Rightarrow>
   xtc_err \<times> ('a, 'w) chan_demand option \<times> 'w list" where
  "xtc_chan_demand_set_producer_waker (Some c) (Some w) =
     (XTC_OK, Some (c\<lparr>dm_prod_waker := Some w\<rparr>), if dm_demand c > 0 then [w] else [])"
| "xtc_chan_demand_set_producer_waker c w = (XTC_E_INVAL, c, [])"

fun xtc_chan_demand_set_consumer_waker ::
  "('a, 'w) chan_demand option \<Rightarrow> 'w option \<Rightarrow>
   xtc_err \<times> ('a, 'w) chan_demand option \<times> 'w list" where
  "xtc_chan_demand_set_consumer_waker (Some c) (Some w) =
     (XTC_OK, Some (c\<lparr>dm_cons_waker := Some w\<rparr>), if dm_n c > 0 then [w] else [])"
| "xtc_chan_demand_set_consumer_waker c w = (XTC_E_INVAL, c, [])"

fun xtc_chan_demand_close ::
  "('a, 'w) chan_demand option \<Rightarrow> xtc_err \<times> ('a, 'w) chan_demand option \<times> 'w list" where
  "xtc_chan_demand_close None = (XTC_E_INVAL, None, [])"
| "xtc_chan_demand_close (Some c) =
     (XTC_OK, Some (c\<lparr>dm_closed := True\<rparr>),
      case dm_cons_waker c of None \<Rightarrow> [] | Some w \<Rightarrow> [w])"

section \<open>Invariant and the queue contract\<close>

definition demand_inv :: "('a, 'w) chan_demand \<Rightarrow> bool" where
  "demand_inv c = (0 < dm_cap c \<and> length (dm_slots c) = dm_cap c \<and> dm_n c \<le> dm_cap c \<and>
     dm_head c < dm_cap c \<and> dm_tail c = (dm_head c + dm_n c) mod dm_cap c)"

definition demand_cont :: "('a, 'w) chan_demand \<Rightarrow> 'a option list" where
  "demand_cont c = ring_list (dm_slots c) (dm_head c) (dm_n c)"

type_synonym ('a, 'w) demand_st = "('a, 'w) chan_demand \<times> xtc_res option"

definition demand_msgs :: "('a, 'w) demand_st \<Rightarrow> 'a option list" where
  "demand_msgs s = demand_cont (fst s)"

definition demand_capacity :: "('a, 'w) demand_st \<Rightarrow> nat" where
  "demand_capacity s = dm_cap (fst s)"

definition demand_ok :: "(int \<Rightarrow> int) \<Rightarrow> ('a, 'w) demand_st \<Rightarrow> bool" where
  "demand_ok base s = (demand_inv (fst s) \<and> buffered base (snd s) (dm_n (fst s)))"

definition demand_send ::
  "bool \<Rightarrow> ('a, 'w) demand_st \<Rightarrow> 'a option \<Rightarrow> xtc_err \<times> ('a, 'w) demand_st" where
  "demand_send spur s x = (case xtc_chan_demand_send (Some (fst s)) (snd s) x of
     (e, c, r, ws) \<Rightarrow> (e, the c, r))"

definition demand_recv :: "('a, 'w) demand_st \<Rightarrow> xtc_err \<times> 'a option \<times> ('a, 'w) demand_st" where
  "demand_recv s = (case xtc_chan_demand_try_recv (Some (fst s)) (snd s) True of
     (e, y, c, r) \<Rightarrow> (e, y, the c, r))"

lemma length_demand_cont [simp]: "length (demand_cont c) = dm_n c"
  by (simp add: demand_cont_def)

lemma demand_fresh_inv [simp]:
  "0 < cap \<Longrightarrow> demand_inv (demand_fresh cap)" "demand_cont (demand_fresh cap) = []"
  by (simp_all add: demand_inv_def demand_fresh_def demand_cont_def)

lemma demand_enqueue:
  fixes x :: "'a option"
  assumes "demand_inv c" "dm_n c \<noteq> dm_cap c"
  defines "d \<equiv> c\<lparr>dm_slots := (dm_slots c)[dm_tail c := x],
    dm_tail := (dm_tail c + 1) mod dm_cap c, dm_n := dm_n c + 1, dm_demand := dm_demand c - 1\<rparr>"
  shows "demand_inv d" "demand_cont d = demand_cont c @ [x]"
  using assms ring_list_enqueue [of "dm_n c" "dm_slots c" "dm_head c" x]
  by (simp_all add: demand_inv_def demand_cont_def mod_Suc_eq)

lemma demand_dequeue:
  assumes "demand_inv c" "0 < dm_n c"
  defines "d \<equiv> c\<lparr>dm_head := (dm_head c + 1) mod dm_cap c, dm_n := dm_n c - 1\<rparr>"
  shows "demand_inv d" "demand_cont c = (dm_slots c ! dm_head c) # demand_cont d"
  using assms ring_list_dequeue [of "dm_n c" "dm_slots c" "dm_head c"]
  by (auto simp: demand_inv_def demand_cont_def ring_end_dequeue)

lemma demand_send_cases:
  assumes "demand_ok base s" "demand_send spur s x = (e, t)"
  shows "demand_ok base t \<and> dm_cap (fst t) = dm_cap (fst s) \<and>
    demand_cont (fst t) = (if e = XTC_OK then demand_cont (fst s) @ [x] else demand_cont (fst s))"
proof -
  obtain rc r1 where c: "chan_charge (snd s) XTC_RES_CHAN_SLOTS 1 = (rc, r1)" by fastforce
  from assms(1) have inv: "demand_inv (fst s)" and b: "buffered base (snd s) (dm_n (fst s))"
    by (simp_all add: demand_ok_def)
  show ?thesis
  proof (cases "e = XTC_OK")
    case True
    with assms(2) c have "rc = XTC_OK" "dm_n (fst s) \<noteq> dm_cap (fst s)"
      by (auto simp: demand_send_def split: if_splits)
    with True demand_enqueue [OF inv, of x] buffered_charge [OF b c] assms(2) c show ?thesis
      by (auto simp: demand_send_def demand_ok_def split: if_splits)
  next
    case False
    with buffered_charge [OF b c] assms inv c show ?thesis
      by (auto simp: demand_send_def demand_ok_def split: if_splits)
  qed
qed

lemma demand_recv_cases:
  assumes "demand_ok base s" "demand_recv s = (e, y, t)"
  shows "demand_ok base t \<and> dm_cap (fst t) = dm_cap (fst s) \<and>
    (if e = XTC_OK then demand_cont (fst s) = y # demand_cont (fst t)
     else demand_cont (fst t) = demand_cont (fst s))"
  using assms demand_dequeue [of "fst s"] buffered_refund1 [of base "snd s" "dm_n (fst s)"]
  by (auto simp: demand_recv_def demand_ok_def split: if_splits)

lemma demand_bounded_fifo:
  "bounded_fifo demand_msgs demand_capacity (\<lambda>_. demand_ok base) demand_send demand_recv"
proof (rule bounded_fifoI; unfold demand_msgs_def demand_capacity_def)
  fix s :: "('a, 'w) demand_st" and spur x
  assume ok: "demand_ok base s"
  show "length (demand_cont (fst s)) \<le> dm_cap (fst s)"
    using ok by (simp add: demand_ok_def demand_inv_def)
  show "length (demand_cont (fst s)) = dm_cap (fst s) \<Longrightarrow> fst (demand_send spur s x) \<noteq> XTC_OK"
    by (simp add: demand_send_def)
  show "demand_cont (fst s) \<noteq> [] \<Longrightarrow> fst (demand_recv s) = XTC_OK"
    by (simp add: demand_recv_def demand_cont_def)
qed (rule demand_send_cases demand_recv_cases; assumption)+

interpretation demand: bounded_fifo demand_msgs demand_capacity "\<lambda>_. demand_ok base"
  demand_send demand_recv
  for base :: "int \<Rightarrow> int"
  by (rule demand_bounded_fifo)

section \<open>Properties\<close>

text \<open>
  A use of the channel by both sides. The run returns the total the consumer asked for,
  the messages accepted, the messages delivered, and the final state.
\<close>

datatype 'a demand_op = Ask "64 word" | DSend "'a option" | DRecv

definition demand_ask :: "('a, 'w) demand_st \<Rightarrow> 64 word \<Rightarrow> xtc_err \<times> ('a, 'w) demand_st" where
  "demand_ask s n = (case xtc_chan_demand_ask (Some (fst s)) n of (e, c, ws) \<Rightarrow> (e, the c, snd s))"

fun demand_run ::
  "('a, 'w) demand_st \<Rightarrow> 'a demand_op list \<Rightarrow>
   nat \<times> 'a option list \<times> 'a option list \<times> ('a, 'w) demand_st" where
  "demand_run s [] = (0, [], [], s)"
| "demand_run s (Ask n # ops) =
     (case demand_ask s n of (e, t) \<Rightarrow>
       case demand_run t ops of (a, ins, outs, u) \<Rightarrow>
         (if e = XTC_OK then unat n + a else a, ins, outs, u))"
| "demand_run s (DSend x # ops) =
     (case demand_send False s x of (e, t) \<Rightarrow>
       case demand_run t ops of (a, ins, outs, u) \<Rightarrow>
         (a, if e = XTC_OK then x # ins else ins, outs, u))"
| "demand_run s (DRecv # ops) =
     (case demand_recv s of (e, y, t) \<Rightarrow>
       case demand_run t ops of (a, ins, outs, u) \<Rightarrow>
         (a, ins, if e = XTC_OK then y # outs else outs, u))"

lemma demand_ask_cases:
  assumes "demand_ok base s" "demand_ask s n = (e, t)"
  shows "demand_ok base t \<and> demand_msgs t = demand_msgs s \<and> dm_cap (fst t) = dm_cap (fst s) \<and>
    dm_demand (fst t) = (if e = XTC_OK then dm_demand (fst s) + n else dm_demand (fst s))"
  using assms by (auto simp: demand_ask_def demand_ok_def demand_inv_def demand_msgs_def
      demand_cont_def split: if_splits)

lemma demand_send_demand:
  assumes "demand_send spur s x = (e, t)"
  shows "if e = XTC_OK then dm_demand (fst s) \<noteq> 0 \<and> dm_demand (fst t) = dm_demand (fst s) - 1
    else dm_demand (fst t) = dm_demand (fst s)"
  using assms by (auto simp: demand_send_def split: if_splits prod.splits)

lemma demand_recv_demand: "demand_recv s = (e, y, t) \<Longrightarrow> dm_demand (fst t) = dm_demand (fst s)"
  by (auto simp: demand_recv_def split: if_splits)

lemma demand_run_ok:
  assumes "demand_ok base s" "demand_run s ops = (a, ins, outs, t)"
  shows "demand_ok base t \<and> dm_cap (fst t) = dm_cap (fst s) \<and>
    demand_msgs s @ ins = outs @ demand_msgs t \<and>
    (unat (dm_demand (fst s)) + a < 2 ^ 64 \<longrightarrow>
     unat (dm_demand (fst t)) + length ins = unat (dm_demand (fst s)) + a)"
  using assms
proof (induction s ops arbitrary: a ins outs t rule: demand_run.induct)
  case (2 s n ops)
  obtain e u where u: "demand_ask s n = (e, u)" by (metis surj_pair)
  obtain a' ins' outs' t' where r: "demand_run u ops = (a', ins', outs', t')" by (metis prod_cases4)
  from demand_ask_cases [OF 2(2) u] "2.IH" [OF u [symmetric] _ r]
  have ih: "demand_ok base t'" "dm_cap (fst t') = dm_cap (fst s)"
    "demand_msgs s @ ins' = outs' @ demand_msgs t'"
    "unat (dm_demand (fst u)) + a' < 2 ^ 64 \<Longrightarrow>
     unat (dm_demand (fst t')) + length ins' = unat (dm_demand (fst u)) + a'"
    and du: "dm_demand (fst u) = (if e = XTC_OK then dm_demand (fst s) + n else dm_demand (fst s))"
    by auto
  have res: "a = (if e = XTC_OK then unat n + a' else a')" "ins = ins'" "outs = outs'" "t = t'"
    using 2(3) u r by auto
  have "unat (dm_demand (fst u)) = unat (dm_demand (fst s)) + unat n"
    if "e = XTC_OK" "unat (dm_demand (fst s)) + unat n < 2 ^ 64"
    using that du by (simp add: unat_word_ariths(1))
  with ih res du show ?case by (auto split: if_splits)
next
  case (3 s x ops)
  obtain e u where u: "demand_send False s x = (e, u)" by (metis surj_pair)
  obtain a' ins' outs' t' where r: "demand_run u ops = (a', ins', outs', t')" by (metis prod_cases4)
  from demand_send_cases [OF 3(2) u] "3.IH" [OF u [symmetric] _ r]
  have ih: "demand_ok base t'" "dm_cap (fst t') = dm_cap (fst s)"
    "demand_msgs u @ ins' = outs' @ demand_msgs t'"
    "demand_msgs u = (if e = XTC_OK then demand_msgs s @ [x] else demand_msgs s)"
    "unat (dm_demand (fst u)) + a' < 2 ^ 64 \<Longrightarrow>
     unat (dm_demand (fst t')) + length ins' = unat (dm_demand (fst u)) + a'"
    by (auto simp: demand_msgs_def)
  have res: "ins = (if e = XTC_OK then x # ins' else ins')" "a = a'" "outs = outs'" "t = t'"
    using 3(3) u r by auto
  have "e = XTC_OK \<Longrightarrow> Suc (unat (dm_demand (fst u))) = unat (dm_demand (fst s))"
    using demand_send_demand [OF u] by (auto simp: unat_minus_one unat_gt_0)
  with ih res demand_send_demand [OF u] show ?case by (auto split: if_splits)
next
  case (4 s ops)
  obtain e y u where u: "demand_recv s = (e, y, u)" by (metis prod_cases3)
  obtain a' ins' outs' t' where r: "demand_run u ops = (a', ins', outs', t')" by (metis prod_cases4)
  from demand_recv_cases [OF 4(2) u] "4.IH" [OF u [symmetric] refl _ r] demand_recv_demand [OF u]
  have ih: "demand_ok base t'" "dm_cap (fst t') = dm_cap (fst s)"
    "demand_msgs u @ ins' = outs' @ demand_msgs t'"
    "if e = XTC_OK then demand_msgs s = y # demand_msgs u else demand_msgs u = demand_msgs s"
    "unat (dm_demand (fst s)) + a' < 2 ^ 64 \<Longrightarrow>
     unat (dm_demand (fst t')) + length ins' = unat (dm_demand (fst s)) + a'"
    by (auto simp: demand_msgs_def)
  have "ins = ins'" "a = a'" "outs = (if e = XTC_OK then y # outs' else outs')" "t = t'"
    using 4(3) u r by auto
  with ih show ?case by (auto split: if_splits)
qed simp

lemma demand_create_ok:
  assumes "holds r f" "xtc_chan_demand_create rc1 rc2 r cap has_out = (XTC_OK, Some c, r1)"
  shows "demand_ok (f(1 := f 1 + 1)) (c, r1) \<and> c = demand_fresh cap \<and> 0 < cap"
  using assms buffered_create [OF assms(1), of r1]
  by (auto simp: xtc_chan_demand_create_def demand_ok_def demand_fresh_def demand_inv_def
      split: if_splits prod.splits)

text \<open>
  C20. Backpressure. On a channel fresh from its create, after any sequence of asks, sends
  and receives: the messages delivered followed by those buffered are those accepted, in
  order; the buffer stays within the capacity; and, as long as the total asked for fits a
  \<open>size_t\<close>, the number of messages accepted plus the outstanding demand is exactly the
  total asked for, so the producer never sends a message the consumer did not ask for.
\<close>

theorem demand_backpressure:
  assumes "holds r f"
    and "xtc_chan_demand_create rc1 rc2 r cap has_out = (XTC_OK, Some c, r1)"
    and "demand_run (c, r1) ops = (asked, ins, outs, d, r2)"
  shows "ins = outs @ demand_cont d \<and> xtc_chan_demand_len (Some d) \<le> cap \<and>
    (asked < 2 ^ 64 \<longrightarrow> unat (xtc_chan_demand_outstanding (Some d)) + length ins = asked)"
proof -
  from demand_create_ok [OF assms(1,2)]
  have ok: "demand_ok (f(1 := f 1 + 1)) (c, r1)" and c: "c = demand_fresh cap" by auto
  from demand_run_ok [OF ok assms(3)] c show ?thesis
    by (auto simp: demand_msgs_def demand_ok_def demand_inv_def demand_fresh_def demand_cont_def)
qed

theorem demand_backpressure_witness:
  "\<exists>c r1 d r2. xtc_chan_demand_create XTC_OK XTC_OK (Some res_sample) 2 True =
       (XTC_OK, Some (c :: (nat, nat) chan_demand), r1) \<and>
     demand_run (c, r1) [DSend (Some 1), Ask 2, DSend (Some 2), DRecv, DSend (Some 3), DSend (Some 4)] =
       (2, [Some 2, Some 3], [Some 2], d, r2) \<and>
     [Some 2, Some 3] = [Some 2] @ demand_cont d \<and> xtc_chan_demand_len (Some d) \<le> 2 \<and>
     unat (xtc_chan_demand_outstanding (Some d)) + 2 = 2"
proof -
  let ?ops = "[DSend (Some (1::nat)), Ask 2, DSend (Some 2), DRecv, DSend (Some 3), DSend (Some 4)]"
  define cr :: "xtc_err \<times> (nat, nat) chan_demand option \<times> xtc_res option" where
    "cr = xtc_chan_demand_create XTC_OK XTC_OK (Some res_sample) 2 True"
  define t where "t = demand_run (the (fst (snd cr)), snd (snd cr)) ?ops"
  have "fst cr = XTC_OK" "fst (snd cr) \<noteq> None" unfolding cr_def by code_simp+
  then have c: "xtc_chan_demand_create XTC_OK XTC_OK (Some res_sample) 2 True =
      (XTC_OK, Some (the (fst (snd cr))), snd (snd cr))"
    by (simp add: cr_def [symmetric] prod_eq_iff)
  have "fst t = 2 \<and> fst (snd t) = [Some 2, Some 3] \<and> fst (snd (snd t)) = [Some 2]"
    unfolding t_def cr_def by code_simp
  then have d: "demand_run (the (fst (snd cr)), snd (snd cr)) ?ops =
      (2, [Some 2, Some 3], [Some 2], fst (snd (snd (snd t))), snd (snd (snd (snd t))))"
    by (simp add: t_def prod_eq_iff)
  from demand_backpressure [OF holds_sample c d]
  have "[Some 2, Some 3] = [Some 2] @ demand_cont (fst (snd (snd (snd t))))"
    "xtc_chan_demand_len (Some (fst (snd (snd (snd t))))) \<le> 2"
    "unat (xtc_chan_demand_outstanding (Some (fst (snd (snd (snd t)))))) + 2 = 2"
    by simp_all
  with c d show ?thesis by blast
qed

text \<open>
  C32. Destroying a demand channel returns its \<open>XTC_RES_CHANNELS\<close> unit and nothing else:
  the \<open>XTC_RES_CHAN_SLOTS\<close> units of the messages still buffered stay charged to the
  accountant for good (the mpsc and mpmc channels return theirs).
\<close>

theorem demand_destroy_keeps_slots:
  assumes "holds r f"
    and "xtc_chan_demand_create rc1 rc2 r cap has_out = (XTC_OK, Some c, r1)"
    and "demand_run (c, r1) ops = (asked, ins, outs, d, r2)"
  shows "holds (xtc_chan_demand_destroy (Some d) r2) (f(2 := f 2 + int (length ins - length outs)))"
proof -
  from demand_create_ok [OF assms(1,2)]
  have ok: "demand_ok (f(1 := f 1 + 1)) (c, r1)" and c: "c = demand_fresh cap" by auto
  from demand_run_ok [OF ok assms(3)] c have d: "ins = outs @ demand_cont d"
    "buffered (f(1 := f 1 + 1)) r2 (dm_n d)"
    by (auto simp: demand_msgs_def demand_ok_def demand_fresh_def demand_cont_def)
  with buffered_destroy [OF d(2) assms(1), of 0] show ?thesis
    by (simp add: buffered_def)
qed

theorem demand_destroy_keeps_slots_witness:
  "\<exists>c r1 d r2. xtc_chan_demand_create XTC_OK XTC_OK (Some res_sample) 2 True =
       (XTC_OK, Some (c :: (nat, nat) chan_demand), r1) \<and>
     demand_run (c, r1) [Ask 2, DSend (Some 2)] = (2, [Some 2], [], d, r2) \<and>
     holds (xtc_chan_demand_destroy (Some d) r2) ((\<lambda>_. 0)(2 := 1))"
proof -
  let ?ops = "[Ask 2, DSend (Some (2::nat))]"
  define cr :: "xtc_err \<times> (nat, nat) chan_demand option \<times> xtc_res option" where
    "cr = xtc_chan_demand_create XTC_OK XTC_OK (Some res_sample) 2 True"
  define t where "t = demand_run (the (fst (snd cr)), snd (snd cr)) ?ops"
  have "fst cr = XTC_OK" "fst (snd cr) \<noteq> None" unfolding cr_def by code_simp+
  then have c: "xtc_chan_demand_create XTC_OK XTC_OK (Some res_sample) 2 True =
      (XTC_OK, Some (the (fst (snd cr))), snd (snd cr))"
    by (simp add: cr_def [symmetric] prod_eq_iff)
  have "fst t = 2 \<and> fst (snd t) = [Some 2] \<and> fst (snd (snd t)) = []"
    unfolding t_def cr_def by code_simp
  then have d: "demand_run (the (fst (snd cr)), snd (snd cr)) ?ops =
      (2, [Some 2], [], fst (snd (snd (snd t))), snd (snd (snd (snd t))))"
    by (simp add: t_def prod_eq_iff)
  from demand_destroy_keeps_slots [OF holds_sample c d] c d show ?thesis by fastforce
qed

text \<open>
  Parking and waking. A run over the operations of both sides that also records whether
  the producer's and the consumer's current waker has fired since it was registered.
\<close>

datatype ('a, 'w) wake_op =
  WAsk "64 word" | WSend "'a option" | WRecv | WProd 'w | WCons 'w | WClose

type_synonym ('a, 'w) wake_st = "('a, 'w) demand_st \<times> bool \<times> bool"

fun wake_step :: "('a, 'w) wake_st \<Rightarrow> ('a, 'w) wake_op \<Rightarrow> ('a, 'w) wake_st" where
  "wake_step ((c, r), pf, cf) (WAsk n) =
     (case xtc_chan_demand_ask (Some c) n of (e, d, ws) \<Rightarrow> ((the d, r), pf \<or> ws \<noteq> [], cf))"
| "wake_step ((c, r), pf, cf) (WSend x) =
     (case xtc_chan_demand_send (Some c) r x of (e, d, r', ws) \<Rightarrow>
        ((the d, r'), pf, cf \<or> ws \<noteq> []))"
| "wake_step ((c, r), pf, cf) WRecv =
     (case xtc_chan_demand_try_recv (Some c) r True of (e, y, d, r') \<Rightarrow> ((the d, r'), pf, cf))"
| "wake_step ((c, r), pf, cf) (WProd w) =
     (case xtc_chan_demand_set_producer_waker (Some c) (Some w) of (e, d, ws) \<Rightarrow>
        ((the d, r), ws \<noteq> [], cf))"
| "wake_step ((c, r), pf, cf) (WCons w) =
     (case xtc_chan_demand_set_consumer_waker (Some c) (Some w) of (e, d, ws) \<Rightarrow>
        ((the d, r), pf, ws \<noteq> []))"
| "wake_step ((c, r), pf, cf) WClose =
     (case xtc_chan_demand_close (Some c) of (e, d, ws) \<Rightarrow> ((the d, r), pf, cf \<or> ws \<noteq> []))"

fun wake_inv :: "('a, 'w) wake_st \<Rightarrow> bool" where
  "wake_inv ((c, r), pf, cf) =
     ((dm_prod_waker c \<noteq> None \<and> dm_demand c \<noteq> 0 \<longrightarrow> pf) \<and>
      (dm_cons_waker c \<noteq> None \<and> dm_n c \<noteq> 0 \<longrightarrow> cf))"

lemma wake_step_inv: "wake_inv s \<Longrightarrow> wake_inv (wake_step s op)"
  by (cases "(s, op)" rule: wake_step.cases)
    (auto simp: word_neq_0_conv split: if_splits prod.splits option.splits)

lemma wake_run_inv: "wake_inv s \<Longrightarrow> wake_inv (foldl wake_step s ops)"
  by (induction ops arbitrary: s) (simp_all add: wake_step_inv)

text \<open>
  C31. No wake-up for data or demand is lost. Whatever the two sides do on a fresh demand
  channel: if a producer waker is registered and demand is outstanding, that waker has fired
  since it was registered, and if a consumer waker is registered and messages are buffered,
  that waker has fired since it was registered.
\<close>

theorem demand_no_lost_wake:
  "foldl wake_step ((demand_fresh cap, r), False, False) ops = ((c, r'), pf, cf) \<Longrightarrow>
   (dm_prod_waker c \<noteq> None \<and> xtc_chan_demand_outstanding (Some c) \<noteq> 0 \<longrightarrow> pf) \<and>
   (dm_cons_waker c \<noteq> None \<and> xtc_chan_demand_len (Some c) \<noteq> 0 \<longrightarrow> cf)"
  using wake_run_inv [of "((demand_fresh cap, r), False, False)" ops]
  by (simp add: demand_fresh_def)

theorem demand_no_lost_wake_witness:
  "\<exists>c r'. foldl wake_step ((demand_fresh 1, None), False, False)
      [WProd (3::nat), WAsk 2, WSend (Some (9::nat)), WCons 4] = ((c, r'), True, True) \<and>
    dm_prod_waker c \<noteq> None \<and> xtc_chan_demand_outstanding (Some c) \<noteq> 0 \<and>
    dm_cons_waker c \<noteq> None \<and> xtc_chan_demand_len (Some c) \<noteq> 0"
proof -
  let ?ops = "[WProd (3::nat), WAsk 2, WSend (Some (9::nat)), WCons 4]"
  obtain c r' pf cf where
    run: "foldl wake_step ((demand_fresh 1, None), False, False) ?ops = ((c, r'), pf, cf)"
    by (metis surj_pair)
  have c: "dm_prod_waker c \<noteq> None" "xtc_chan_demand_outstanding (Some c) \<noteq> 0"
    "dm_cons_waker c \<noteq> None" "xtc_chan_demand_len (Some c) \<noteq> 0"
    using run by (auto simp: demand_fresh_def)
  with demand_no_lost_wake [OF run] run show ?thesis by auto
qed



end
