(* ===== verification/Chan_Broadcast.thy ===== *)
theory Chan_Broadcast
  imports Bounded_Fifo "HOL-Library.Sublist"
begin

text \<open>
  The lossy broadcast channel of \<open>src/src/ptc/chan.c\<close>: one ring, a 64-bit publish counter and
  a cursor per subscriber. Every operation is one critical section. A subscription is a
  record of its own, as in the code; the channel keeps the list of the subscriptions it
  will free, by identity.
\<close>

section \<open>State and operations\<close>

record 'a chan_broadcast =
  bc_cap :: "64 word"
  bc_slots :: "'a option list"
  bc_seqs :: "64 word list"
  bc_pos :: "64 word"
  bc_recvs :: "nat list"

record broadcast_recv =
  br_id :: nat
  br_cursor :: "64 word"

definition broadcast_fresh :: "64 word \<Rightarrow> 'a chan_broadcast" where
  "broadcast_fresh cap = \<lparr>bc_cap = cap, bc_slots = replicate (unat cap) None,
     bc_seqs = replicate (unat cap) 0, bc_pos = 0, bc_recvs = []\<rparr>"

definition xtc_chan_broadcast_create ::
  "xtc_err \<Rightarrow> xtc_err \<Rightarrow> xtc_err \<Rightarrow> xtc_res option \<Rightarrow> 64 word \<Rightarrow> bool \<Rightarrow>
   xtc_err \<times> 'a chan_broadcast option \<times> xtc_res option" where
  "xtc_chan_broadcast_create rc1 rc2 rc3 r capacity has_out =
     (if \<not> has_out \<or> capacity = 0 then (XTC_E_INVAL, None, r)
      else case chan_charge r XTC_RES_CHANNELS 1 of (rc, r1) \<Rightarrow>
        if rc \<noteq> XTC_OK then (rc, None, r1)
        else if rc1 \<noteq> XTC_OK then (rc1, None, chan_refund r1 XTC_RES_CHANNELS 1)
        else if rc2 \<noteq> XTC_OK then (rc2, None, chan_refund r1 XTC_RES_CHANNELS 1)
        else if rc3 \<noteq> XTC_OK then (rc3, None, chan_refund r1 XTC_RES_CHANNELS 1)
        else (XTC_OK, Some (broadcast_fresh capacity), r1))"

text \<open>The second component lists the subscriptions the destroy frees.\<close>

fun xtc_chan_broadcast_destroy ::
  "'a chan_broadcast option \<Rightarrow> xtc_res option \<Rightarrow> xtc_res option \<times> nat list" where
  "xtc_chan_broadcast_destroy None r = (r, [])"
| "xtc_chan_broadcast_destroy (Some c) r = (chan_refund r XTC_RES_CHANNELS 1, bc_recvs c)"

fun xtc_chan_broadcast_send ::
  "'a chan_broadcast option \<Rightarrow> 'a option \<Rightarrow> xtc_err \<times> 'a chan_broadcast option" where
  "xtc_chan_broadcast_send None msg = (XTC_E_INVAL, None)"
| "xtc_chan_broadcast_send (Some c) msg =
     (let seq = bc_pos c; i = unat (seq mod bc_cap c) in
      (XTC_OK, Some (c\<lparr>bc_slots := (bc_slots c)[i := msg], bc_seqs := (bc_seqs c)[i := seq + 1],
                       bc_pos := seq + 1\<rparr>)))"

text \<open>\<open>new\<close> is the address the allocation of the subscription returned, \<open>rc\<close> its result.\<close>

fun xtc_chan_broadcast_subscribe ::
  "xtc_err \<Rightarrow> nat \<Rightarrow> 'a chan_broadcast option \<Rightarrow> bool \<Rightarrow>
   xtc_err \<times> broadcast_recv option \<times> 'a chan_broadcast option" where
  "xtc_chan_broadcast_subscribe rc new None has_out = (XTC_E_INVAL, None, None)"
| "xtc_chan_broadcast_subscribe rc new (Some c) has_out =
     (if \<not> has_out then (XTC_E_INVAL, None, Some c)
      else if rc \<noteq> XTC_OK then (rc, None, Some c)
      else (XTC_OK, Some \<lparr>br_id = new, br_cursor = bc_pos c\<rparr>,
            Some (c\<lparr>bc_recvs := new # bc_recvs c\<rparr>)))"

fun xtc_chan_broadcast_unsubscribe ::
  "broadcast_recv option \<Rightarrow> 'a chan_broadcast \<Rightarrow> 'a chan_broadcast" where
  "xtc_chan_broadcast_unsubscribe None c = c"
| "xtc_chan_broadcast_unsubscribe (Some r) c = c\<lparr>bc_recvs := remove1 (br_id r) (bc_recvs c)\<rparr>"

text \<open>
  A receive returns the error code, what it stored through \<open>out\<close>, what it stored through
  \<open>lagged\<close> (a C \<open>int\<close>) and the subscription.
\<close>

definition int_of_u64 :: "64 word \<Rightarrow> int" where
  "int_of_u64 w = sint (ucast w :: 32 word)"

fun xtc_chan_broadcast_recv ::
  "broadcast_recv option \<Rightarrow> 'a chan_broadcast \<Rightarrow> bool \<Rightarrow>
   xtc_err \<times> 'a option \<times> int \<times> broadcast_recv option" where
  "xtc_chan_broadcast_recv None c has_out = (XTC_E_INVAL, None, 0, None)"
| "xtc_chan_broadcast_recv (Some r) c has_out =
     (if \<not> has_out then (XTC_E_INVAL, None, 0, Some r)
      else if br_cursor r \<ge> bc_pos c then (XTC_E_AGAIN, None, 0, Some r)
      else let behind = bc_pos c - br_cursor r;
               lagged = (if behind > bc_cap c then int_of_u64 (behind - bc_cap c) else 0);
               cur = (if behind > bc_cap c then bc_pos c - bc_cap c else br_cursor r)
           in (XTC_OK, bc_slots c ! unat (cur mod bc_cap c), lagged, Some (r\<lparr>br_cursor := cur + 1\<rparr>)))"

section \<open>Invariant\<close>

text \<open>\<open>hist\<close> is everything ever published: the ring holds its last \<open>cap\<close> entries.\<close>

definition broadcast_inv :: "'a option list \<Rightarrow> 'a chan_broadcast \<Rightarrow> bool" where
  "broadcast_inv hist c = (0 < unat (bc_cap c) \<and> length (bc_slots c) = unat (bc_cap c) \<and>
     length (bc_seqs c) = unat (bc_cap c) \<and> unat (bc_pos c) = length hist \<and>
     (\<forall>i < length hist. length hist \<le> i + unat (bc_cap c) \<longrightarrow>
        bc_slots c ! (i mod unat (bc_cap c)) = hist ! i \<and>
        bc_seqs c ! (i mod unat (bc_cap c)) = of_nat (i + 1)))"

lemma broadcast_fresh_inv: "cap \<noteq> 0 \<Longrightarrow> broadcast_inv [] (broadcast_fresh cap)"
  by (simp add: broadcast_inv_def broadcast_fresh_def unat_gt_0)

lemma window_mod_neq:
  assumes "i < n" "n \<le> i + m" "0 < m" "n < i + m"
  shows "n mod m \<noteq> i mod (m :: nat)"
proof
  assume "n mod m = i mod m"
  moreover have "n - i < m" using assms by linarith
  ultimately show False using mod_ring_inj [of "n - i" m 0 i] assms by simp
qed

lemma broadcast_send_inv:
  assumes inv: "broadcast_inv hist c" and len: "length hist + 1 < 2 ^ 64"
    and send: "xtc_chan_broadcast_send (Some c) m = (e, Some d)"
  shows "broadcast_inv (hist @ [m]) d \<and> e = XTC_OK \<and> bc_cap d = bc_cap c"
proof -
  let ?m = "unat (bc_cap c)"
  from inv have c: "0 < ?m" "length (bc_slots c) = ?m" "length (bc_seqs c) = ?m"
    "unat (bc_pos c) = length hist" by (simp_all add: broadcast_inv_def)
  have idx: "unat (bc_pos c mod bc_cap c) = length hist mod ?m"
    using c by (simp add: unat_mod)
  have pos: "unat (bc_pos c + 1) = length hist + 1"
    using c len by (simp add: unat_word_ariths(1))
  have w: "bc_pos c + 1 = of_nat (length hist + 1)"
    using c(4) by (metis of_nat_1 of_nat_add of_nat_unat ucast_id)
  from send idx have d: "d = c\<lparr>bc_slots := (bc_slots c)[length hist mod ?m := m],
      bc_seqs := (bc_seqs c)[length hist mod ?m := bc_pos c + 1], bc_pos := bc_pos c + 1\<rparr>" "e = XTC_OK"
    by (simp_all add: Let_def)
  have "bc_slots d ! (i mod ?m) = (hist @ [m]) ! i \<and> bc_seqs d ! (i mod ?m) = of_nat (i + 1)"
    if "i < length hist + 1" "length hist + 1 \<le> i + ?m" for i
  proof (cases "i = length hist")
    case True
    with c d w show ?thesis by simp
  next
    case False
    with that have i: "i < length hist" "length hist < i + ?m" by auto
    with window_mod_neq [of i "length hist" ?m] c have "length hist mod ?m \<noteq> i mod ?m" by simp
    with i inv d show ?thesis by (simp add: broadcast_inv_def nth_append)
  qed
  with c d pos show ?thesis by (simp add: broadcast_inv_def)
qed

lemma int_of_u64_small:
  assumes "unat w < 2 ^ 31"
  shows "int_of_u64 w = int (unat w)"
proof -
  have "int (unat w) < int (2 ^ 31)" using assms by (simp only: of_nat_less_iff)
  then have u: "uint w < 2 ^ 31" by simp
  have "uint (ucast w :: 32 word) = uint w"
    using u by (simp add: unsigned_ucast_eq take_bit_int_eq_self)
  moreover have "signed_take_bit 31 (uint w) = uint w"
    using u by (intro signed_take_bit_int_eq_self order.trans [OF _ uint_ge_0 [of w]]) simp_all
  ultimately show ?thesis by (simp add: int_of_u64_def sint_uint)
qed

text \<open>What a receive returns: the next entry of the history, or the oldest one still in the ring.\<close>

lemma broadcast_recv_cases:
  assumes inv: "broadcast_inv hist c" and cur: "unat (br_cursor r) \<le> length hist"
    and len: "length hist < 2 ^ 31"
  defines "k \<equiv> max (unat (br_cursor r)) (length hist - unat (bc_cap c))"
  shows "xtc_chan_broadcast_recv (Some r) c True =
    (if unat (br_cursor r) = length hist then (XTC_E_AGAIN, None, 0, Some r)
     else (XTC_OK, hist ! k, int (k - unat (br_cursor r)), Some (r\<lparr>br_cursor := of_nat (k + 1)\<rparr>)))"
proof (cases "unat (br_cursor r) = length hist")
  case True
  with inv show ?thesis by (simp add: broadcast_inv_def word_le_nat_alt)
next
  case False
  let ?m = "unat (bc_cap c)" and ?r = "unat (br_cursor r)"
  from inv have c: "0 < ?m" "unat (bc_pos c) = length hist" by (simp_all add: broadcast_inv_def)
  from False cur c have lt: "\<not> bc_pos c \<le> br_cursor r" by (simp add: word_le_nat_alt)
  have behind: "unat (bc_pos c - br_cursor r) = length hist - ?r"
    using c cur by (simp add: unat_sub word_le_nat_alt)
  have over: "bc_cap c < bc_pos c - br_cursor r \<longleftrightarrow> ?m < length hist - ?r"
    using behind by (simp add: word_less_nat_alt)
  define cu where "cu = (if bc_cap c < bc_pos c - br_cursor r then bc_pos c - bc_cap c else br_cursor r)"
  have cu: "unat cu = k"
    using over c by (auto simp: cu_def k_def unat_sub word_le_nat_alt)
  have lag: "(if bc_cap c < bc_pos c - br_cursor r then int_of_u64 (bc_pos c - br_cursor r - bc_cap c) else 0)
      = int (k - ?r)"
  proof (cases "?m < length hist - ?r")
    case True
    then have "unat (bc_pos c - br_cursor r - bc_cap c) = length hist - ?r - ?m"
      using behind by (simp add: unat_sub word_le_nat_alt)
    with True len over show ?thesis by (simp add: int_of_u64_small k_def)
  next
    case False
    with over show ?thesis by (simp add: k_def)
  qed
  have k: "k < length hist" "length hist \<le> k + ?m" using False cur c by (auto simp: k_def)
  have slot: "bc_slots c ! unat (cu mod bc_cap c) = hist ! k"
    using inv k cu by (simp add: broadcast_inv_def unat_mod)
  have "cu + 1 = of_nat (k + 1)" using cu by (metis of_nat_1 of_nat_add of_nat_unat ucast_id)
  with False lt lag slot show ?thesis
    by (simp add: Let_def cu_def [symmetric])
qed

section \<open>Properties\<close>

text \<open>
  Publishing interleaved with the receives of one subscriber. The run returns the messages
  the subscriber got, the sum of the \<open>lagged\<close> counts it was told, and the final state.
\<close>

datatype 'a broadcast_op = BSend "'a option" | BRecv

fun broadcast_run ::
  "'a chan_broadcast \<Rightarrow> broadcast_recv \<Rightarrow> 'a broadcast_op list \<Rightarrow>
   'a option list \<times> int \<times> 'a chan_broadcast \<times> broadcast_recv" where
  "broadcast_run c r [] = ([], 0, c, r)"
| "broadcast_run c r (BSend m # ops) =
     broadcast_run (the (snd (xtc_chan_broadcast_send (Some c) m))) r ops"
| "broadcast_run c r (BRecv # ops) =
     (case xtc_chan_broadcast_recv (Some r) c True of (e, x, lag, r') \<Rightarrow>
       case broadcast_run c (the r') ops of (got, lags, d, q) \<Rightarrow>
         (if e = XTC_OK then x # got else got, lag + lags, d, q))"

fun published :: "'a broadcast_op list \<Rightarrow> 'a option list" where
  "published [] = []"
| "published (BSend m # ops) = m # published ops"
| "published (BRecv # ops) = published ops"

lemma drop_at: "k < length xs \<Longrightarrow> a \<le> k \<Longrightarrow> \<exists>ys. drop a xs = ys @ xs ! k # drop (Suc k) xs"
  by (metis append_take_drop_id drop_drop id_take_nth_drop le_add_diff_inverse2 Cons_nth_drop_Suc)

lemma broadcast_run_ok:
  assumes "broadcast_inv hist c" "unat (br_cursor r) \<le> length hist"
    and "length hist + length (published ops) < 2 ^ 31"
    and "broadcast_run c r ops = (got, lags, d, q)"
  shows "subseq got (drop (unat (br_cursor r)) (hist @ published ops)) \<and>
    broadcast_inv (hist @ published ops) d \<and>
    unat (br_cursor q) \<le> length hist + length (published ops) \<and>
    int (unat (br_cursor q)) = int (unat (br_cursor r)) + int (length got) + lags"
  using assms
proof (induction ops arbitrary: hist c r got lags)
  case (Cons op ops)
  show ?case
  proof (cases op)
    case (BSend m)
    obtain e d' where s: "xtc_chan_broadcast_send (Some c) m = (e, Some d')" by (simp add: Let_def)
    from broadcast_send_inv [OF Cons.prems(1) _ s] Cons.prems(3) BSend
    have "broadcast_inv (hist @ [m]) d'" by simp
    from Cons.IH [OF this, of r got lags] Cons.prems BSend s show ?thesis by simp
  next
    case BRecv
    define k where "k = max (unat (br_cursor r)) (length hist - unat (bc_cap c))"
    define w :: "64 word" where "w = of_nat (k + 1)"
    let ?r = "unat (br_cursor r)"
    from Cons.prems(3) have len: "length hist < 2 ^ 31" by simp
    note rc = broadcast_recv_cases [OF Cons.prems(1,2) len, folded k_def, folded w_def]
    show ?thesis
    proof (cases "?r = length hist")
      case True
      with rc BRecv Cons.prems Cons.IH [OF Cons.prems(1,2), of got lags] show ?thesis
        by (auto split: prod.splits simp del: xtc_chan_broadcast_recv.simps)
    next
      case False
      from Cons.prems(1,2) False have k: "k < length hist" "?r \<le> k"
        by (auto simp: broadcast_inv_def k_def)
      then have u: "unat w = Suc k"
        using len unfolding w_def by (simp only: unat_of_nat) simp
      obtain got' lags' where run: "broadcast_run c (r\<lparr>br_cursor := w\<rparr>) ops = (got', lags', d, q)"
        and gl: "got = hist ! k # got'" "lags = int (k - ?r) + lags'"
        using Cons.prems(4) BRecv rc False
        by (auto split: prod.splits simp del: xtc_chan_broadcast_recv.simps)
      have "unat (br_cursor (r\<lparr>br_cursor := w\<rparr>)) \<le> length hist" using u k by simp
      from Cons.IH [OF Cons.prems(1) this _ run] u k Cons.prems(3) BRecv
      have ih: "subseq got' (drop (Suc k) (hist @ published ops))"
        "broadcast_inv (hist @ published ops) d"
        "unat (br_cursor q) \<le> length hist + length (published ops)"
        "int (unat (br_cursor q)) = int (Suc k) + int (length got') + lags'"
        by (simp_all del: drop_append of_nat_unat)
      from drop_at [of k "hist @ published ops" ?r] k obtain ys where
        "drop ?r (hist @ published ops) = ys @ hist ! k # drop (Suc k) (hist @ published ops)"
        by (auto simp: nth_append simp del: drop_append)
      with ih(1) gl(1) have "subseq got (drop ?r (hist @ published ops))"
        by (simp add: list_emb_append2 del: drop_append)
      with ih gl k BRecv show ?thesis
        by (simp add: of_nat_diff del: drop_append of_nat_unat)
    qed
  qed
qed (simp add: list_emb_Nil)

text \<open>
  C34. A subscriber's accounts add up. Subscribe to a channel with any history, then
  interleave publishing with receives (with fewer than \<open>2 ^ 31\<close> messages ever published): the
  messages received are a subsequence of those published since, in order, none twice; and the
  number received plus the sum of the \<open>lagged\<close> counts plus the number still waiting at the
  cursor is exactly the number published since.
\<close>

theorem broadcast_accounts:
  assumes "broadcast_inv hist c"
    and "xtc_chan_broadcast_subscribe rc new (Some c) has_out = (XTC_OK, Some r, Some c1)"
    and "length hist + length (published ops) < 2 ^ 31"
    and "broadcast_run c1 r ops = (got, lags, d, q)"
  shows "subseq got (published ops) \<and>
    int (length got) + lags + (int (unat (bc_pos d)) - int (unat (br_cursor q))) =
      int (length (published ops)) \<and> unat (br_cursor q) \<le> unat (bc_pos d)"
proof -
  from assms(1,2) have c1: "broadcast_inv hist c1" "unat (br_cursor r) = length hist"
    by (auto simp: broadcast_inv_def split: if_splits)
  from broadcast_run_ok [OF c1(1) _ assms(3,4)] c1(2) have
    "subseq got (published ops)" "broadcast_inv (hist @ published ops) d"
    "unat (br_cursor q) \<le> length hist + length (published ops)"
    "int (unat (br_cursor q)) = int (length hist) + int (length got) + lags"
    by (simp_all del: of_nat_unat)
  moreover from this(2) have "unat (bc_pos d) = length hist + length (published ops)"
    by (simp add: broadcast_inv_def)
  ultimately show ?thesis by (simp del: of_nat_unat)
qed

theorem broadcast_accounts_witness:
  "\<exists>c r c1 d q. c = (broadcast_fresh 2 :: nat chan_broadcast) \<and> broadcast_inv [] c \<and>
     xtc_chan_broadcast_subscribe XTC_OK 0 (Some c) True = (XTC_OK, Some r, Some c1) \<and>
     broadcast_run c1 r [BSend (Some 1), BSend (Some 2), BSend (Some 3), BRecv, BSend (Some 4)] =
       ([Some 2], 1, d, q) \<and>
     int (unat (bc_pos d)) - int (unat (br_cursor q)) = 2"
proof -
  let ?c = "broadcast_fresh 2 :: nat chan_broadcast"
  let ?ops = "[BSend (Some (1::nat)), BSend (Some 2), BSend (Some 3), BRecv, BSend (Some 4)]"
  have inv: "broadcast_inv [] ?c" by (rule broadcast_fresh_inv) simp
  obtain r c1 where s: "xtc_chan_broadcast_subscribe XTC_OK 0 (Some ?c) True = (XTC_OK, Some r, Some c1)"
    by simp
  then have rc: "r = \<lparr>br_id = 0, br_cursor = bc_pos ?c\<rparr>" "c1 = ?c\<lparr>bc_recvs := [0]\<rparr>"
    by (simp_all add: broadcast_fresh_def)
  have "fst (broadcast_run c1 r ?ops) = [Some 2]" "fst (snd (broadcast_run c1 r ?ops)) = 1"
    unfolding rc by code_simp+
  then obtain d q where run: "broadcast_run c1 r ?ops = ([Some 2], 1, d, q)"
    by (metis prod.collapse)
  from broadcast_accounts [OF inv s _ run]
  have "int (unat (bc_pos d)) - int (unat (br_cursor q)) = 2"
    by (simp del: of_nat_unat)
  with inv s run show ?thesis by blast
qed

text \<open>
  The \<open>lagged\<close> count is stored through an \<open>int\<close>: a subscriber that missed \<open>2 ^ 31\<close> messages is
  told a negative number.
\<close>

lemma broadcast_lag_truncated:
  "\<exists>c r x q. xtc_chan_broadcast_recv (Some r) (c :: nat chan_broadcast) True =
     (XTC_OK, x, - (2 ^ 31), q) \<and> unat (bc_pos c) = 2 ^ 31 + 1 \<and> br_cursor r = 0 \<and> bc_cap c = 1"
  by (rule exI [of _ "\<lparr>bc_cap = 1, bc_slots = [Some 0], bc_seqs = [2 ^ 31 + 1], bc_pos = 2 ^ 31 + 1,
        bc_recvs = []\<rparr>"], rule exI [of _ "\<lparr>br_id = 0, br_cursor = 0\<rparr>"])
    (simp add: int_of_u64_def)

end
