(* ===== verification/Chan_Oneshot.thy ===== *)
theory Chan_Oneshot
  imports Bounded_Fifo
begin

text \<open>
  The oneshot and the watch channel of \<open>src/src/ptc/chan.c\<close>: each call run alone, and the
  oneshot under concurrency, at the granularity of its atomic accesses. A value is a
  pointer, so a stored \<open>NULL\<close> is \<open>None\<close>.
\<close>

section \<open>Oneshot, one call at a time\<close>

text \<open>\<open>os_state\<close> is 0 for empty and 1 for written; the code's comment also has 2 for closed.\<close>

record ('a, 'w) chan_oneshot =
  os_state :: int
  os_value :: "'a option"
  os_waker :: 'w
  os_has_waker :: bool

definition oneshot_fresh :: "'w \<Rightarrow> ('a, 'w) chan_oneshot" where
  "oneshot_fresh w = \<lparr>os_state = 0, os_value = None, os_waker = w, os_has_waker = False\<rparr>"

text \<open>\<open>w0\<close> is the zeroed waker of the fresh allocation, \<open>rc1\<close> the result of the allocation.\<close>

definition xtc_chan_oneshot_create ::
  "'w \<Rightarrow> xtc_err \<Rightarrow> xtc_res option \<Rightarrow> bool \<Rightarrow>
   xtc_err \<times> ('a, 'w) chan_oneshot option \<times> xtc_res option" where
  "xtc_chan_oneshot_create w0 rc1 r has_out =
     (if \<not> has_out then (XTC_E_INVAL, None, r)
      else case chan_charge r XTC_RES_CHANNELS 1 of (rc, r1) \<Rightarrow>
        if rc \<noteq> XTC_OK then (rc, None, r1)
        else if rc1 \<noteq> XTC_OK then (rc1, None, chan_refund r1 XTC_RES_CHANNELS 1)
        else (XTC_OK, Some (oneshot_fresh w0), r1))"

fun xtc_chan_oneshot_destroy ::
  "('a, 'w) chan_oneshot option \<Rightarrow> xtc_res option \<Rightarrow> xtc_res option" where
  "xtc_chan_oneshot_destroy None r = r"
| "xtc_chan_oneshot_destroy (Some c) r = chan_refund r XTC_RES_CHANNELS 1"

fun xtc_chan_oneshot_send ::
  "('a, 'w) chan_oneshot option \<Rightarrow> 'a option \<Rightarrow>
   xtc_err \<times> ('a, 'w) chan_oneshot option \<times> 'w list" where
  "xtc_chan_oneshot_send None msg = (XTC_E_INVAL, None, [])"
| "xtc_chan_oneshot_send (Some c) msg =
     (if os_state c \<noteq> 0 then (XTC_E_INVAL, Some c, [])
      else (XTC_OK, Some (c\<lparr>os_state := 1, os_value := msg\<rparr>),
            if os_has_waker c then [os_waker c] else []))"

fun xtc_chan_oneshot_try_recv ::
  "('a, 'w) chan_oneshot option \<Rightarrow> bool \<Rightarrow> xtc_err \<times> 'a option" where
  "xtc_chan_oneshot_try_recv None has_out = (XTC_E_INVAL, None)"
| "xtc_chan_oneshot_try_recv (Some c) has_out =
     (if \<not> has_out then (XTC_E_INVAL, None)
      else if os_state c \<noteq> 1 then (XTC_E_AGAIN, None)
      else (XTC_OK, os_value c))"

fun xtc_chan_oneshot_set_waker ::
  "('a, 'w) chan_oneshot option \<Rightarrow> 'w option \<Rightarrow>
   xtc_err \<times> ('a, 'w) chan_oneshot option \<times> 'w list" where
  "xtc_chan_oneshot_set_waker (Some c) (Some w) =
     (XTC_OK, Some (c\<lparr>os_waker := w, os_has_waker := True\<rparr>), if os_state c = 1 then [w] else [])"
| "xtc_chan_oneshot_set_waker c w = (XTC_E_INVAL, c, [])"

section \<open>Watch\<close>

record 'a chan_watch =
  wt_value :: "'a option"
  wt_has_value :: bool

definition xtc_chan_watch_create ::
  "xtc_err \<Rightarrow> xtc_res option \<Rightarrow> bool \<Rightarrow> xtc_err \<times> 'a chan_watch option \<times> xtc_res option" where
  "xtc_chan_watch_create rc1 r has_out =
     (if \<not> has_out then (XTC_E_INVAL, None, r)
      else case chan_charge r XTC_RES_CHANNELS 1 of (rc, r1) \<Rightarrow>
        if rc \<noteq> XTC_OK then (rc, None, r1)
        else if rc1 \<noteq> XTC_OK then (rc1, None, chan_refund r1 XTC_RES_CHANNELS 1)
        else (XTC_OK, Some \<lparr>wt_value = None, wt_has_value = False\<rparr>, r1))"

fun xtc_chan_watch_destroy :: "'a chan_watch option \<Rightarrow> xtc_res option \<Rightarrow> xtc_res option" where
  "xtc_chan_watch_destroy None r = r"
| "xtc_chan_watch_destroy (Some c) r = chan_refund r XTC_RES_CHANNELS 1"

fun xtc_chan_watch_send ::
  "'a chan_watch option \<Rightarrow> 'a option \<Rightarrow> xtc_err \<times> 'a chan_watch option" where
  "xtc_chan_watch_send None v = (XTC_E_INVAL, None)"
| "xtc_chan_watch_send (Some c) v = (XTC_OK, Some (c\<lparr>wt_value := v, wt_has_value := True\<rparr>))"

fun xtc_chan_watch_recv :: "'a chan_watch option \<Rightarrow> bool \<Rightarrow> xtc_err \<times> 'a option" where
  "xtc_chan_watch_recv None has_out = (XTC_E_INVAL, None)"
| "xtc_chan_watch_recv (Some c) has_out =
     (if \<not> has_out then (XTC_E_INVAL, None)
      else if \<not> wt_has_value c then (XTC_E_AGAIN, None)
      else (XTC_OK, wt_value c))"

section \<open>Oneshot under concurrency\<close>

text \<open>
  Any number of senders, one receiver that polls, and one thread that registers a waker. A
  sender's accesses: the compare-and-swap of \<open>state\<close>, the store of \<open>value\<close>, the load of
  \<open>has_waker\<close>. The registration's accesses: the stores of the waker and of \<open>has_waker\<close>, the
  load of \<open>state\<close>. The registration's store is a release store and the load behind it an
  acquire load, an order the C memory model and the hardware need not keep: with \<open>buffered_store\<close> the
  store sits in a store buffer until \<open>Flush\<close>, without it memory is sequentially consistent.
\<close>

datatype 'a os_spc = OsIdle | OsStore "'a option" | OsLoad | OsDone
datatype os_rpc = OrState | OrValue
datatype os_wpc = OwStart | OwState | OwDone

record ('a, 'w) os_world =
  ow_chan :: "('a, 'w) chan_oneshot"
  ow_spc :: "nat \<Rightarrow> 'a os_spc"
  ow_rpc :: os_rpc
  ow_wpc :: os_wpc
  ow_pending :: bool
  ow_accepted :: "(nat \<times> 'a option) list"
  ow_got :: "'a option list"
  ow_fired :: "'w list"

definition os_world_init :: "'w \<Rightarrow> ('a, 'w) os_world" where
  "os_world_init w0 = \<lparr>ow_chan = oneshot_fresh w0, ow_spc = (\<lambda>_. OsIdle), ow_rpc = OrState,
     ow_wpc = OwStart, ow_pending = False, ow_accepted = [], ow_got = [], ow_fired = []\<rparr>"

datatype ('a, 'w) os_act = OSend nat "'a option" | OStep nat | ORecv | OWaker 'w | OWakerStep | Flush

fun os_step :: "bool \<Rightarrow> ('a, 'w) os_act \<Rightarrow> ('a, 'w) os_world \<Rightarrow> ('a, 'w) os_world option" where
  "os_step buffered_store (OSend t m) s =
     (if ow_spc s t \<noteq> OsIdle then None
      else Some (if os_state (ow_chan s) \<noteq> 0 then s\<lparr>ow_spc := (ow_spc s)(t := OsDone)\<rparr>
        else s\<lparr>ow_chan := (ow_chan s)\<lparr>os_state := 1\<rparr>, ow_spc := (ow_spc s)(t := OsStore m),
               ow_accepted := (t, m) # ow_accepted s\<rparr>))"
| "os_step buffered_store (OStep t) s =
     (case ow_spc s t of
        OsStore m \<Rightarrow> Some (s\<lparr>ow_chan := (ow_chan s)\<lparr>os_value := m\<rparr>, ow_spc := (ow_spc s)(t := OsLoad)\<rparr>)
      | OsLoad \<Rightarrow> Some (s\<lparr>ow_spc := (ow_spc s)(t := OsDone),
          ow_fired := (if os_has_waker (ow_chan s) then os_waker (ow_chan s) # ow_fired s else ow_fired s)\<rparr>)
      | _ \<Rightarrow> None)"
| "os_step buffered_store ORecv s =
     Some (case ow_rpc s of
        OrState \<Rightarrow> if os_state (ow_chan s) \<noteq> 1 then s else s\<lparr>ow_rpc := OrValue\<rparr>
      | OrValue \<Rightarrow> s\<lparr>ow_rpc := OrState, ow_got := os_value (ow_chan s) # ow_got s\<rparr>)"
| "os_step buffered_store (OWaker w) s =
     (if ow_wpc s \<noteq> OwStart then None
      else Some (s\<lparr>ow_chan := (if buffered_store then (ow_chan s)\<lparr>os_waker := w\<rparr>
                              else (ow_chan s)\<lparr>os_waker := w, os_has_waker := True\<rparr>),
                   ow_pending := buffered_store, ow_wpc := OwState\<rparr>))"
| "os_step buffered_store OWakerStep s =
     (if ow_wpc s \<noteq> OwState then None
      else Some (s\<lparr>ow_wpc := OwDone,
        ow_fired := (if os_state (ow_chan s) = 1 then os_waker (ow_chan s) # ow_fired s
                     else ow_fired s)\<rparr>))"
| "os_step buffered_store Flush s =
     (if ow_pending s
      then Some (s\<lparr>ow_chan := (ow_chan s)\<lparr>os_has_waker := True\<rparr>, ow_pending := False\<rparr>) else None)"

fun os_run :: "bool \<Rightarrow> ('a, 'w) os_act list \<Rightarrow> ('a, 'w) os_world \<Rightarrow> ('a, 'w) os_world option" where
  "os_run b [] s = Some s"
| "os_run b (a # as) s = (case os_step b a s of None \<Rightarrow> None | Some u \<Rightarrow> os_run b as u)"

section \<open>Invariants\<close>

text \<open>
  At most one sender wins the compare-and-swap; until it stored the value, the value is
  \<open>NULL\<close>, and afterwards it is the message it sends.
\<close>

fun os_owner :: "'a option \<Rightarrow> 'a option \<Rightarrow> 'a os_spc \<Rightarrow> bool" where
  "os_owner m v OsIdle = False"
| "os_owner m v (OsStore x) = (x = m \<and> v = None)"
| "os_owner m v OsLoad = (v = m)"
| "os_owner m v OsDone = (v = m)"

definition os_bystander :: "'a os_spc \<Rightarrow> bool" where
  "os_bystander p = (p = OsIdle \<or> p = OsDone)"

definition os_inv :: "('a, 'w) os_world \<Rightarrow> bool" where
  "os_inv s = (case ow_accepted s of
     [] \<Rightarrow> os_state (ow_chan s) = 0 \<and> os_value (ow_chan s) = None \<and> ow_got s = [] \<and>
           ow_rpc s = OrState \<and> (\<forall>t. os_bystander (ow_spc s t))
   | (t, m) # rest \<Rightarrow> rest = [] \<and> os_state (ow_chan s) = 1 \<and> (\<forall>u. u \<noteq> t \<longrightarrow> os_bystander (ow_spc s u)) \<and>
           os_owner m (os_value (ow_chan s)) (ow_spc s t) \<and> set (ow_got s) \<subseteq> {None, m})"

text \<open>
  Once the winner and the registration are done, one of them has fired the waker (with
  sequentially consistent memory).
\<close>

definition os_wake_inv :: "('a, 'w) os_world \<Rightarrow> bool" where
  "os_wake_inv s = (\<not> ow_pending s \<and>
     (ow_wpc s \<noteq> OwStart \<longrightarrow> os_has_waker (ow_chan s)) \<and>
     (ow_wpc s = OwDone \<longrightarrow> (case ow_accepted s of [] \<Rightarrow> True
        | (t, m) # _ \<Rightarrow> ow_spc s t = OsDone \<longrightarrow> os_waker (ow_chan s) \<in> set (ow_fired s))))"

lemma os_inv_cases:
  assumes "os_inv s"
  obtains "ow_accepted s = []" "os_state (ow_chan s) = 0" "os_value (ow_chan s) = None"
      "ow_got s = []" "ow_rpc s = OrState" "\<forall>t. os_bystander (ow_spc s t)"
  | t m where "ow_accepted s = [(t, m)]" "os_state (ow_chan s) = 1"
      "\<forall>u. u \<noteq> t \<longrightarrow> os_bystander (ow_spc s u)" "os_owner m (os_value (ow_chan s)) (ow_spc s t)"
      "set (ow_got s) \<subseteq> {None, m}"
  using assms unfolding os_inv_def by (auto split: list.splits)

lemma os_owner_value: "os_owner m v p \<Longrightarrow> v = None \<or> v = m"
  by (cases p) auto

lemma os_step_inv:
  assumes "os_inv s" and step: "os_step b a s = Some u"
  shows "os_inv u"
  using assms(1)
proof (cases rule: os_inv_cases)
  case 1
  then have "ow_spc s t \<noteq> OsStore x" "ow_spc s t \<noteq> OsLoad" for t x
    by (metis os_bystander_def os_spc.distinct(1,9), metis os_bystander_def os_spc.distinct(3,11))
  with 1 step show ?thesis
    by (cases a) (auto simp: os_inv_def os_bystander_def split: if_splits os_spc.splits)
next
  case (2 t m)
  from 2(3) have others: "u = t \<or> ow_spc s u = OsIdle \<or> ow_spc s u = OsDone" for u
    by (auto simp: os_bystander_def)
  show ?thesis
  proof (cases a)
    case (OSend u x)
    with step 2 show ?thesis
      by (auto simp: os_inv_def os_bystander_def split: if_splits)
  next
    case (OStep u)
    with step 2 others [of u] show ?thesis
      by (auto simp: os_inv_def split: os_spc.splits)
  next
    case ORecv
    with step 2 os_owner_value [OF 2(4)] show ?thesis
      by (auto simp: os_inv_def split: if_splits os_rpc.splits)
  qed (use step 2 in \<open>auto simp: os_inv_def split: if_splits\<close>)
qed

lemma os_wake_step:
  assumes "os_inv s" and w: "os_wake_inv s" and step: "os_step False a s = Some u"
  shows "os_wake_inv u"
  using assms(1)
proof (cases rule: os_inv_cases)
  case 1
  with w step show ?thesis
    by (cases a) (auto simp: os_wake_inv_def split: if_splits os_spc.splits os_rpc.splits)
next
  case (2 t m)
  then have "ow_spc s t \<noteq> OsIdle" by auto
  with 2 w step show ?thesis
    by (cases a) (auto simp: os_wake_inv_def split: if_splits os_spc.splits os_rpc.splits)
qed

lemma os_run_inv: "os_inv s \<Longrightarrow> os_run b as s = Some u \<Longrightarrow> os_inv u"
  by (induction as arbitrary: s) (auto split: option.splits dest: os_step_inv)

lemma os_run_wake:
  "os_inv s \<Longrightarrow> os_wake_inv s \<Longrightarrow> os_run False as s = Some u \<Longrightarrow> os_wake_inv u"
  by (induction as arbitrary: s) (auto split: option.splits dest: os_step_inv os_wake_step)

lemma os_world_init_inv [simp]: "os_inv (os_world_init w)" "os_wake_inv (os_world_init w)"
  by (simp_all add: os_inv_def os_wake_inv_def os_world_init_def oneshot_fresh_def os_bystander_def)

section \<open>Properties\<close>

text \<open>
  C35. Exactly one message. Under any interleaving of senders and a receiver, with or without
  a store buffer, at most one send is accepted; every receive that returns \<open>XTC_OK\<close> got
  either that message or \<open>NULL\<close>; and once the accepted send has returned, a receive returns
  that message.
\<close>

theorem oneshot_single:
  assumes "os_run b as (os_world_init w) = Some s"
  shows "length (ow_accepted s) \<le> 1 \<and>
    (\<forall>(t, m) \<in> set (ow_accepted s). set (ow_got s) \<subseteq> {None, m} \<and>
       (ow_spc s t = OsDone \<longrightarrow> xtc_chan_oneshot_try_recv (Some (ow_chan s)) True = (XTC_OK, m))) \<and>
    (ow_accepted s = [] \<longrightarrow> ow_got s = [] \<and>
       xtc_chan_oneshot_try_recv (Some (ow_chan s)) True = (XTC_E_AGAIN, None))"
  using os_run_inv [OF os_world_init_inv(1) assms]
  by (cases rule: os_inv_cases) auto

theorem oneshot_single_witness:
  "\<exists>s :: (nat, nat) os_world. os_run False [OSend 0 (Some 5), OSend 1 (Some 6), OStep 0, OStep 0, ORecv, ORecv]
       (os_world_init 0) = Some s \<and> ow_accepted s = [(0, Some 5)] \<and> ow_got s = [Some 5] \<and>
     ow_spc s 1 = OsDone \<and> xtc_chan_oneshot_try_recv (Some (ow_chan s)) True = (XTC_OK, Some 5)"
proof -
  let ?as = "[OSend 0 (Some (5::nat)), OSend 1 (Some 6), OStep 0, OStep 0, ORecv, ORecv]"
  obtain s :: "(nat, nat) os_world" where s: "os_run False ?as (os_world_init 0) = Some s"
      "ow_accepted s = [(0, Some 5)]" "ow_got s = [Some 5]" "ow_spc s 0 = OsDone" "ow_spc s 1 = OsDone"
    by (simp add: os_world_init_def oneshot_fresh_def)
  from oneshot_single [OF s(1)] s show ?thesis by auto
qed


text \<open>
  C36. With sequentially consistent memory no wake-up is lost: when a send was accepted and has
  returned, and a waker registration has returned, the registered waker has fired.
\<close>

theorem oneshot_wakes:
  assumes "os_run False as (os_world_init w) = Some s"
    and "(t, m) \<in> set (ow_accepted s)" "ow_spc s t = OsDone" "ow_wpc s = OwDone"
  shows "os_waker (ow_chan s) \<in> set (ow_fired s)"
  using os_run_inv [OF os_world_init_inv(1) assms(1)]
proof (cases rule: os_inv_cases)
  case (2 u x)
  with os_run_wake [OF os_world_init_inv assms(1)] assms(2-4) show ?thesis
    by (simp add: os_wake_inv_def)
qed (use assms in auto)

theorem oneshot_wakes_witness:
  "\<exists>s :: (nat, nat) os_world. os_run False [OSend 0 (Some 5), OWaker 9, OStep 0, OWakerStep, OStep 0]
       (os_world_init 0) = Some s \<and> ow_wpc s = OwDone \<and> os_waker (ow_chan s) = 9 \<and> 9 \<in> set (ow_fired s)"
proof -
  let ?as = "[OSend 0 (Some (5::nat)), OWaker (9::nat), OStep 0, OWakerStep, OStep 0]"
  obtain s :: "(nat, nat) os_world" where s: "os_run False ?as (os_world_init 0) = Some s"
      "ow_accepted s = [(0, Some 5)]" "ow_spc s 0 = OsDone" "ow_wpc s = OwDone" "os_waker (ow_chan s) = 9"
    by (simp add: os_world_init_def oneshot_fresh_def)
  from oneshot_wakes [OF s(1), of 0 "Some 5"] s show ?thesis by auto
qed


text \<open>
  Latest value wins: after any non-empty sequence of sends to a watch channel, a receive
  returns the last value, any number of times; before the first send it returns \<open>XTC_E_AGAIN\<close>.
\<close>

theorem watch_latest:
  "xtc_chan_watch_create XTC_OK None True = (XTC_OK, Some c, r) \<Longrightarrow>
   xtc_chan_watch_recv (foldl (\<lambda>c v. snd (xtc_chan_watch_send c v)) (Some c) vs) True =
     (if vs = [] then (XTC_E_AGAIN, None) else (XTC_OK, last vs))"
proof -
  assume c: "xtc_chan_watch_create XTC_OK None True = (XTC_OK, Some c, r)"
  have "\<exists>d. foldl (\<lambda>c v. snd (xtc_chan_watch_send c v)) (Some c) vs = Some d \<and>
      (vs \<noteq> [] \<longrightarrow> wt_has_value d \<and> wt_value d = last vs) \<and> (vs = [] \<longrightarrow> d = c)"
    by (induction vs rule: rev_induct) auto
  with c show ?thesis by (auto simp: xtc_chan_watch_create_def)
qed

theorem watch_latest_witness:
  "\<exists>c r. xtc_chan_watch_create XTC_OK None True = (XTC_OK, Some c, r) \<and>
    xtc_chan_watch_recv (foldl (\<lambda>c v. snd (xtc_chan_watch_send c v)) (Some c) [Some 1, Some (2::nat)]) True =
      (XTC_OK, Some 2)"
proof -
  obtain c :: "nat chan_watch" and r where c: "xtc_chan_watch_create XTC_OK None True = (XTC_OK, Some c, r)"
    by (simp add: xtc_chan_watch_create_def)
  from watch_latest [OF c, of "[Some 1, Some 2]"] c show ?thesis by auto
qed

end
