(* ===== verification/Spec2Isabelle.thy ===== *)
theory Spec2Isabelle
  imports Lock_Run Saga Sup Timer Res_Conc Mpsc_Conc Chan_Mpmc Chan_Demand Chan_Broadcast Chan_Oneshot
begin

text \<open>
  Verification of libxtc, a concurrency runtime in C: a resource accountant, channels, timers, a
  lock manager, supervisors and sagas. File names below are relative to \<^verbatim>\<open>src/src\<close>.

  \<^bold>\<open>The parts and how they interact.\<close> The accountant (\<^verbatim>\<open>ptc/res.c\<close>) meters resource kinds
  against caps; every channel (\<^verbatim>\<open>ptc/chan.c\<close>) charges it for the channel, and the mpsc, mpmc and
  demand channels also for each buffered message. An event loop owns a heap of timers (\<^verbatim>\<open>evt/timer.c\<close>),
  which parks tasks (\<^verbatim>\<open>evt/task.c\<close>) and is drained by the loop (\<^verbatim>\<open>evt/loop.c\<close>). The lock manager
  (\<^verbatim>\<open>ptc/lock_mgr.c\<close>) stands alone. A supervisor (\<^verbatim>\<open>orc/sup.c\<close>) is a process that restarts its
  children; a saga (\<^verbatim>\<open>orc/saga.c\<close>) runs actions with compensations.

  \<^bold>\<open>Theories.\<close>
    \<^item> \<open>Xtc_Prelude\<close>: error codes, machine-integer bounds, generic lemmas, and the locale
      \<open>step_system\<close> (what every step keeps, every run keeps), interpreted for the lock manager and
      for the supervisor.
    \<^item> \<open>Sized_Struct\<close> (\<^verbatim>\<open>inc/xtc_int.h\<close>): option structs that begin with their own size, read
      and written byte by byte. Shown: which bytes an older or newer caller's struct yields.
    \<^item> \<open>Res\<close> (\<^verbatim>\<open>ptc/res.c\<close>): the accountant, one call at a time; the locale \<open>metering\<close> is
      what the channels rely on, interpreted for the kinds they charge. Shown: exactly when an acquire
      is granted, caps respected by every run, caps unchanged by the trip through the option struct.
    \<^item> \<open>Res_Conc\<close>: the atomic accesses of acquire and release as an inductive step relation over
      any finite set of threads. Shown: no overflow, no usage above the cap, conservation of units,
      and that the sequential acquire is an uninterrupted run.
    \<^item> \<open>Bounded_Fifo\<close>: the ring buffer, the optional accountant, and the locale
      \<open>bounded_fifo\<close>, interpreted for the three bounded channels.
    \<^item> \<open>Chan_Mpsc\<close>, \<open>Chan_Mpmc\<close>, \<open>Chan_Demand\<close>, \<open>Chan_Broadcast\<close>, \<open>Chan_Oneshot\<close>
      (the last with the watch channel): the operations of \<^verbatim>\<open>ptc/chan.c\<close>. Shown: first-in
      first-out delivery within the capacity, units returned, draining after a close, exact demand,
      exact accounting of lag, wake-ups. \<open>Mpsc_Conc\<close> and the second half of \<open>Chan_Oneshot\<close>
      interleave the atomic accesses of the two channels that take no lock. Four theorems here state
      what goes wrong: a close that overtakes a message, units lost by a destroy, a wake-up missed
      after a close, a receive that outruns the store; a fifth does so under a store buffer.
    \<^item> \<open>Timer_Heap\<close> and \<open>Timer\<close>: the heap with its back-indices, the locale
      \<open>deadline_queue\<close> it implements, and the timers with reference counts, park timers and the
      drain. Shown: the type invariant over any sequence of calls (heap order, back-indices,
      reference counts equal to the owners), pops in deadline order, a drain that fires exactly the
      due timers, cancellation, the bound on the array.
    \<^item> \<open>Lock_Modes\<close>, \<open>Lock_Queue\<close>, \<open>Lock_Mgr\<close>, \<open>Lock_Detect\<close>,
      \<open>Lock_Run\<close>: the conflict matrix, one object's holders and queue, the manager's calls, the
      deadlock detector, and the whole as a step system. Shown: no two lockers ever hold conflicting
      modes and the counters are exact; when a request is granted; what a release promotes; the
      detector returns, aborts nobody without a cycle, and (unless the policy takes only expired
      lockers) leaves no cycle of waits among the others, as long as its node and edge tables do not fill up.
    \<^item> \<open>Sup\<close>: the supervisor. Shown: the bound on restarts in a period, which children a
      restart replaces, that a group restart waits for the old generation, and the exit hook.
    \<^item> \<open>Saga\<close>: shown are the exact order of actions and compensations, and that a saga whose
      compensations undo their actions completes or changes nothing.

  \<^bold>\<open>Correspondence.\<close> A C struct is a record with the struct's fields; a function is a definition
  with the function's name where HOL allows it, taking the state and returning it updated. NULL is
  \<open>None\<close>. An operation under a mutex is one function; a call that blocks is split at the wait
  (\<open>do_acquire\<close> and \<open>lock_resume\<close>). What code outside a component answers is an argument:
  allocation, the clock, a pending kill, the fault points of the simulator, and for the supervisor
  the process layer. Signed integers are \<open>int\<close> with their range an invariant; unsigned
  counters that may wrap are words.

  \<^bold>\<open>Bounds and fuel.\<close> The depth-first search and the abort loop of the detector carry fuel, one
  more than the number of nodes: each call colours a white node, each round removes a node's edges.
  The drain carries fuel above the number of slots, since each round pops one. With this fuel both are
  proved to return, the drain for callbacks that arm no timer and with the late-fire fault off. \<open>round_up\<close> is a partial function, since its loop diverges above the
  largest power of two; creating an mpsc channel is proved never to reach that case. A supervisor's wait
  is given the list of the rounds it sees, and a list that ends too early is \<open>None\<close>. All other
  recursion is structural or has a termination proof.

  \<^bold>\<open>Not modelled.\<close> Memory is sequentially consistent, apart from the store buffer of the oneshot
  channel. Of the lock manager: \<^verbatim>\<open>xtc_lock_vec\<close>, \<^verbatim>\<open>xtc_lockmgr_destroy\<close> and the
  detector thread's sleep loop. Processes, the executor, coroutine switches, I/O and TLS backends
  and the operating-system layer are system calls, assembly or the context the models take as
  arguments. The fiber synchronisation primitives, the lightweight and left-right locks, RCU and its
  containers, slabs, futures, batching, servers, state machines, the registry and the layers above
  them have no theory here.
\<close>

end
